(* ===== verification/Prelude.thy ===== *)
theory Prelude
  imports Main "HOL-Library.Word" "HOL-Library.Sublist"
begin

text \<open>
  Shared ground of the development: the machine integers and byte strings of the Rust sources,
  the few \<^verbatim>\<open>str\<close> and integer methods of the Rust standard library that several components
  use, the lemma collections of the development, and generic lemmas on lists and sums.

  A Rust \<^verbatim>\<open>String\<close>, \<^verbatim>\<open>OsString\<close> or byte buffer is a list of \<open>char\<close>, that is, of
  bytes; text is UTF-8.  A \<^verbatim>\<open>Result<T, E>\<close> is a sum \<open>E + T\<close> with \<open>Inl\<close> for the
  error.
\<close>

named_theorems path_simps \<open>rewriting of path components\<close>
named_theorems fs_frame \<open>what a file system operation leaves alone\<close>
named_theorems fs_inv \<open>preservation of file system invariants\<close>
named_theorems sess_simps \<open>unfolding of the session tracker\<close>

type_synonym u16 = "16 word"
type_synonym u32 = "32 word"
type_synonym u64 = "64 word"
type_synonym byte = char
type_synonym bytes = "byte list"

section \<open>Integer methods\<close>

text \<open>\<^verbatim>\<open>saturating_add\<close> and \<^verbatim>\<open>saturating_sub\<close> of the unsigned integer types.\<close>

definition saturating_add :: "'a::len word \<Rightarrow> 'a word \<Rightarrow> 'a word" where
  "saturating_add a b = (if unat a + unat b < 2 ^ LENGTH('a) then a + b else - 1)"

definition saturating_sub :: "'a::len word \<Rightarrow> 'a word \<Rightarrow> 'a word" where
  "saturating_sub a b = (if b \<le> a then a - b else 0)"

lemma unat_saturating_add:
  "unat (saturating_add a b) = min (unat a + unat b) (2 ^ LENGTH('a) - 1)"
  for a b :: "'a::len word"
proof -
  have "unat (- 1 :: 'a word) = 2 ^ LENGTH('a) - 1"
    by transfer
      (simp add: take_bit_minus_one_eq_mask mask_eq_exp_minus_1 nat_diff_distrib nat_power_eq)
  then show ?thesis by (auto simp: saturating_add_def unat_word_ariths)
qed

lemma unat_saturating_sub: "unat (saturating_sub a b) = unat a - unat b"
  by (auto simp: saturating_sub_def unat_sub word_le_nat_alt)

section \<open>String methods\<close>

definition str_starts_with :: "string \<Rightarrow> string \<Rightarrow> bool" where
  "str_starts_with s p = prefix p s"

definition str_ends_with :: "string \<Rightarrow> string \<Rightarrow> bool" where
  "str_ends_with s p = suffix p s"

definition ascii_lower :: "char \<Rightarrow> char" where
  "ascii_lower c =
     (let n = (of_char c :: nat) in if 65 \<le> n \<and> n \<le> 90 then char_of (n + 32) else c)"

definition to_ascii_lowercase :: "string \<Rightarrow> string" where
  "to_ascii_lowercase = map ascii_lower"

text \<open>\<^verbatim>\<open>str::strip_suffix\<close>.\<close>

definition str_strip_suffix :: "string \<Rightarrow> string \<Rightarrow> string option" where
  "str_strip_suffix s p =
     (if suffix p s then Some (take (length s - length p) s) else None)"

text \<open>\<^verbatim>\<open>str::split\<close> on a one-byte separator.\<close>

fun str_split :: "char \<Rightarrow> string \<Rightarrow> string list" where
  "str_split c [] = [[]]"
| "str_split c (x # xs) =
     (if x = c then [] # str_split c xs
      else (case str_split c xs of [] \<Rightarrow> [[x]] | y # ys \<Rightarrow> (x # y) # ys))"

text \<open>
  \<^verbatim>\<open>str::trim\<close> removes white space of the Unicode property \<open>White_Space\<close> at both ends; the
  UTF-8 encodings of those code points are listed here.
\<close>

definition white_space :: "string list" where
  "white_space =
     map (\<lambda>n. [char_of n]) [0x09, 0x0A, 0x0B, 0x0C, 0x0D, 0x20 :: nat] @
     map (map char_of)
       ([[0xC2, 0x85], [0xC2, 0xA0], [0xE1, 0x9A, 0x80],
         [0xE2, 0x80, 0xA8], [0xE2, 0x80, 0xA9], [0xE2, 0x80, 0xAF], [0xE2, 0x81, 0x9F],
         [0xE3, 0x80, 0x80]] @ map (\<lambda>n. [0xE2, 0x80, n]) [0x80 ..< 0x8B :: nat])"

function trim_start :: "string \<Rightarrow> string" where
  "trim_start s =
     (case find (\<lambda>w. prefix w s) white_space of
        None \<Rightarrow> s
      | Some w \<Rightarrow> if s = [] then [] else trim_start (drop (max 1 (length w)) s))"
  by pat_completeness auto
termination
  by (relation "measure length") auto

function trim_end :: "string \<Rightarrow> string" where
  "trim_end s =
     (case find (\<lambda>w. suffix w s) white_space of
        None \<Rightarrow> s
      | Some w \<Rightarrow> if s = [] then [] else trim_end (take (length s - max 1 (length w)) s))"
  by pat_completeness auto
termination
  by (relation "measure length") (auto simp: Let_def)

declare trim_start.simps [simp del] trim_end.simps [simp del]

definition str_trim :: "string \<Rightarrow> string" where
  "str_trim s = trim_end (trim_start s)"

text \<open>The well-formed UTF-8 byte sequences of the Unicode standard.\<close>

definition utf8_cont :: "nat \<Rightarrow> bool" where
  "utf8_cont b \<longleftrightarrow> 0x80 \<le> b \<and> b \<le> 0xBF"

definition utf8_pair :: "nat \<Rightarrow> nat \<Rightarrow> bool" where
  "utf8_pair b c \<longleftrightarrow> utf8_cont c \<and>
     (b = 0xE0 \<longrightarrow> 0xA0 \<le> c) \<and> (b = 0xED \<longrightarrow> c \<le> 0x9F) \<and> (b = 0xF0 \<longrightarrow> 0x90 \<le> c) \<and> (b = 0xF4 \<longrightarrow> c \<le> 0x8F)"

fun utf8_valid :: "nat list \<Rightarrow> bool" where
  "utf8_valid [] = True"
| "utf8_valid (b # bs) =
     (if b < 0x80 then utf8_valid bs
      else if 0xC2 \<le> b \<and> b \<le> 0xDF then
        (case bs of c # r \<Rightarrow> utf8_pair b c \<and> utf8_valid r | _ \<Rightarrow> False)
      else if 0xE0 \<le> b \<and> b \<le> 0xEF then
        (case bs of c # d # r \<Rightarrow> utf8_pair b c \<and> utf8_cont d \<and> utf8_valid r | _ \<Rightarrow> False)
      else if 0xF0 \<le> b \<and> b \<le> 0xF4 then
        (case bs of c # d # e # r \<Rightarrow> utf8_pair b c \<and> utf8_cont d \<and> utf8_cont e \<and> utf8_valid r | _ \<Rightarrow> False)
      else False)"

text \<open>
  \<^verbatim>\<open>OsStr::to_string_lossy\<close>: a well-formed sequence is kept, a longest ill-formed one becomes
  U+FFFD.  \<open>utf8_span\<close> is the length of the sequence that starts with the byte \<open>b\<close>, a lead
  byte or stray, before the bytes \<open>bs\<close>, and whether it is well formed.
\<close>

fun utf8_tail :: "nat \<Rightarrow> nat list \<Rightarrow> nat" where
  "utf8_tail 0 bs = 0"
| "utf8_tail (Suc n) [] = 0"
| "utf8_tail (Suc n) (b # bs) = (if utf8_cont b then Suc (utf8_tail n bs) else 0)"

definition utf8_span :: "nat \<Rightarrow> nat list \<Rightarrow> nat \<times> bool" where
  "utf8_span b bs =
     (let n = (if 0xC2 \<le> b \<and> b \<le> 0xDF then 1 else if 0xE0 \<le> b \<and> b \<le> 0xEF then 2
               else if 0xF0 \<le> b \<and> b \<le> 0xF4 then 3 else 0);
          k = (case bs of [] \<Rightarrow> 0 | c # _ \<Rightarrow> if utf8_pair b c then utf8_tail n bs else 0)
      in (Suc k, 0 < n \<and> k = n))"

definition replacement_character :: string where
  "replacement_character = [CHR 0xEF, CHR 0xBF, CHR 0xBD]"

fun to_string_lossy :: "string \<Rightarrow> string" where
  "to_string_lossy [] = []"
| "to_string_lossy (b # bs) =
     (if \<not> digit7 b then b # to_string_lossy bs
      else
        (case utf8_span (of_char b) (map of_char bs) of (k, ok) \<Rightarrow>
           (if ok then take k (b # bs) else replacement_character) @ to_string_lossy (drop (k - 1) bs)))"

section \<open>Generic lemmas\<close>

lemma str_split_neq_Nil [simp]: "str_split c s \<noteq> []"
  by (induction s) (auto split: list.splits)

lemma str_split_no_sep: "x \<in> set (str_split c s) \<Longrightarrow> c \<notin> set x"
  by (induction s arbitrary: x) (auto split: list.splits if_splits)

lemma str_split_id: "c \<notin> set s \<Longrightarrow> str_split c s = [s]"
  by (induction s) auto

lemma butlast_snoc_last: "xs \<noteq> [] \<Longrightarrow> butlast xs @ [last xs] = xs"
  by simp

lemma map_of_rev_distinct: "distinct (map fst kvs) \<Longrightarrow> map_of (rev kvs) = map_of kvs"
proof (induction kvs)
  case (Cons kv kvs)
  then have "fst kv \<notin> dom (map_of kvs)" by (simp add: dom_map_of_conv_image_fst)
  with Cons show ?case by (auto simp: fun_eq_iff map_add_def split: option.splits)
qed simp

lemma option_ext: "(\<And>b. x = Some b \<longleftrightarrow> y = Some b) \<Longrightarrow> x = y"
  by (cases x; cases y) auto

lemma case_sum_Inr_iff:
  "(case x of Inl e \<Rightarrow> Inl e | Inr a \<Rightarrow> f a) = Inr b \<longleftrightarrow> (\<exists>a. x = Inr a \<and> f a = Inr b)"
  by (cases x) auto

lemma to_ascii_lowercase_append [simp]:
  "to_ascii_lowercase (s @ t) = to_ascii_lowercase s @ to_ascii_lowercase t"
  by (simp add: to_ascii_lowercase_def)

subsection \<open>Lossy decoding\<close>

text \<open>ASCII is untouched by it, and nothing in ASCII comes out of anything else.\<close>

abbreviation ascii :: "string \<Rightarrow> bool" where
  "ascii s \<equiv> \<forall>c \<in> set s. \<not> digit7 c"

lemma digit7_iff: "digit7 c \<longleftrightarrow> 0x80 \<le> (of_char c :: nat)"
proof (cases c)
  case (Char b0 b1 b2 b3 b4 b5 b6 b7)
  then show ?thesis by (cases b0; cases b1; cases b2; cases b3; cases b4; cases b5; cases b6; cases b7) simp_all
qed

lemma utf8_tail_cont: "\<forall>c \<in> set (take (utf8_tail n bs) bs). utf8_cont c"
  by (induction n bs rule: utf8_tail.induct) auto

lemma utf8_tail_le: "utf8_tail n bs \<le> n" "utf8_tail n bs \<le> length bs"
  by (induction n bs rule: utf8_tail.induct) auto

lemma utf8_span_cont:
  assumes "utf8_span b bs = (k, ok)"
  shows "0 < k \<and> k - 1 \<le> length bs \<and> (\<forall>c \<in> set (take (k - 1) bs). utf8_cont c)"
proof -
  from assms have "k = Suc 0 \<or> (\<exists>n. k = Suc (utf8_tail n bs))"
    unfolding utf8_span_def Let_def by (cases bs) (auto simp del: utf8_tail.simps split: if_splits)
  with utf8_tail_cont [of _ bs] utf8_tail_le(2) [of _ bs] show ?thesis by auto
qed

lemma utf8_span_valid:
  assumes "utf8_valid (b # bs)" "0x80 \<le> b"
  shows "\<exists>n. utf8_span b bs = (Suc n, True) \<and> n \<le> length bs \<and> utf8_valid (drop n bs)"
proof -
  consider "0xC2 \<le> b" "b \<le> 0xDF" | "0xE0 \<le> b" "b \<le> 0xEF" | "0xF0 \<le> b" "b \<le> 0xF4"
    using assms by (auto split: if_splits)
  then show ?thesis
  proof cases
    case 1
    with assms obtain c r where "bs = c # r" "utf8_pair b c" "utf8_valid r" by (auto split: list.splits)
    with 1 show ?thesis by (intro exI [of _ 1]) (simp add: utf8_span_def utf8_pair_def)
  next
    case 2
    with assms obtain c d r where "bs = c # d # r" "utf8_pair b c" "utf8_cont d" "utf8_valid r"
      by (auto split: list.splits)
    with 2 show ?thesis by (intro exI [of _ 2]) (simp add: utf8_span_def utf8_pair_def numeral_2_eq_2)
  next
    case 3
    with assms obtain c d e r where "bs = c # d # e # r" "utf8_pair b c" "utf8_cont d" "utf8_cont e" "utf8_valid r"
      by (auto split: list.splits)
    with 3 show ?thesis by (intro exI [of _ 3]) (simp add: utf8_span_def utf8_pair_def numeral_3_eq_3)
  qed
qed

text \<open>One step: an ASCII byte is copied; otherwise bytes that are not ASCII replace such bytes.\<close>

lemma to_string_lossy_step:
  "\<exists>chunk out rest. b # bs = chunk @ rest \<and> to_string_lossy (b # bs) = out @ to_string_lossy rest \<and>
     length rest \<le> length bs \<and>
     (chunk = [b] \<and> out = [b] \<and> \<not> digit7 b \<or>
      chunk \<noteq> [] \<and> out \<noteq> [] \<and> (\<forall>c \<in> set chunk \<union> set out. digit7 c))"
proof (cases "digit7 b")
  case False
  then show ?thesis by (intro exI [of _ "[b]"] exI [of _ bs]) simp
next
  case True
  obtain k ok where s: "utf8_span (of_char b) (map of_char bs) = (k, ok)" by fastforce
  from utf8_span_cont [OF s] obtain j where k: "k = Suc j" and j: "j \<le> length bs"
    and cont: "\<forall>c \<in> set (take j bs). utf8_cont (of_char c)" by (cases k) (auto simp: take_map)
  from cont have "\<forall>c \<in> set (take j bs). digit7 c" by (auto simp: digit7_iff utf8_cont_def)
  with True s k show ?thesis
    by (intro exI [of _ "b # take j bs"] exI [of _ "drop j bs"]
        exI [of _ "if ok then b # take j bs else replacement_character"])
      (auto simp: replacement_character_def)
qed

lemma lossy_induct [case_names Nil Ascii Other]:
  assumes "P [] []"
    and "\<And>b bs. \<not> digit7 b \<Longrightarrow> P bs (to_string_lossy bs) \<Longrightarrow> P (b # bs) (b # to_string_lossy bs)"
    and "\<And>chunk out rest. chunk \<noteq> [] \<Longrightarrow> out \<noteq> [] \<Longrightarrow> \<forall>c \<in> set chunk \<union> set out. digit7 c \<Longrightarrow>
      P rest (to_string_lossy rest) \<Longrightarrow> P (chunk @ rest) (out @ to_string_lossy rest)"
  shows "P s (to_string_lossy s)"
proof (induction s rule: length_induct)
  case (1 s)
  show ?case
  proof (cases s)
    case (Cons b bs)
    obtain chunk out rest where s: "s = chunk @ rest" and o: "to_string_lossy s = out @ to_string_lossy rest"
      and len: "length rest \<le> length bs"
      and c: "chunk = [b] \<and> out = [b] \<and> \<not> digit7 b \<or> chunk \<noteq> [] \<and> out \<noteq> [] \<and> (\<forall>c \<in> set chunk \<union> set out. digit7 c)"
      using to_string_lossy_step [of b bs] Cons by blast
    from len Cons 1 have "P rest (to_string_lossy rest)" by simp
    with c assms(2) [of b rest] assms(3) [of chunk out rest] show ?thesis by (auto simp: o) (simp_all add: s)
  qed (simp add: assms(1))
qed

lemma set_lossy_ascii: "\<not> digit7 c \<Longrightarrow> c \<in> set (to_string_lossy s) \<longleftrightarrow> c \<in> set s"
  by (induction rule: lossy_induct) auto

lemma lossy_ascii_iff: "ascii t \<Longrightarrow> to_string_lossy s = t \<longleftrightarrow> s = t"
proof (induction arbitrary: t rule: lossy_induct)
  case (Ascii b bs)
  then show ?case by (cases t) auto
next
  case (Other chunk out rest)
  then show ?case by (cases chunk; cases out; cases t) auto
qed auto

lemma suffix_nonascii: "ascii t \<Longrightarrow> \<forall>c \<in> set x. digit7 c \<Longrightarrow> suffix t (x @ y) \<longleftrightarrow> suffix t y"
proof (induction x)
  case (Cons a x)
  then have "t \<noteq> a # x @ y" by auto
  with Cons show ?case by (auto simp: suffix_Cons)
qed simp

lemma suffix_lossy: "ascii t \<Longrightarrow> suffix t (to_string_lossy s) \<longleftrightarrow> suffix t s"
proof (induction rule: lossy_induct)
  case (Ascii b bs)
  then show ?case  using lossy_ascii_iff [of "tl t" bs] by (cases t) (auto simp: suffix_Cons)
next
  case (Other chunk out rest)
  then show ?case by (simp add: suffix_nonascii)
qed simp

lemma lossy_valid: "utf8_valid (map of_char s) \<Longrightarrow> to_string_lossy s = s"
proof (induction s rule: to_string_lossy.induct)
  case (2 b bs)
  show ?case
  proof (cases "digit7 b")
    case False
    with 2 show ?thesis by (simp add: digit7_iff)
  next
    case True
    with 2(3) obtain n where "utf8_span (of_char b) (map of_char bs) = (Suc n, True)" "utf8_valid (map of_char (drop n bs))"
      using utf8_span_valid [of "of_char b" "map of_char bs"] by (auto simp: digit7_iff drop_map)
    with 2(2) True show ?thesis by simp
  qed
qed simp

lemma lossy_prefix: "ascii t \<Longrightarrow> prefix t (to_string_lossy s) \<longleftrightarrow> prefix t s"
proof (induction arbitrary: t rule: lossy_induct)
  case (Ascii b bs)
  then show ?case by (cases t) auto
next
  case (Other chunk out rest)
  then show ?case by (cases t; cases chunk; cases out) auto
qed simp

section \<open>Runs of a deterministic component\<close>

text \<open>
  A component is driven by a sequence of calls.  \<open>run_system\<close> is the contract between a
  component and whoever drives it: every call that \<open>ok\<close> admits keeps the invariant, so every
  sequence of such calls does.
\<close>

locale run_system =
  fixes step :: "'e \<Rightarrow> 's \<Rightarrow> 's"
    and ok :: "'e \<Rightarrow> bool"
    and invar :: "'s \<Rightarrow> bool"
  assumes step_invar: "invar s \<Longrightarrow> ok e \<Longrightarrow> invar (step e s)"
begin

lemma run_invar: "invar s \<Longrightarrow> list_all ok es \<Longrightarrow> invar (fold step es s)"
  by (induction es arbitrary: s) (auto simp: step_invar)

lemma run_invar_prefix: "invar s \<Longrightarrow> list_all ok (es @ es') \<Longrightarrow> invar (fold step es s)"
  by (simp add: run_invar)

end

text \<open>A quantity that no call decreases with respect to a preorder grows along every run.\<close>

locale monotone_run = run_system +
  fixes le :: "'s \<Rightarrow> 's \<Rightarrow> bool"
  assumes le_refl: "le s s"
    and le_trans: "le s t \<Longrightarrow> le t u \<Longrightarrow> le s u"
    and step_le: "invar s \<Longrightarrow> ok e \<Longrightarrow> le s (step e s)"
begin

lemma run_le: "invar s \<Longrightarrow> list_all ok es \<Longrightarrow> le s (fold step es s)"
proof (induction es arbitrary: s)
  case (Cons e es)
  then have "le s (step e s)" and "le (step e s) (fold step es (step e s))"
    by (auto intro: step_le step_invar)
  then show ?case by (auto intro: le_trans)
qed (simp add: le_refl)

end

end
