(* ===== verification/Limits.thy ===== *)
theory Limits
  imports Prelude "HOL-Library.AList"
begin

text \<open>
  \<^verbatim>\<open>src/limits.rs\<close> and \<^verbatim>\<open>src/presence.rs\<close>: the concurrent-session tracker behind the
  login gate, and the presence listener that releases sessions.

  The state behind the mutex is the record \<open>session_state\<close>; every method takes the lock for
  its whole body, so a method is one function on the state and a concurrent execution is a
  sequence of such calls in lock order.  \<^verbatim>\<open>Instant\<close> is a number of nanoseconds on the
  monotonic clock (\<^verbatim>\<open>Instant::duration_since\<close> saturates at zero, as subtraction on \<open>nat\<close>
  does), and the value read by \<^verbatim>\<open>Instant::now()\<close> is an argument.  The \<^verbatim>\<open>HashMap\<close> is an
  association list without repeated keys.  \<^verbatim>\<open>u32\<close> counters keep their width.
\<close>

section \<open>The tracker\<close>

definition REAP_INTERVAL_SECS :: u64 where
  "REAP_INTERVAL_SECS = 60"

definition SESSION_TTL_SECS :: u64 where
  "SESSION_TTL_SECS = 300"

record session_state =
  per_account :: "(string \<times> nat list) list"
  global :: u32
  max_global :: u32
  max_per_account :: "u32 option"

definition tracker_new :: "u32 \<Rightarrow> u32 option \<Rightarrow> session_state" where
  "tracker_new mg mpa =
     \<lparr>per_account = [], global = 0, max_global = mg, max_per_account = mpa\<rparr>"

text \<open>\<^verbatim>\<open>per_account.entry(username).or_default().push(now)\<close>.\<close>

definition push_session :: "nat \<Rightarrow> string \<Rightarrow> session_state \<Rightarrow> session_state" where
  "push_session now u s =
     s\<lparr>per_account :=
         AList.update u
           ((case map_of (per_account s) u of None \<Rightarrow> [] | Some v \<Rightarrow> v) @ [now]) (per_account s)\<rparr>"

definition on_login :: "nat \<Rightarrow> string \<Rightarrow> session_state \<Rightarrow> session_state" where
  "on_login now u s =
     (let s = push_session now u s in s\<lparr>global := saturating_add (global s) 1\<rparr>)"

definition on_logout :: "string \<Rightarrow> session_state \<Rightarrow> session_state" where
  "on_logout u s =
     (let (s, removed) =
            (case map_of (per_account s) u of
               None \<Rightarrow> (s, False)
             | Some v \<Rightarrow>
                 if v \<noteq> [] then (s\<lparr>per_account := AList.update u (tl v) (per_account s)\<rparr>, True)
                 else (s, False));
          s = (if removed then s\<lparr>global := saturating_sub (global s) 1\<rparr> else s)
      in if map_of (per_account s) u = Some []
         then s\<lparr>per_account := AList.delete u (per_account s)\<rparr> else s)"

text \<open>
  \<^verbatim>\<open>reap\<close>: \<open>retain_fresh\<close> is the closure passed to \<^verbatim>\<open>HashMap::retain\<close>, run over the
  entries; it returns the entries kept and the \<^verbatim>\<open>u32\<close> number of sessions dropped.
\<close>

fun retain_fresh ::
  "nat \<Rightarrow> nat \<Rightarrow> (string \<times> nat list) list \<Rightarrow> u32 \<Rightarrow> (string \<times> nat list) list \<times> u32" where
  "retain_fresh now ttl [] reaped = ([], reaped)"
| "retain_fresh now ttl ((u, v) # m) reaped =
     (let before = length v;
          v' = filter (\<lambda>t. now - t < ttl) v;
          (m', reaped') = retain_fresh now ttl m (reaped + of_nat (before - length v'))
      in (if v' \<noteq> [] then (u, v') # m' else m', reaped'))"

definition reap :: "nat \<Rightarrow> nat \<Rightarrow> session_state \<Rightarrow> u32 \<times> session_state" where
  "reap now ttl s =
     (let (m, reaped) = retain_fresh now ttl (per_account s) 0
      in (reaped, s\<lparr>per_account := m, global := saturating_sub (global s) reaped\<rparr>))"

text \<open>\<^verbatim>\<open>per_account.get(username).map_or(0, |v| v.len() as u32)\<close>.\<close>

definition account_len :: "session_state \<Rightarrow> string \<Rightarrow> u32" where
  "account_len s u = (case map_of (per_account s) u of None \<Rightarrow> 0 | Some v \<Rightarrow> of_nat (length v))"

definition at_capacity :: "string \<Rightarrow> session_state \<Rightarrow> bool" where
  "at_capacity u s =
     (if global s \<ge> max_global s then True
      else (case max_per_account s of Some m \<Rightarrow> account_len s u \<ge> m | None \<Rightarrow> False))"

definition try_admit :: "nat \<Rightarrow> string \<Rightarrow> session_state \<Rightarrow> bool \<times> session_state" where
  "try_admit now u s =
     (if global s \<ge> max_global s then (False, s)
      else if (case max_per_account s of Some m \<Rightarrow> account_len s u \<ge> m | None \<Rightarrow> False)
        then (False, s)
      else (let s = push_session now u s
            in (True, s\<lparr>global := saturating_add (global s) 1\<rparr>)))"

definition set_limits :: "u32 \<Rightarrow> u32 option \<Rightarrow> session_state \<Rightarrow> session_state" where
  "set_limits mg mpa s = s\<lparr>max_global := mg, max_per_account := mpa\<rparr>"

text \<open>\<^verbatim>\<open>src/presence.rs\<close>: the listener called on libunftp's presence events.\<close>

datatype presence_event = LoggedIn | LoggedOut

definition receive_presence_event ::
  "presence_event \<Rightarrow> string \<Rightarrow> session_state \<Rightarrow> session_state" where
  "receive_presence_event e username s =
     (case e of LoggedIn \<Rightarrow> s | LoggedOut \<Rightarrow> on_logout username s)"

lemmas tracker_defs [sess_simps] =
  tracker_new_def push_session_def on_login_def on_logout_def reap_def account_len_def
  at_capacity_def try_admit_def set_limits_def receive_presence_event_def

section \<open>Counting sessions\<close>

text \<open>
  \<open>sessions s u\<close> is the number of live slots of account \<open>u\<close>, \<open>total_sessions s\<close> the number of
  all slots.  The invariant says that the \<^verbatim>\<open>global\<close> counter is exact and that no account is
  kept with an empty vector.
\<close>

definition slots :: "(string \<times> nat list) list \<Rightarrow> string \<Rightarrow> nat list" where
  "slots m u = (case map_of m u of None \<Rightarrow> [] | Some v \<Rightarrow> v)"

definition sessions :: "session_state \<Rightarrow> string \<Rightarrow> nat" where
  "sessions s u = length (slots (per_account s) u)"

definition total_slots :: "(string \<times> nat list) list \<Rightarrow> nat" where
  "total_slots m = sum_list (map (length \<circ> snd) m)"

definition total_sessions :: "session_state \<Rightarrow> nat" where
  "total_sessions s = total_slots (per_account s)"

definition tracker_inv :: "session_state \<Rightarrow> bool" where
  "tracker_inv s \<longleftrightarrow>
     distinct (map fst (per_account s)) \<and> list_all (\<lambda>(u, v). v \<noteq> []) (per_account s) \<and>
     unat (global s) = total_sessions s"

definition within_caps :: "session_state \<Rightarrow> bool" where
  "within_caps s \<longleftrightarrow>
     total_sessions s \<le> unat (max_global s) \<and>
     (\<forall>m u. max_per_account s = Some m \<longrightarrow> sessions s u \<le> unat m)"

lemma slots_update [simp]: "slots (AList.update u v m) = (slots m)(u := v)"
  by (simp add: slots_def update_conv' fun_eq_iff)

lemma slots_delete [simp]: "slots (AList.delete u m) = (slots m)(u := [])"
  by (simp add: slots_def delete_conv' fun_eq_iff)

lemma slots_Nil [simp]: "slots [] u = []"
  by (simp add: slots_def)

lemma slots_Cons [simp]: "slots ((w, v) # m) u = (if w = u then v else slots m u)"
  by (simp add: slots_def)

lemma total_slots_simps [simp]:
  "total_slots [] = 0" "total_slots ((u, v) # m) = length v + total_slots m"
  by (simp_all add: total_slots_def)

lemma slots_notin: "u \<notin> fst ` set m \<Longrightarrow> slots m u = []"
  by (simp add: slots_def map_of_eq_None_iff [THEN iffD2])

lemma total_slots_update:
  "distinct (map fst m) \<Longrightarrow>
     total_slots (AList.update u v m) + length (slots m u) = total_slots m + length v"
  by (induction m) (auto simp: slots_notin)

lemma set_update_subset: "set (AList.update u v m) \<subseteq> insert (u, v) (set m)"
  by (induction m) auto

lemma total_slots_delete:
  "distinct (map fst m) \<Longrightarrow> total_slots (AList.delete u m) + length (slots m u) = total_slots m"
proof (induction m)
  case (Cons a m)
  obtain w v where [simp]: "a = (w, v)" by (cases a)
  from Cons have "w = u \<Longrightarrow> AList.delete u m = m"
    by (simp add: delete_id)
  with Cons show ?case by (auto simp: AList.delete_simps)
qed simp

lemma slots_le_total: "length (slots m u) \<le> total_slots m"
  by (induction m) auto

lemma sessions_le_total: "sessions s u \<le> total_sessions s"
  by (simp add: sessions_def total_sessions_def slots_le_total)

lemma total_bounded: "tracker_inv s \<Longrightarrow> total_sessions s < 2 ^ 32"
  using unsigned_less [of "global s", where 'a = nat] by (simp add: tracker_inv_def)

text \<open>The cast \<^verbatim>\<open>v.len() as u32\<close> is lossless on states that satisfy the invariant.\<close>

lemma unat_account_len: "tracker_inv s \<Longrightarrow> unat (account_len s u) = sessions s u"
proof -
  assume "tracker_inv s"
  then have "sessions s u < 2 ^ 32"
    using total_bounded sessions_le_total le_less_trans by blast
  then show ?thesis
    by (auto simp: account_len_def sessions_def slots_def unat_of_nat take_bit_eq_mod split: option.splits)
qed

lemma at_capacity_iff:
  "tracker_inv s \<Longrightarrow> at_capacity u s \<longleftrightarrow>
     unat (max_global s) \<le> total_sessions s \<or> (\<exists>m. max_per_account s = Some m \<and> unat m \<le> sessions s u)"
  using unat_account_len [of s u]
  by (auto simp: at_capacity_def tracker_inv_def word_le_nat_alt split: option.splits)

text \<open>
  The combined check-and-reserve of \<^verbatim>\<open>try_admit\<close> is the separate check followed by the
  separate reservation.
\<close>

lemma try_admit_eq:
  "try_admit now u s = (if at_capacity u s then (False, s) else (True, on_login now u s))"
  by (auto simp: try_admit_def at_capacity_def on_login_def Let_def split: option.splits)

section \<open>Every method keeps the counters exact\<close>

lemma push_session_facts:
  assumes "tracker_inv s"
  shows "slots (per_account (push_session now u s)) =
           (slots (per_account s))(u := slots (per_account s) u @ [now])"
    and "total_sessions (push_session now u s) = Suc (total_sessions s)"
    and "distinct (map fst (per_account (push_session now u s)))"
    and "list_all (\<lambda>(u, v). v \<noteq> []) (per_account (push_session now u s))"
proof -
  let ?v = "slots (per_account s) u @ [now]"
  have eq: "per_account (push_session now u s) = AList.update u ?v (per_account s)"
    by (simp add: push_session_def slots_def)
  from assms have d: "distinct (map fst (per_account s))" by (simp add: tracker_inv_def)
  show "slots (per_account (push_session now u s)) =
           (slots (per_account s))(u := slots (per_account s) u @ [now])"
    by (simp add: eq)
  show "total_sessions (push_session now u s) = Suc (total_sessions s)"
    using total_slots_update [OF d, of u ?v] by (simp add: total_sessions_def eq)
  show "distinct (map fst (per_account (push_session now u s)))"
    using d by (simp add: eq distinct_update)
  from assms have "\<forall>(u, v) \<in> set (per_account s). v \<noteq> []"
    by (simp add: tracker_inv_def list_all_iff)
  then show "list_all (\<lambda>(u, v). v \<noteq> []) (per_account (push_session now u s))"
    using set_update_subset [of u ?v "per_account s"] by (auto simp: eq list_all_iff)
qed

lemma on_login_inv:
  assumes "tracker_inv s" and "total_sessions s < 2 ^ 32 - 1"
  shows "tracker_inv (on_login now u s)"
    and "total_sessions (on_login now u s) = Suc (total_sessions s)"
    and "sessions (on_login now u s) = (sessions s)(u := Suc (sessions s u))"
proof -
  note push = push_session_facts [OF assms(1), of now u]
  have pa: "per_account (on_login now u s) = per_account (push_session now u s)"
    by (simp add: on_login_def Let_def)
  have g: "global (push_session now u s) = global s" by (simp add: push_session_def)
  show tot: "total_sessions (on_login now u s) = Suc (total_sessions s)"
    using push(2) by (simp add: total_sessions_def pa)
  show "sessions (on_login now u s) = (sessions s)(u := Suc (sessions s u))"
    by (simp add: sessions_def pa push(1) fun_eq_iff)
  have "unat (global (on_login now u s)) = Suc (total_sessions s)"
    using assms by (simp add: on_login_def Let_def g unat_saturating_add tracker_inv_def)
  with tot push(3,4) show "tracker_inv (on_login now u s)"
    by (simp add: tracker_inv_def pa)
qed

lemma map_of_slots:
  "list_all (\<lambda>(u, v). v \<noteq> []) m \<Longrightarrow>
     map_of m u = (if slots m u = [] then None else Some (slots m u))"
  by (auto simp: slots_def list_all_iff dest!: map_of_SomeD split: option.splits)

lemma on_logout_cases:
  fixes u
  assumes "tracker_inv s"
  defines "m \<equiv> per_account s"
  defines "v \<equiv> slots m u"
  shows "on_logout u s =
     (if v = [] then s
      else s\<lparr>per_account := (if tl v = [] then AList.delete u (AList.update u (tl v) m)
                            else AList.update u (tl v) m),
             global := saturating_sub (global s) 1\<rparr>)"
proof -
  from assms(1) have "map_of m u = (if v = [] then None else Some v)"
    unfolding m_def v_def by (simp add: tracker_inv_def map_of_slots)
  then show ?thesis
    by (auto simp: on_logout_def m_def Let_def update_conv' split: if_splits)
qed

lemma on_logout_inv:
  assumes inv: "tracker_inv s"
  shows "tracker_inv (on_logout u s)"
    and "slots (per_account (on_logout u s)) =
           (slots (per_account s))(u := tl (slots (per_account s) u))"
    and "total_sessions (on_logout u s) = total_sessions s - (if sessions s u = 0 then 0 else 1)"
proof -
  let ?m = "per_account s" and ?v = "slots (per_account s) u"
  from inv have d: "distinct (map fst ?m)" and ne: "list_all (\<lambda>(u, v). v \<noteq> []) ?m"
    and g: "unat (global s) = total_sessions s" by (simp_all add: tracker_inv_def)
  note eq = on_logout_cases [OF inv, of u]
  show "slots (per_account (on_logout u s)) = (slots ?m)(u := tl ?v)"
    by (auto simp: eq fun_eq_iff)
  have upd: "Suc (total_slots (AList.update u (tl ?v) ?m)) = total_slots ?m" if "?v \<noteq> []"
    using total_slots_update [OF d, of u "tl ?v"] that by (cases ?v) simp_all
  moreover have "total_slots (AList.delete u (AList.update u (tl ?v) ?m)) =
      total_slots (AList.update u (tl ?v) ?m)" if "tl ?v = []"
    using total_slots_delete [of "AList.update u (tl ?v) ?m" u] d that
    by (simp add: distinct_update)
  ultimately have tot: "?v \<noteq> [] \<Longrightarrow> Suc (total_sessions (on_logout u s)) = total_sessions s"
    by (auto simp: eq total_sessions_def)
  then show "total_sessions (on_logout u s) = total_sessions s - (if sessions s u = 0 then 0 else 1)"
    by (cases "?v = []") (auto simp: sessions_def eq)
  have "list_all (\<lambda>(u, v). v \<noteq> []) (AList.update u (tl ?v) ?m)" if "tl ?v \<noteq> []"
    using ne set_update_subset [of u "tl ?v" ?m] that by (auto simp: list_all_iff)
  moreover have "list_all (\<lambda>(u, v). v \<noteq> []) (AList.delete u (AList.update u (tl ?v) ?m))"
    using ne set_update_subset [of u "tl ?v" ?m] by (auto simp: list_all_iff AList.delete_eq)
  ultimately show "tracker_inv (on_logout u s)"
    using inv d g tot
    by (auto simp: eq tracker_inv_def unat_saturating_sub distinct_update distinct_delete total_sessions_def
        split: if_splits)
qed

text \<open>What \<^verbatim>\<open>retain\<close> keeps, and how many sessions it drops.\<close>

definition dropped :: "(nat \<Rightarrow> bool) \<Rightarrow> (string \<times> nat list) list \<Rightarrow> nat" where
  "dropped P m = (\<Sum>(u, v) \<leftarrow> m. length v - length (filter P v))"

lemma dropped_simps [simp]:
  "dropped P [] = 0"
  "dropped P ((u, v) # m) = (length v - length (filter P v)) + dropped P m"
  by (simp_all add: dropped_def del: add_diff_assoc2)

lemma retain_fresh_eq:
  "retain_fresh now ttl m r =
     (filter (\<lambda>(u, v). v \<noteq> []) (map (\<lambda>(u, v). (u, filter (\<lambda>t. now - t < ttl) v)) m),
      r + of_nat (dropped (\<lambda>t. now - t < ttl) m))"
proof (induction now ttl m r rule: retain_fresh.induct)
  case (2 now ttl u v m r)
  let ?P = "\<lambda>t. now - t < ttl"
  have "(of_nat (dropped ?P ((u, v) # m)) :: u32) =
      of_nat (length v - length (filter ?P v)) + of_nat (dropped ?P m)"
    by (simp only: dropped_simps of_nat_add)
  with 2 show ?case by (simp add: Let_def del: of_nat_diff dropped_simps)
qed simp

lemma total_slots_filter:
  "total_slots m =
     total_slots (filter (\<lambda>(u, v). v \<noteq> []) (map (\<lambda>(u, v). (u, filter P v)) m)) + dropped P m"
proof (induction m)
  case (Cons a m)
  obtain u v where [simp]: "a = (u, v)" by (cases a)
  from Cons show ?case
    by (cases "filter P v = []") (simp_all, use length_filter_le [of P v] in arith)
qed simp

lemma slots_filter:
  "distinct (map fst m) \<Longrightarrow>
     slots (filter (\<lambda>(u, v). v \<noteq> []) (map (\<lambda>(u, v). (u, filter P v)) m)) u = filter P (slots m u)"
proof (induction m)
  case (Cons a m)
  obtain w v where [simp]: "a = (w, v)" by (cases a)
  from Cons.prems have "w = u \<Longrightarrow> slots m u = []" by (auto intro: slots_notin)
  with Cons show ?case by auto
qed simp

lemma distinct_filter_slots:
  "distinct (map fst m) \<Longrightarrow>
     distinct (map fst (filter (\<lambda>(u, v). v \<noteq> []) (map (\<lambda>(u, v). (u, filter P v)) m)))"
  by (induction m) (force split: prod.splits)+

lemma reap_inv:
  assumes inv: "tracker_inv s"
  shows "tracker_inv (snd (reap now ttl s))"
    and "slots (per_account (snd (reap now ttl s))) u =
           filter (\<lambda>t. now - t < ttl) (slots (per_account s) u)"
    and "total_sessions s = total_sessions (snd (reap now ttl s)) + unat (fst (reap now ttl s))"
proof -
  let ?P = "\<lambda>t. now - t < ttl" and ?m = "per_account s"
  let ?m' = "filter (\<lambda>(u, v). v \<noteq> []) (map (\<lambda>(u, v). (u, filter ?P v)) ?m)"
  let ?n = "dropped ?P ?m"
  from inv have d: "distinct (map fst ?m)" and g: "unat (global s) = total_sessions s"
    by (simp_all add: tracker_inv_def)
  have eq: "reap now ttl s =
      (of_nat ?n, s\<lparr>per_account := ?m', global := saturating_sub (global s) (of_nat ?n)\<rparr>)"
    by (simp add: reap_def retain_fresh_eq)
  note sum = total_slots_filter [of ?m ?P]
  then have "?n < 2 ^ 32" using total_bounded [OF inv] by (simp add: total_sessions_def)
  then have n: "unat (of_nat ?n :: u32) = ?n" by (simp add: unat_of_nat take_bit_eq_mod)
  show "slots (per_account (snd (reap now ttl s))) u = filter ?P (slots ?m u)"
    using slots_filter [OF d] by (simp add: eq)
  show "total_sessions s = total_sessions (snd (reap now ttl s)) + unat (fst (reap now ttl s))"
    using sum n by (simp add: eq total_sessions_def)
  show "tracker_inv (snd (reap now ttl s))"
    using distinct_filter_slots [OF d, of ?P] sum n g
    by (auto simp: eq tracker_inv_def total_sessions_def list_all_iff unat_saturating_sub)
qed

section \<open>Runs of the tracker\<close>

text \<open>
  The calls the running server makes: the login gate (\<^verbatim>\<open>ReoAuth::authenticate\<close>), the presence
  listener, the reaper task and a configuration reload.
\<close>

datatype tracker_call =
  Admit nat string
| Presence presence_event string
| Reap nat nat
| SetLimits u32 "u32 option"

fun tracker_step :: "tracker_call \<Rightarrow> session_state \<Rightarrow> session_state" where
  "tracker_step (Admit now u) s = snd (try_admit now u s)"
| "tracker_step (Presence e u) s = receive_presence_event e u s"
| "tracker_step (Reap now ttl) s = snd (reap now ttl s)"
| "tracker_step (SetLimits mg mpa) s = set_limits mg mpa s"

fun keeps_limits :: "tracker_call \<Rightarrow> bool" where
  "keeps_limits (SetLimits _ _) = False"
| "keeps_limits _ = True"

text \<open>
  The contract of a session gate towards the server: admission is refused without effect or
  reserves exactly one slot below both caps, a release frees at most one slot of its own
  account, a sweep only frees slots.
\<close>

locale session_gate =
  fixes admit :: "nat \<Rightarrow> 'u \<Rightarrow> 's \<Rightarrow> bool \<times> 's"
    and release :: "'u \<Rightarrow> 's \<Rightarrow> 's"
    and sweep :: "nat \<Rightarrow> nat \<Rightarrow> 's \<Rightarrow> 's"
    and cnt :: "'s \<Rightarrow> 'u \<Rightarrow> nat"
    and tot :: "'s \<Rightarrow> nat"
    and gcap :: "'s \<Rightarrow> nat"
    and acap :: "'s \<Rightarrow> nat option"
    and invar :: "'s \<Rightarrow> bool"
  assumes admit_invar: "invar s \<Longrightarrow> invar (snd (admit now u s))"
    and release_invar: "invar s \<Longrightarrow> invar (release u s)"
    and sweep_invar: "invar s \<Longrightarrow> invar (sweep now ttl s)"
    and admit_refused: "\<not> fst (admit now u s) \<Longrightarrow> snd (admit now u s) = s"
    and admit_granted: "invar s \<Longrightarrow> fst (admit now u s) \<Longrightarrow>
      tot s < gcap s \<and> (\<forall>m. acap s = Some m \<longrightarrow> cnt s u < m) \<and>
      tot (snd (admit now u s)) = Suc (tot s) \<and>
      cnt (snd (admit now u s)) = (cnt s)(u := Suc (cnt s u))"
    and release_counts: "invar s \<Longrightarrow> tot (release u s) \<le> tot s \<and>
      cnt (release u s) = (cnt s)(u := cnt s u - 1)"
    and sweep_counts: "invar s \<Longrightarrow> tot (sweep now ttl s) \<le> tot s \<and> cnt (sweep now ttl s) w \<le> cnt s w"
    and caps_kept: "gcap (snd (admit now u s)) = gcap s" "acap (snd (admit now u s)) = acap s"
      "gcap (release u s) = gcap s" "acap (release u s) = acap s"
      "gcap (sweep now ttl s) = gcap s" "acap (sweep now ttl s) = acap s"
begin

definition fits :: "'s \<Rightarrow> bool" where
  "fits s \<longleftrightarrow> invar s \<and> tot s \<le> gcap s \<and> (\<forall>m u. acap s = Some m \<longrightarrow> cnt s u \<le> m)"

lemma admit_fits: "fits s \<Longrightarrow> fits (snd (admit now u s))"
proof (cases "fst (admit now u s)")
  case True
  moreover assume "fits s"
  ultimately show ?thesis
    using admit_granted [of s now u] by (auto simp: fits_def caps_kept admit_invar)
qed (simp add: admit_refused)

lemma release_fits: "fits s \<Longrightarrow> fits (release u s)"
  using release_counts [of s u]
  by (auto simp: fits_def caps_kept release_invar intro: le_trans le_trans [OF diff_le_self])

lemma sweep_fits: "fits s \<Longrightarrow> fits (sweep now ttl s)"
  using sweep_counts [of s now ttl]
  by (auto simp: fits_def caps_kept sweep_invar intro: le_trans)

end

interpretation gate: session_gate try_admit on_logout "\<lambda>now ttl s. snd (reap now ttl s)"
  sessions total_sessions "\<lambda>s. unat (max_global s)" "\<lambda>s. map_option unat (max_per_account s)" tracker_inv
proof unfold_locales
  fix s now u ttl w
  assume inv: "tracker_inv s"
  have room: "total_sessions s < 2 ^ 32 - 1" if "\<not> at_capacity u s" for u
    using that unsigned_less [of "max_global s", where 'a = nat]
    by (simp add: at_capacity_iff [OF inv])
  show "tracker_inv (snd (try_admit now u s))"
    using inv room on_login_inv(1) by (simp add: try_admit_eq)
  show "tracker_inv (on_logout u s)" by (rule on_logout_inv(1) [OF inv])
  show "tracker_inv (snd (reap now ttl s))" by (rule reap_inv(1) [OF inv])
  show "total_sessions s < unat (max_global s) \<and>
      (\<forall>m. map_option unat (max_per_account s) = Some m \<longrightarrow> sessions s u < m) \<and>
      total_sessions (snd (try_admit now u s)) = Suc (total_sessions s) \<and>
      sessions (snd (try_admit now u s)) = (sessions s)(u := Suc (sessions s u))"
    if "fst (try_admit now u s)"
  proof -
    from that have "\<not> at_capacity u s" by (simp add: try_admit_eq split: if_splits)
    with on_login_inv(2,3) [OF inv room] at_capacity_iff [OF inv, of u] show ?thesis
      by (auto simp: try_admit_eq not_le)
  qed
  show "total_sessions (on_logout u s) \<le> total_sessions s \<and>
      sessions (on_logout u s) = (sessions s)(u := sessions s u - 1)"
    using on_logout_inv(2,3) [OF inv, of u] by (auto simp: sessions_def fun_eq_iff)
  show "total_sessions (snd (reap now ttl s)) \<le> total_sessions s \<and> sessions (snd (reap now ttl s)) w \<le> sessions s w"
    using reap_inv(2) [OF inv, of now ttl w] reap_inv(3) [OF inv, of now ttl]
    by (simp add: sessions_def)
qed (auto simp: try_admit_eq on_login_def push_session_def on_logout_def reap_def Let_def
    split: option.splits prod.splits)

lemma fits_within_caps: "gate.fits s \<longleftrightarrow> tracker_inv s \<and> within_caps s"
  by (auto simp: gate.fits_def within_caps_def)

interpretation capped_run: run_system tracker_step keeps_limits "\<lambda>s. tracker_inv s \<and> within_caps s"
proof
  fix s e
  assume "tracker_inv s \<and> within_caps s" and "keeps_limits e"
  then show "tracker_inv (tracker_step e s) \<and> within_caps (tracker_step e s)"
    using gate.admit_fits gate.release_fits gate.sweep_fits
    unfolding fits_within_caps [symmetric]
    by (cases e) (auto simp: receive_presence_event_def split: presence_event.splits)
qed

interpretation exact_run: run_system tracker_step "\<lambda>_. True" tracker_inv
proof
  fix s e
  assume "tracker_inv s"
  then show "tracker_inv (tracker_step e s)"
    using gate.admit_invar gate.release_invar gate.sweep_invar
    by (cases e) (auto simp: receive_presence_event_def set_limits_def tracker_inv_def total_sessions_def
        split: presence_event.splits)
qed

lemma tracker_new_inv: "tracker_inv (tracker_new mg mpa)" "within_caps (tracker_new mg mpa)"
  by (simp_all add: tracker_inv_def within_caps_def tracker_new_def total_sessions_def sessions_def)

section \<open>The sessions that are really open\<close>

text \<open>
  The tracker sees account names only.  \<open>gate_state\<close> adds the sessions that are really open,
  each with its admission time: a login opens one when the tracker admits it, a clean close ends
  a particular one, and the reaper task of \<^verbatim>\<open>server::run\<close> closes nothing.
\<close>

record gate_state =
  tracker :: session_state
  live :: "(string \<times> nat) list"

datatype gate_event =
  Login nat string
| Logout string nat
| ReapTick nat

definition session_ttl :: nat where
  "session_ttl = unat SESSION_TTL_SECS * 10 ^ 9"

fun gate_step :: "gate_event \<Rightarrow> gate_state \<Rightarrow> gate_state" where
  "gate_step (Login now u) g =
     (let (ok, t) = try_admit now u (tracker g)
      in g\<lparr>tracker := t, live := (if ok then live g @ [(u, now)] else live g)\<rparr>)"
| "gate_step (Logout u t) g =
     (if (u, t) \<in> set (live g)
      then g\<lparr>tracker := receive_presence_event LoggedOut u (tracker g),
             live := remove1 (u, t) (live g)\<rparr>
      else g)"
| "gate_step (ReapTick now) g = g\<lparr>tracker := snd (reap now session_ttl (tracker g))\<rparr>"

definition live_of :: "gate_state \<Rightarrow> string \<Rightarrow> nat" where
  "live_of g u = length (filter (\<lambda>(w, t). w = u) (live g))"

definition gate_new :: "u32 \<Rightarrow> u32 option \<Rightarrow> gate_state" where
  "gate_new mg mpa = \<lparr>tracker = tracker_new mg mpa, live = []\<rparr>"

fun no_reap :: "gate_event \<Rightarrow> bool" where
  "no_reap (ReapTick _) = False"
| "no_reap _ = True"

definition counts_live :: "u32 \<Rightarrow> u32 option \<Rightarrow> gate_state \<Rightarrow> bool" where
  "counts_live mg mpa g \<longleftrightarrow> tracker_inv (tracker g) \<and> within_caps (tracker g) \<and>
     max_global (tracker g) = mg \<and> max_per_account (tracker g) = mpa \<and>
     sessions (tracker g) = live_of g \<and> total_sessions (tracker g) = length (live g)"

lemma live_of_snoc: "live_of (g\<lparr>tracker := t, live := l @ [(u, now)]\<rparr>) =
    (\<lambda>w. length (filter (\<lambda>(w', t). w' = w) l) + (if w = u then 1 else 0))"
  by (auto simp: live_of_def)

lemma length_filter_remove1:
  "x \<in> set l \<Longrightarrow> length (filter P (remove1 x l)) = length (filter P l) - (if P x then 1 else 0)"
proof (induction l)
  case (Cons a l)
  show ?case
  proof (cases "a = x")
    case False
    with Cons have "x \<in> set l" by auto
    then have "P x \<Longrightarrow> 0 < length (filter P l)" by (auto simp: filter_empty_conv)
    with Cons \<open>x \<in> set l\<close> False show ?thesis by auto
  qed simp
qed simp

interpretation live_run: run_system gate_step no_reap "counts_live mg mpa"
proof
  fix g e
  assume g: "counts_live mg mpa g" and e: "no_reap e"
  let ?t = "tracker g"
  from g have inv: "tracker_inv ?t" and fits: "gate.fits ?t"
    by (simp_all add: counts_live_def fits_within_caps)
  show "counts_live mg mpa (gate_step e g)"
  proof (cases e)
    case (Login now u)
    note fits' = gate.admit_fits [OF fits, of now u, unfolded fits_within_caps]
    note caps = gate.caps_kept(1,2) [of now u ?t]
    have lim: "max_global (snd (try_admit now u ?t)) = max_global ?t"
      "max_per_account (snd (try_admit now u ?t)) = max_per_account ?t"
      by (simp_all add: try_admit_eq on_login_def push_session_def Let_def)
    show ?thesis
    proof (cases "fst (try_admit now u ?t)")
      case True
      with gate.admit_granted [OF inv True] g Login fits' lim show ?thesis
        by (auto simp: counts_live_def live_of_def fun_eq_iff split: prod.splits)
    next
      case False
      with gate.admit_refused [OF False] g Login show ?thesis
        by (auto simp: counts_live_def live_of_def split: prod.splits)
    qed
  next
    case (Logout u t)
    show ?thesis
    proof (cases "(u, t) \<in> set (live g)")
      case True
      then have "live_of g u \<noteq> 0" by (auto simp: live_of_def filter_empty_conv)
      with g have "sessions ?t u \<noteq> 0" by (simp add: counts_live_def)
      moreover have "max_global (on_logout u ?t) = max_global ?t"
        "max_per_account (on_logout u ?t) = max_per_account ?t"
        by (simp_all add: on_logout_cases [OF inv])
      ultimately show ?thesis
        using g True Logout gate.release_fits [OF fits, of u, unfolded fits_within_caps]
          gate.release_counts [OF inv, of u] on_logout_inv(3) [OF inv, of u]
        by (auto simp: counts_live_def receive_presence_event_def live_of_def fun_eq_iff
            length_filter_remove1 length_remove1)
    qed (use g Logout in simp)
  qed (use e in auto)
qed

lemma gate_new_counts: "counts_live mg mpa (gate_new mg mpa)"
  using tracker_new_inv [of mg mpa]
  by (simp add: counts_live_def gate_new_def live_of_def sessions_def total_sessions_def
      tracker_new_def fun_eq_iff)

section \<open>Properties\<close>

lemma run_keeps_limits:
  "list_all keeps_limits calls \<Longrightarrow>
     max_global (fold tracker_step calls s) = max_global s \<and>
     max_per_account (fold tracker_step calls s) = max_per_account s"
proof (induction calls arbitrary: s)
  case (Cons c calls)
  then show ?case
    by (cases c) (auto simp: try_admit_eq on_login_def push_session_def receive_presence_event_def
        on_logout_def reap_def Let_def split: presence_event.splits prod.splits option.splits)
qed simp

lemma reachable_inv: "tracker_inv (fold tracker_step calls (tracker_new mg mpa))"
  by (rule exact_run.run_invar) (simp_all add: tracker_new_inv list_all_iff)

text \<open>
  (C37) The connection caps hold: however logins, presence events and reaper sweeps are
  interleaved from start-up on, the \<^verbatim>\<open>global\<close> counter is exactly the number of slots in use,
  that number never exceeds \<^verbatim>\<open>max_connections\<close>, and no account ever holds more slots than
  \<^verbatim>\<open>max_connections_per_account\<close>.
\<close>

theorem caps_never_exceeded:
  assumes "list_all keeps_limits calls"
    and "s = fold tracker_step calls (tracker_new mg mpa)"
  shows "unat (global s) = total_sessions s \<and> total_sessions s \<le> unat mg \<and>
    (\<forall>m u. mpa = Some m \<longrightarrow> sessions s u \<le> unat m)"
proof -
  have "tracker_inv s \<and> within_caps s"
    unfolding assms(2) by (rule capped_run.run_invar [OF _ assms(1)]) (simp add: tracker_new_inv)
  with run_keeps_limits [OF assms(1), of "tracker_new mg mpa"] show ?thesis
    by (auto simp: assms(2) tracker_inv_def within_caps_def tracker_new_def)
qed

definition demo_calls :: "tracker_call list" where
  "demo_calls = [Admit 1 ''cam'', Admit 2 ''cam'', Presence LoggedIn ''cam'', Admit 3 ''door'',
     Presence LoggedOut ''cam'', Reap 900 500]"

theorem caps_never_exceeded_witness:
  "list_all keeps_limits demo_calls \<and>
   total_sessions (fold tracker_step demo_calls (tracker_new 2 (Some 1))) \<le> 2 \<and>
   sessions (fold tracker_step (take 4 demo_calls) (tracker_new 2 (Some 1))) ''cam'' = 1"
proof -
  have ok: "list_all keeps_limits demo_calls" by (simp add: demo_calls_def)
  have "sessions (fold tracker_step (take 4 demo_calls) (tracker_new 2 (Some 1))) ''cam'' = 1"
    by (simp add: demo_calls_def sess_simps sessions_def saturating_add_def word_le_nat_alt)
  with caps_never_exceeded [OF ok refl, of 2 "Some 1"] ok show ?thesis by auto
qed

text \<open>
  In every state the tracker can reach, live reloads of the caps included, a login is
  admitted exactly when the number of slots in use is below the global cap and the account's
  number is below the per-account cap; an admitted login takes exactly one slot, of its own
  account, and a refused one changes nothing.
\<close>

theorem try_admit_decision:
  "let s = fold tracker_step calls (tracker_new mg mpa); (ok, s') = try_admit now u s
   in (ok \<longleftrightarrow> total_sessions s < unat (max_global s) \<and>
         (case max_per_account s of None \<Rightarrow> True | Some m \<Rightarrow> sessions s u < unat m)) \<and>
      (if ok then total_sessions s' = total_sessions s + 1 \<and>
                  sessions s' = (sessions s)(u := sessions s u + 1)
       else s' = s)"
proof -
  define s where "s = fold tracker_step calls (tracker_new mg mpa)"
  have inv: "tracker_inv s" unfolding s_def by (rule reachable_inv)
  have "fst (try_admit now u s) \<longleftrightarrow> total_sessions s < unat (max_global s) \<and>
      (case max_per_account s of None \<Rightarrow> True | Some m \<Rightarrow> sessions s u < unat m)"
    by (auto simp: try_admit_eq at_capacity_iff [OF inv] not_le split: option.splits)
  with gate.admit_granted [OF inv, of now u] gate.admit_refused [of now u s] show ?thesis
    unfolding s_def [symmetric] by (auto simp: Let_def split: prod.splits option.splits)
qed

text \<open>
  The atomic \<^verbatim>\<open>try_admit\<close> makes exactly the decision of \<^verbatim>\<open>at_capacity\<close> and, when it
  admits, exactly the update of \<^verbatim>\<open>on_login\<close>: it is the check-then-increment pair without the
  window between the two.
\<close>

theorem try_admit_is_check_then_login:
  "try_admit now u s = (if at_capacity u s then (False, s) else (True, on_login now u s))"
  by (rule try_admit_eq)

text \<open>
  A reaper sweep removes exactly the slots that are at least \<open>ttl\<close> old, of every account,
  keeps the order of the others, and returns the number it removed without wrap-around.
\<close>

theorem reap_removes_exactly_the_stale:
  "let s = fold tracker_step calls (tracker_new mg mpa); (n, s') = reap now ttl s
   in slots (per_account s') u = filter (\<lambda>t. now - t < ttl) (slots (per_account s) u) \<and>
      total_sessions s = total_sessions s' + unat n \<and>
      unat (global s') = total_sessions s'"
proof -
  define s where "s = fold tracker_step calls (tracker_new mg mpa)"
  have inv: "tracker_inv s" unfolding s_def by (rule reachable_inv)
  show ?thesis
    unfolding s_def [symmetric]
    using reap_inv(1) [OF inv, of now ttl] reap_inv(2) [OF inv, of now ttl u]
      reap_inv(3) [OF inv, of now ttl]
    by (auto simp: tracker_inv_def split: prod.splits)
qed

text \<open>
  (C39) The caps cannot wedge shut: whatever happened before, once every slot in use is older
  than \<open>ttl\<close> (its connection died without a logout), one sweep makes the next login of any
  account succeed, as long as the caps are not zero.
\<close>

theorem reap_reopens_the_gate:
  assumes "s = fold tracker_step calls (tracker_new mg mpa)"
    and "\<And>u t. t \<in> set (slots (per_account s) u) \<Longrightarrow> ttl \<le> now - t"
    and "max_global s \<noteq> 0" and "max_per_account s \<noteq> Some 0"
  shows "fst (try_admit later u (snd (reap now ttl s)))"
proof -
  let ?s' = "snd (reap now ttl s)"
  have inv: "tracker_inv s" unfolding assms(1) by (rule reachable_inv)
  have empty: "slots (per_account ?s') w = []" for w
    using assms(2) [of _ w] by (auto simp: reap_inv(2) [OF inv] filter_empty_conv not_less)
  have "per_account ?s' = []"
  proof (rule ccontr)
    assume "per_account ?s' \<noteq> []"
    then obtain w v m where "per_account ?s' = (w, v) # m" by (cases "per_account ?s'") auto
    with empty [of w] reap_inv(1) [OF inv, of now ttl] show False
      by (auto simp: tracker_inv_def)
  qed
  then have "total_sessions ?s' = 0" and "sessions ?s' u = 0"
    by (simp_all add: total_sessions_def sessions_def)
  moreover have "max_global ?s' = max_global s" "max_per_account ?s' = max_per_account s"
    by (auto simp: reap_def split: prod.splits)
  ultimately have "\<not> at_capacity u ?s'"
    using assms(3,4) at_capacity_iff [OF reap_inv(1) [OF inv, of now ttl], of u]
    by (auto simp: unat_eq_0)
  then show ?thesis by (simp add: try_admit_eq)
qed

theorem reap_reopens_the_gate_witness:
  "\<not> fst (try_admit 20 ''cam'' (fold tracker_step [Admit 1 ''cam''] (tracker_new 9 (Some 1)))) \<and>
   fst (try_admit 20 ''cam''
     (snd (reap 20 10 (fold tracker_step [Admit 1 ''cam''] (tracker_new 9 (Some 1))))))"
proof -
  let ?s = "fold tracker_step [Admit 1 ''cam''] (tracker_new 9 (Some 1))"
  have "fst (try_admit 20 ''cam'' (snd (reap 20 10 ?s)))"
    by (rule reap_reopens_the_gate [OF refl])
      (auto simp: sess_simps slots_def split: if_splits)
  moreover have "\<not> fst (try_admit 20 ''cam'' ?s)" by (simp add: sess_simps)
  ultimately show ?thesis by simp
qed


definition demo_logins :: "gate_event list" where
  "demo_logins = [Login 1 ''cam'', Login 2 ''cam'', Login 3 ''door'', Logout ''door'' 3]"


definition stale_logout_run :: "gate_event list" where
  "stale_logout_run =
     [Login 0 ''cam'', ReapTick (301 * 10 ^ 9), Login (302 * 10 ^ 9) ''cam'',
      Logout ''cam'' 0, Login (303 * 10 ^ 9) ''cam'']"


end
