(* ===== verification/Rust_Path.thy ===== *)
theory Rust_Path
  imports Prelude
begin

text \<open>
  \<^verbatim>\<open>std::path\<close> on Unix.  A \<^verbatim>\<open>Path\<close> is modelled by its sequence of components: equality,
  \<^verbatim>\<open>starts_with\<close>, \<^verbatim>\<open>join\<close>, \<^verbatim>\<open>file_name\<close>, \<^verbatim>\<open>parent\<close> and \<^verbatim>\<open>pop\<close> are specified by the
  standard library on components, and repeated or trailing slashes and inner \<open>.\<close> segments do
  not matter to them.  \<open>path_new\<close> is the parse of a string into components.
\<close>

datatype component =
  Prefix string
| RootDir
| CurDir
| ParentDir
| Normal string

type_synonym path = "component list"

definition seg_component :: "string \<Rightarrow> component" where
  "seg_component s = (if s = ''.'' then CurDir else if s = ''..'' then ParentDir else Normal s)"

text \<open>
  \<^verbatim>\<open>Path::new(s).components()\<close>: a leading slash is the root, empty segments vanish, and \<open>.\<close>
  is kept only as the first segment of a relative path.  (\<^verbatim>\<open>Prefix\<close> occurs on Windows only.)
\<close>

definition path_new :: "string \<Rightarrow> path" where
  "path_new s =
     (case str_split (CHR ''/'') s of
        [] \<Rightarrow> []
      | x # xs \<Rightarrow>
          (if x = [] then (if xs = [] then [] else [RootDir]) else [seg_component x]) @
          map seg_component (filter (\<lambda>y. y \<noteq> [] \<and> y \<noteq> ''.'') xs))"

definition path_join :: "path \<Rightarrow> path \<Rightarrow> path" where
  "path_join p q =
     (case q of
        RootDir # _ \<Rightarrow> q
      | CurDir # r \<Rightarrow> if p = [] then q else p @ r
      | _ \<Rightarrow> p @ q)"

definition path_file_name :: "path \<Rightarrow> string option" where
  "path_file_name p = (if p = [] then None else case last p of Normal s \<Rightarrow> Some s | _ \<Rightarrow> None)"

definition path_parent :: "path \<Rightarrow> path option" where
  "path_parent p =
     (if p = [] then None
      else case last p of
        Normal _ \<Rightarrow> Some (butlast p) | CurDir \<Rightarrow> Some (butlast p) | ParentDir \<Rightarrow> Some (butlast p)
      | _ \<Rightarrow> None)"

text \<open>\<^verbatim>\<open>PathBuf::pop\<close> truncates to the parent if there is one.\<close>

definition path_pop :: "path \<Rightarrow> path" where
  "path_pop p = (case path_parent p of None \<Rightarrow> p | Some q \<Rightarrow> q)"

definition path_starts_with :: "path \<Rightarrow> path \<Rightarrow> bool" where
  "path_starts_with p base = prefix base p"

text \<open>\<^verbatim>\<open>PathBuf::from(name)\<close> for a file name, and \<^verbatim>\<open>Path::with_file_name\<close>.\<close>

definition path_with_file_name :: "path \<Rightarrow> string \<Rightarrow> path" where
  "path_with_file_name p name =
     (case path_file_name p of
        None \<Rightarrow> path_join p (path_new name)
      | Some _ \<Rightarrow> path_join (butlast p) (path_new name))"

text \<open>
  \<^verbatim>\<open>let mut s = path.as_os_str().to_owned(); s.push(suffix); PathBuf::from(s)\<close>, for a suffix
  that is not empty and has no slash.
\<close>

definition path_push_os :: "path \<Rightarrow> string \<Rightarrow> path" where
  "path_push_os p suf =
     (if p = [] then path_new suf
      else case last p of
        Normal x \<Rightarrow> butlast p @ [Normal (x @ suf)]
      | CurDir \<Rightarrow> butlast p @ [seg_component (''.'' @ suf)]
      | ParentDir \<Rightarrow> butlast p @ [seg_component (''..'' @ suf)]
      | _ \<Rightarrow> p @ [seg_component suf])"

text \<open>A plain name is a string that names one directory entry.\<close>

definition plain_name :: "string \<Rightarrow> bool" where
  "plain_name s \<longleftrightarrow> s \<noteq> [] \<and> s \<noteq> ''.'' \<and> s \<noteq> ''..'' \<and> CHR ''/'' \<notin> set s"

lemma plain_name_lossy [path_simps]: "plain_name (to_string_lossy s) \<longleftrightarrow> plain_name s"
  using lossy_ascii_iff [of "[]" s] lossy_ascii_iff [of "''.''" s] lossy_ascii_iff [of "''..''" s]
    set_lossy_ascii [of "CHR ''/''" s] by (simp add: plain_name_def)

lemma plain_name_component [path_simps]: "plain_name s \<Longrightarrow> seg_component s = Normal s"
  by (auto simp: plain_name_def seg_component_def)

lemma path_new_plain [path_simps]: "plain_name s \<Longrightarrow> path_new s = [Normal s]"
  by (auto simp: path_new_def plain_name_def str_split_id seg_component_def)

lemma path_new_Normal: "Normal s \<in> set (path_new v) \<Longrightarrow> plain_name s"
proof -
  obtain x xs where v: "str_split (CHR ''/'') v = x # xs"
    by (cases "str_split (CHR ''/'') v") simp_all
  assume "Normal s \<in> set (path_new v)"
  with v have "s \<in> set (str_split (CHR ''/'') v)" and "s \<noteq> []" "s \<noteq> ''.''" "s \<noteq> ''..''"
    by (auto simp: path_new_def seg_component_def split: if_splits)
  then show ?thesis by (auto simp: plain_name_def dest: str_split_no_sep)
qed

lemma path_new_no_prefix: "Prefix s \<notin> set (path_new v)"
  by (auto simp: path_new_def seg_component_def split: list.splits if_splits)

lemma path_join_Normal [path_simps]: "path_join p [Normal x] = p @ [Normal x]"
  by (simp add: path_join_def)

lemma path_parent_snoc [path_simps]: "path_parent (p @ [Normal x]) = Some p"
  by (simp add: path_parent_def)

lemma path_file_name_snoc [path_simps]: "path_file_name (p @ [Normal x]) = Some x"
  by (simp add: path_file_name_def)

lemma path_push_os_snoc [path_simps]: "path_push_os (p @ [Normal x]) suf = p @ [Normal (x @ suf)]"
  by (simp add: path_push_os_def)

lemma path_pop_snoc [path_simps]: "path_pop (p @ [Normal x]) = p"
  by (simp add: path_pop_def path_parent_snoc)

lemma path_file_name_Some: "path_file_name p = Some x \<longleftrightarrow> p \<noteq> [] \<and> last p = Normal x"
  by (auto simp: path_file_name_def split: component.splits)

lemma length_path_parent: "path_parent p = Some q \<Longrightarrow> length q < length p"
  by (auto simp: path_parent_def split: if_splits component.splits)

end
