(* ===== verification/Append.thy ===== *)
theory Append
  imports Rust_Path
begin

text \<open>
  \<^verbatim>\<open>src/append.rs\<close>: the pure rules of append-only storage.  Offsets and sizes are \<^verbatim>\<open>u64\<close> in
  the source and natural numbers here; they are compared, never added.
\<close>

definition STAGING_SUFFIX :: string where
  "STAGING_SUFFIX = ''.reoftpd-partial''"

definition QUARANTINE_DIR :: string where
  "QUARANTINE_DIR = ''.quarantine''"

datatype offset_verdict = OffOk | Overlap | Gap

definition classify_offset :: "nat \<Rightarrow> nat \<Rightarrow> offset_verdict" where
  "classify_offset start_pos existing_size =
     (if start_pos = existing_size then OffOk
      else if start_pos < existing_size then Overlap else Gap)"

definition staging_path :: "path \<Rightarrow> path" where
  "staging_path final_path = path_push_os final_path STAGING_SUFFIX"

definition is_reolink_test_file :: "string \<Rightarrow> bool" where
  "is_reolink_test_file name =
     (let lower = to_ascii_lowercase name
      in lower = ''test'' \<or> str_starts_with lower ''test.'' \<or> str_starts_with lower ''testftp'')"

lemma STAGING_SUFFIX_neq_Nil [simp]: "STAGING_SUFFIX \<noteq> []"
  by (simp add: STAGING_SUFFIX_def)

lemma staging_path_snoc [path_simps]:
  "staging_path (p @ [Normal x]) = p @ [Normal (x @ STAGING_SUFFIX)]"
  by (simp add: staging_path_def path_push_os_snoc)

lemma ascii_lower_suffix: "to_ascii_lowercase STAGING_SUFFIX = STAGING_SUFFIX"
  by (simp add: STAGING_SUFFIX_def to_ascii_lowercase_def ascii_lower_def)

text \<open>A staging name is a probe name only when the name it stages is one.\<close>

lemma test_file_staging:
  "is_reolink_test_file (x @ STAGING_SUFFIX) \<Longrightarrow> is_reolink_test_file x"
proof -
  let ?l = "to_ascii_lowercase x"
  assume "is_reolink_test_file (x @ STAGING_SUFFIX)"
  then have *: "?l @ STAGING_SUFFIX = ''test'' \<or> prefix ''test.'' (?l @ STAGING_SUFFIX) \<or>
      prefix ''testftp'' (?l @ STAGING_SUFFIX)"
    by (simp add: is_reolink_test_file_def Let_def ascii_lower_suffix str_starts_with_def)
  consider "?l = []" | a where "?l = [a]" | a b where "?l = [a, b]" | a b c where "?l = [a, b, c]"
    | a b c d where "?l = [a, b, c, d]" | a b c d e where "?l = [a, b, c, d, e]"
    | a b c d e f where "?l = [a, b, c, d, e, f]"
    | a b c d e f g r where "?l = a # b # c # d # e # f # g # r"
    by (metis neq_Nil_conv)
  then show ?thesis
    using * by cases
      (auto simp: STAGING_SUFFIX_def is_reolink_test_file_def Let_def str_starts_with_def)
qed

end
