(* ===== verification/Posix_FS.thy ===== *)
theory Posix_FS
  imports Rust_Path "HOL-Library.AList"
begin

text \<open>
  The file system under \<^verbatim>\<open>std::fs\<close> and \<^verbatim>\<open>tokio::fs\<close>, with what the program can observe of it:
  directories, regular files with hard links (a directory entry names an inode, the inode holds
  the bytes), symbolic links, path resolution with the kernel's limit on link traversals, and the
  system calls behind the library functions the sources call.

  A location is the list of names from the root to an entry.  Every system call can fail for
  reasons outside the model (disk full, I/O error): \<open>faults\<close> is the schedule of such failures,
  one slot per call, and a theorem that does not restrict it holds for every schedule.  They are
  reported with the kind \<open>EOther\<close>, never as one of the kinds that describe the state of the tree.
  Permissions are not modelled (the daemon owns the archive).  Inodes without a name are kept;
  nothing can reach them but an open descriptor.  Time stamps and lengths of directories are the
  arbitrary fields \<open>dir_time\<close> and \<open>dir_len\<close>.  \<open>draws\<close> counts what was taken from the system's
  source of random numbers.
\<close>

datatype io_kind =
  ENotFound
| EAlreadyExists
| ENotADirectory
| EIsADirectory
| EDirectoryNotEmpty
| ELoop
| EPermission
| EInvalidData
| EOther string

text \<open>\<^verbatim>\<open>io::Error\<close> as text: the system's message for its error number.\<close>

fun io_display :: "io_kind \<Rightarrow> string" where
  "io_display ENotFound = ''No such file or directory (os error 2)''"
| "io_display EAlreadyExists = ''File exists (os error 17)''"
| "io_display ENotADirectory = ''Not a directory (os error 20)''"
| "io_display EIsADirectory = ''Is a directory (os error 21)''"
| "io_display EDirectoryNotEmpty = ''Directory not empty (os error 39)''"
| "io_display ELoop = ''Too many levels of symbolic links (os error 40)''"
| "io_display EPermission = ''Operation not permitted (os error 1)''"
| "io_display EInvalidData = ''invalid data''"
| "io_display (EOther s) = s"

datatype dent =
  DDir
| DFile nat
| DSym string

record inode =
  ibytes :: bytes
  imtime :: nat

type_synonym loc = "string list"

record fs =
  ents :: "(loc \<times> dent) list"
  inodes :: "nat \<rightharpoonup> inode"
  next_ino :: nat
  cwd :: loc
  clock :: nat
  dir_time :: "loc \<Rightarrow> nat"
  dir_len :: "loc \<Rightarrow> nat"
  owner :: "u32 \<times> u32"
  faults :: "string option list"
  draws :: nat

record file_meta =
  m_is_dir :: bool
  m_is_file :: bool
  m_is_symlink :: bool
  m_len :: nat
  m_modified :: nat
  m_uid :: u32
  m_gid :: u32

type_synonym 'a io = "fs \<Rightarrow> (io_kind + 'a) \<times> fs"

section \<open>Entries and inodes\<close>

definition dent_at :: "fs \<Rightarrow> loc \<Rightarrow> dent option" where
  "dent_at fs l = (if l = [] then Some DDir else map_of (ents fs) l)"

definition put_ent :: "loc \<Rightarrow> dent \<Rightarrow> fs \<Rightarrow> fs" where
  "put_ent l d fs = fs\<lparr>ents := AList.update l d (ents fs)\<rparr>"

definition del_ent :: "loc \<Rightarrow> fs \<Rightarrow> fs" where
  "del_ent l fs = fs\<lparr>ents := AList.delete l (ents fs)\<rparr>"

definition put_inode :: "nat \<Rightarrow> bytes \<Rightarrow> fs \<Rightarrow> fs" where
  "put_inode i bs fs = fs\<lparr>inodes := (inodes fs)(i \<mapsto> \<lparr>ibytes = bs, imtime = clock fs\<rparr>)\<rparr>"

definition bytes_of :: "fs \<Rightarrow> nat \<Rightarrow> bytes" where
  "bytes_of fs i = (case inodes fs i of None \<Rightarrow> [] | Some n \<Rightarrow> ibytes n)"

definition mtime_of :: "fs \<Rightarrow> nat \<Rightarrow> nat" where
  "mtime_of fs i = (case inodes fs i of None \<Rightarrow> 0 | Some n \<Rightarrow> imtime n)"

definition new_file :: "loc \<Rightarrow> fs \<Rightarrow> fs" where
  "new_file l fs =
     (let i = next_ino fs in (put_ent l (DFile i) (put_inode i [] fs))\<lparr>next_ino := Suc i\<rparr>)"

definition children :: "fs \<Rightarrow> loc \<Rightarrow> string list" where
  "children fs l = map last (filter (\<lambda>k. k \<noteq> [] \<and> butlast k = l) (map fst (ents fs)))"

section \<open>Path resolution\<close>

text \<open>
  \<open>walk E n cur cs\<close> resolves the components \<open>cs\<close> from the directory \<open>cur\<close>, following every
  symbolic link and giving up after \<open>n\<close> of them.  The result is the location reached and
  whether something is there: a missing last component is reported with the location where it
  would be created.
\<close>

function walk :: "(loc \<Rightarrow> dent option) \<Rightarrow> nat \<Rightarrow> loc \<Rightarrow> path \<Rightarrow> io_kind + loc \<times> bool" where
  "walk E n cur [] = Inr (cur, True)"
| "walk E n cur (Prefix s # cs) = Inl ENotFound"
| "walk E n cur (RootDir # cs) = walk E n [] cs"
| "walk E n cur (CurDir # cs) = walk E n cur cs"
| "walk E n cur (ParentDir # cs) = walk E n (butlast cur) cs"
| "walk E n cur (Normal x # cs) =
     (case E (cur @ [x]) of
        None \<Rightarrow> if cs = [] then Inr (cur @ [x], False) else Inl ENotFound
      | Some DDir \<Rightarrow> walk E n (cur @ [x]) cs
      | Some (DFile i) \<Rightarrow> if cs = [] then Inr (cur @ [x], True) else Inl ENotADirectory
      | Some (DSym t) \<Rightarrow>
          (case n of 0 \<Rightarrow> Inl ELoop | Suc m \<Rightarrow> walk E m cur (path_new t @ cs)))"
  by pat_completeness auto
termination
  by (relation "measures [\<lambda>(E, n, cur, cs). n, \<lambda>(E, n, cur, cs). length cs]") auto

text \<open>Linux follows at most 40 links in one resolution.\<close>

definition MAXSYMLINKS :: nat where
  "MAXSYMLINKS = 40"

definition locate :: "fs \<Rightarrow> path \<Rightarrow> io_kind + loc \<times> bool" where
  "locate fs p = walk (dent_at fs) MAXSYMLINKS (cwd fs) p"

text \<open>The existing object a path leads to, links followed.\<close>

definition lookup :: "fs \<Rightarrow> path \<Rightarrow> io_kind + loc \<times> dent" where
  "lookup fs p =
     (case locate fs p of
        Inl e \<Rightarrow> Inl e
      | Inr (l, ex) \<Rightarrow>
          if ex then (case dent_at fs l of None \<Rightarrow> Inl ENotFound | Some d \<Rightarrow> Inr (l, d))
          else Inl ENotFound)"

text \<open>
  The directory entry a path names, the last component not followed: the calls that create or
  remove an entry work on it.
\<close>

definition entry_of :: "fs \<Rightarrow> path \<Rightarrow> io_kind + loc" where
  "entry_of fs p =
     (case path_file_name p of
        None \<Rightarrow> Inl EIsADirectory
      | Some x \<Rightarrow>
          (case lookup fs (butlast p) of
             Inl e \<Rightarrow> Inl e
           | Inr (l, d) \<Rightarrow> if d = DDir then Inr (l @ [x]) else Inl ENotADirectory))"

definition abs_path :: "loc \<Rightarrow> path" where
  "abs_path l = RootDir # map Normal l"

section \<open>System calls\<close>

definition syscall :: "'a io \<Rightarrow> 'a io" where
  "syscall op fs =
     (case faults fs of
        [] \<Rightarrow> op fs
      | f # r \<Rightarrow>
          (case f of
             None \<Rightarrow> op (fs\<lparr>faults := r\<rparr>)
           | Some e \<Rightarrow> (Inl (EOther e), fs\<lparr>faults := r\<rparr>)))"

text \<open>One draw from the system's source of random numbers.\<close>

definition random_draw :: "fs \<Rightarrow> nat \<times> fs" where
  "random_draw fs = (draws fs, fs\<lparr>draws := Suc (draws fs)\<rparr>)"

text \<open>\<^verbatim>\<open>Path::canonicalize\<close>.  It is a query; its failures are those of the resolution.\<close>

definition canonicalize :: "fs \<Rightarrow> path \<Rightarrow> io_kind + path" where
  "canonicalize fs p =
     (case lookup fs p of Inl e \<Rightarrow> Inl e | Inr (l, d) \<Rightarrow> Inr (abs_path l))"

definition meta_of :: "fs \<Rightarrow> loc \<Rightarrow> dent \<Rightarrow> file_meta" where
  "meta_of fs l d =
     \<lparr>m_is_dir = (d = DDir),
      m_is_file = (case d of DFile _ \<Rightarrow> True | _ \<Rightarrow> False),
      m_is_symlink = (case d of DSym _ \<Rightarrow> True | _ \<Rightarrow> False),
      m_len = (case d of DFile i \<Rightarrow> length (bytes_of fs i) | DSym t \<Rightarrow> length t | DDir \<Rightarrow> dir_len fs l),
      m_modified = (case d of DFile i \<Rightarrow> mtime_of fs i | _ \<Rightarrow> dir_time fs l),
      m_uid = fst (owner fs), m_gid = snd (owner fs)\<rparr>"

definition fs_metadata :: "path \<Rightarrow> file_meta io" where
  "fs_metadata p = syscall (\<lambda>fs.
     (case lookup fs p of Inl e \<Rightarrow> Inl e | Inr (l, d) \<Rightarrow> Inr (meta_of fs l d), fs))"

text \<open>\<^verbatim>\<open>try_exists\<close>: the error \<^verbatim>\<open>NotFound\<close> of \<^verbatim>\<open>metadata\<close> is the answer \<open>False\<close>.\<close>

definition fs_try_exists :: "path \<Rightarrow> bool io" where
  "fs_try_exists p fs =
     (case fs_metadata p fs of
        (Inr _, fs') \<Rightarrow> (Inr True, fs')
      | (Inl e, fs') \<Rightarrow> (if e = ENotFound then Inr False else Inl e, fs'))"

definition fs_remove_file :: "path \<Rightarrow> unit io" where
  "fs_remove_file p = syscall (\<lambda>fs.
     case entry_of fs p of
       Inl e \<Rightarrow> (Inl e, fs)
     | Inr l \<Rightarrow>
         (case dent_at fs l of
            None \<Rightarrow> (Inl ENotFound, fs)
          | Some DDir \<Rightarrow> (Inl EIsADirectory, fs)
          | Some _ \<Rightarrow> (Inr (), del_ent l fs)))"

definition fs_remove_dir :: "path \<Rightarrow> unit io" where
  "fs_remove_dir p = syscall (\<lambda>fs.
     case entry_of fs p of
       Inl e \<Rightarrow> (Inl e, fs)
     | Inr l \<Rightarrow>
         (case dent_at fs l of
            None \<Rightarrow> (Inl ENotFound, fs)
          | Some DDir \<Rightarrow>
              if children fs l = [] then (Inr (), del_ent l fs) else (Inl EDirectoryNotEmpty, fs)
          | Some _ \<Rightarrow> (Inl ENotADirectory, fs)))"

definition fs_mkdir :: "path \<Rightarrow> unit io" where
  "fs_mkdir p = syscall (\<lambda>fs.
     case path_file_name p of
       None \<Rightarrow> (case lookup fs p of Inl e \<Rightarrow> Inl e | Inr _ \<Rightarrow> Inl EAlreadyExists, fs)
     | Some _ \<Rightarrow>
         (case entry_of fs p of
            Inl e \<Rightarrow> (Inl e, fs)
          | Inr l \<Rightarrow>
              (case dent_at fs l of
                 None \<Rightarrow> (Inr (), put_ent l DDir fs)
               | Some _ \<Rightarrow> (Inl EAlreadyExists, fs))))"

text \<open>\<^verbatim>\<open>Path::is_dir\<close>: any error of \<^verbatim>\<open>metadata\<close> counts as no.\<close>

definition fs_is_dir :: "path \<Rightarrow> fs \<Rightarrow> bool \<times> fs" where
  "fs_is_dir p fs =
     (case fs_metadata p fs of (Inr m, fs') \<Rightarrow> (m_is_dir m, fs') | (Inl _, fs') \<Rightarrow> (False, fs'))"

text \<open>\<^verbatim>\<open>create_dir_all\<close>: the recursion of \<^verbatim>\<open>std::fs::DirBuilder\<close> over the parents.\<close>

definition mkdir_or_dir :: "path \<Rightarrow> unit io" where
  "mkdir_or_dir p fs =
     (case fs_mkdir p fs of
        (Inr _, fs) \<Rightarrow> (Inr (), fs)
      | (Inl e, fs) \<Rightarrow> (case fs_is_dir p fs of (d, fs) \<Rightarrow> (if d then Inr () else Inl e, fs)))"

function fs_create_dir_all :: "path \<Rightarrow> unit io" where
  "fs_create_dir_all p fs =
     (if p = [] then (Inr (), fs)
      else
        (case fs_mkdir p fs of
           (Inr _, fs) \<Rightarrow> (Inr (), fs)
         | (Inl e, fs) \<Rightarrow>
             if e = ENotFound then
               (case path_parent p of
                  None \<Rightarrow> (Inl (EOther ''failed to create whole tree''), fs)
                | Some q \<Rightarrow>
                    (case fs_create_dir_all q fs of
                       (Inl e, fs) \<Rightarrow> (Inl e, fs)
                     | (Inr _, fs) \<Rightarrow> mkdir_or_dir p fs))
             else (case fs_is_dir p fs of (d, fs) \<Rightarrow> (if d then Inr () else Inl e, fs))))"
  by pat_completeness auto
termination
  by (relation "measure (\<lambda>(p, fs). length p)") (auto dest: length_path_parent)

declare fs_create_dir_all.simps [simp del]

text \<open>
  Opening for writing with \<^verbatim>\<open>create(true)\<close>: an existing regular file is opened (and, with
  \<^verbatim>\<open>truncate(true)\<close>, emptied), a missing one is created, also at the target of a dangling
  symbolic link.  The result is the inode behind the descriptor.
\<close>

definition fs_open_write :: "bool \<Rightarrow> path \<Rightarrow> nat io" where
  "fs_open_write trunc p = syscall (\<lambda>fs.
     case locate fs p of
       Inl e \<Rightarrow> (Inl e, fs)
     | Inr (l, ex) \<Rightarrow>
         (case dent_at fs l of
            Some (DFile i) \<Rightarrow> (Inr i, if trunc then put_inode i [] fs else fs)
          | None \<Rightarrow> (Inr (next_ino fs), new_file l fs)
          | Some _ \<Rightarrow> (Inl EIsADirectory, fs)))"

text \<open>One write through an append-mode descriptor, and one at an offset.\<close>

definition fs_append :: "nat \<Rightarrow> bytes \<Rightarrow> unit io" where
  "fs_append i bs = syscall (\<lambda>fs. (Inr (), put_inode i (bytes_of fs i @ bs) fs))"

definition overwrite :: "nat \<Rightarrow> bytes \<Rightarrow> bytes \<Rightarrow> bytes" where
  "overwrite off bs old =
     take off (old @ replicate (off - length old) (CHR 0x00)) @ bs @ drop (off + length bs) old"

definition fs_write_at :: "nat \<Rightarrow> nat \<Rightarrow> bytes \<Rightarrow> unit io" where
  "fs_write_at i off bs =
     syscall (\<lambda>fs. (Inr (), put_inode i (overwrite off bs (bytes_of fs i)) fs))"

definition fs_flush :: "unit io" where
  "fs_flush = syscall (\<lambda>fs. (Inr (), fs))"

definition fs_hard_link :: "path \<Rightarrow> path \<Rightarrow> unit io" where
  "fs_hard_link src dst = syscall (\<lambda>fs.
     case entry_of fs src of
       Inl e \<Rightarrow> (Inl e, fs)
     | Inr ls \<Rightarrow>
         (case dent_at fs ls of
            None \<Rightarrow> (Inl ENotFound, fs)
          | Some d \<Rightarrow>
              (case entry_of fs dst of
                 Inl e \<Rightarrow> (Inl e, fs)
               | Inr ld \<Rightarrow>
                   if dent_at fs ld \<noteq> None then (Inl EAlreadyExists, fs)
                   else if d = DDir then (Inl EPermission, fs)
                   else (Inr (), put_ent ld d fs))))"

text \<open>What \<^verbatim>\<open>File::open\<close> returns: a descriptor of a file at an offset, or of a directory.\<close>

datatype opened =
  OFile nat nat
| ODir loc

definition fs_open_read :: "path \<Rightarrow> opened io" where
  "fs_open_read p = syscall (\<lambda>fs.
     (case lookup fs p of
        Inl e \<Rightarrow> Inl e
      | Inr (l, d) \<Rightarrow> Inr (case d of DFile i \<Rightarrow> OFile i 0 | _ \<Rightarrow> ODir l), fs))"

text \<open>
  \<^verbatim>\<open>seek(SeekFrom::Start(n))\<close>: the kernel's offset is signed, so the system refuses one from
  \<open>2 ^ 63\<close> on.
\<close>

definition fs_seek :: "u64 \<Rightarrow> opened \<Rightarrow> opened io" where
  "fs_seek n f = syscall (\<lambda>fs.
     (if unat n < 2 ^ 63 then Inr (case f of OFile i _ \<Rightarrow> OFile i (unat n) | ODir l \<Rightarrow> ODir l)
      else Inl (EOther ''Invalid argument (os error 22)''), fs))"

text \<open>The bytes a reader gets from such a descriptor.\<close>

definition read_all :: "fs \<Rightarrow> opened \<Rightarrow> io_kind + bytes" where
  "read_all fs f =
     (case f of OFile i n \<Rightarrow> Inr (drop n (bytes_of fs i)) | ODir _ \<Rightarrow> Inl EIsADirectory)"

definition fs_read_dir :: "path \<Rightarrow> (loc \<times> string list) io" where
  "fs_read_dir p = syscall (\<lambda>fs.
     (case lookup fs p of
        Inl e \<Rightarrow> Inl e
      | Inr (l, d) \<Rightarrow> if d = DDir then Inr (l, children fs l) else Inl ENotADirectory, fs))"

text \<open>
  Reading the next entry of an open directory can fail; the entry's own metadata does not follow
  a symbolic link.
\<close>

definition fs_next_entry :: "unit io" where
  "fs_next_entry = syscall (\<lambda>fs. (Inr (), fs))"

definition fs_entry_metadata :: "loc \<Rightarrow> file_meta io" where
  "fs_entry_metadata l = syscall (\<lambda>fs.
     (case dent_at fs l of None \<Rightarrow> Inl ENotFound | Some d \<Rightarrow> Inr (meta_of fs l d), fs))"

text \<open>\<^verbatim>\<open>fs::read_to_string\<close>: the whole file, which has to be UTF-8.\<close>

definition fs_read_to_string :: "path \<Rightarrow> string io" where
  "fs_read_to_string p fs =
     (case fs_open_read p fs of
        (Inl e, fs) \<Rightarrow> (Inl e, fs)
      | (Inr f, fs) \<Rightarrow>
          (case read_all fs f of
             Inl e \<Rightarrow> (Inl e, fs)
           | Inr bs \<Rightarrow> (if utf8_valid (map of_char bs) then Inr bs else Inl EInvalidData, fs)))"

section \<open>Well-formed file systems\<close>

definition tree_wf :: "(loc \<Rightarrow> dent option) \<Rightarrow> bool" where
  "tree_wf E \<longleftrightarrow> E [] = Some DDir \<and> (\<forall>l x. E (l @ [x]) \<noteq> None \<longrightarrow> E l = Some DDir)"

text \<open>
  Entries are unique, every entry sits in a directory, every file entry has its inode, inode
  numbers in use are below the next free one, and the working directory exists.
\<close>

definition fs_wf :: "fs \<Rightarrow> bool" where
  "fs_wf fs \<longleftrightarrow>
     distinct (map fst (ents fs)) \<and>
     list_all (\<lambda>(l, d). l \<noteq> [] \<and> dent_at fs (butlast l) = Some DDir \<and>
       (case d of DFile i \<Rightarrow> inodes fs i \<noteq> None | _ \<Rightarrow> True)) (ents fs) \<and>
     (\<forall>i. inodes fs i \<noteq> None \<longrightarrow> i < next_ino fs) \<and>
     dent_at fs (cwd fs) = Some DDir"

lemma dent_at_mem: "fs_wf fs \<Longrightarrow> (l, d) \<in> set (ents fs) \<Longrightarrow> dent_at fs l = Some d"
  by (auto simp: fs_wf_def dent_at_def list_all_iff)

lemma dent_at_ents: "dent_at fs l = Some d \<Longrightarrow> l \<noteq> [] \<Longrightarrow> (l, d) \<in> set (ents fs)"
  by (auto simp: dent_at_def map_of_SomeD)

lemma dent_at_root [simp]: "dent_at fs [] = Some DDir"
  by (simp add: dent_at_def)

lemma fs_wf_tree: "fs_wf fs \<Longrightarrow> tree_wf (dent_at fs)"
  unfolding tree_wf_def
proof (intro conjI allI impI)
  fix l x
  assume "fs_wf fs" and "dent_at fs (l @ [x]) \<noteq> None"
  then obtain d where "(l @ [x], d) \<in> set (ents fs)" by (auto dest: dent_at_ents)
  with \<open>fs_wf fs\<close> have "dent_at fs (butlast (l @ [x])) = Some DDir"
    unfolding fs_wf_def list_all_iff by blast
  then show "dent_at fs l = Some DDir" by simp
qed simp

lemma fs_wf_inode:
  assumes "fs_wf fs" and "dent_at fs l = Some (DFile i)"
  shows "inodes fs i \<noteq> None \<and> i < next_ino fs"
proof -
  from assms(2) have "(l, DFile i) \<in> set (ents fs)"
    by (cases "l = []") (simp_all add: dent_at_ents)
  with assms(1) have "inodes fs i \<noteq> None" unfolding fs_wf_def list_all_iff by fastforce
  with assms(1) show ?thesis by (simp add: fs_wf_def)
qed

lemma fs_wf_cwd: "fs_wf fs \<Longrightarrow> dent_at fs (cwd fs) = Some DDir"
  by (simp add: fs_wf_def)

lemma tree_wf_parent: "tree_wf E \<Longrightarrow> E l \<noteq> None \<Longrightarrow> E (butlast l) = Some DDir"
  by (cases l rule: rev_cases) (auto simp: tree_wf_def)

lemma tree_wf_prefix: "tree_wf E \<Longrightarrow> E (l @ m) \<noteq> None \<Longrightarrow> m \<noteq> [] \<Longrightarrow> E l = Some DDir"
proof (induction m rule: rev_induct)
  case (snoc x m)
  then have "E (l @ m) = Some DDir" by (auto simp: tree_wf_def simp flip: append_assoc)
  with snoc show ?case by (cases "m = []") auto
qed simp

subsection \<open>The primitive updates\<close>

lemma dent_at_put_ent [simp]: "l \<noteq> [] \<Longrightarrow> dent_at (put_ent l d fs) = (dent_at fs)(l \<mapsto> d)"
  by (auto simp: dent_at_def put_ent_def update_conv' fun_eq_iff)

lemma dent_at_del_ent [simp]: "l \<noteq> [] \<Longrightarrow> dent_at (del_ent l fs) = (dent_at fs)(l := None)"
  by (auto simp: dent_at_def del_ent_def delete_conv' fun_eq_iff)

lemma dent_at_put_inode [simp]: "dent_at (put_inode i bs fs) = dent_at fs"
  by (simp add: dent_at_def put_inode_def fun_eq_iff)

lemma dent_at_new_file [simp]:
  "l \<noteq> [] \<Longrightarrow> dent_at (new_file l fs) = (dent_at fs)(l \<mapsto> DFile (next_ino fs))"
  by (auto simp: dent_at_def new_file_def put_ent_def put_inode_def Let_def update_conv' fun_eq_iff)

lemma dent_at_faults [simp]: "dent_at (fs\<lparr>faults := r\<rparr>) = dent_at fs" "dent_at (fs\<lparr>draws := n\<rparr>) = dent_at fs"
  by (simp_all add: dent_at_def fun_eq_iff)

lemma ents_simps [simp]:
  "ents (put_ent l d fs) = AList.update l d (ents fs)" "ents (del_ent l fs) = AList.delete l (ents fs)"
  "ents (put_inode i bs fs) = ents fs"
  "ents (new_file l fs) = AList.update l (DFile (next_ino fs)) (ents fs)"
  by (simp_all add: put_ent_def del_ent_def put_inode_def new_file_def Let_def)

lemma inodes_simps [simp]:
  "inodes (put_ent l d fs) = inodes fs" "inodes (del_ent l fs) = inodes fs"
  "inodes (put_inode i bs fs) = (inodes fs)(i \<mapsto> \<lparr>ibytes = bs, imtime = clock fs\<rparr>)"
  "inodes (new_file l fs) = (inodes fs)(next_ino fs \<mapsto> \<lparr>ibytes = [], imtime = clock fs\<rparr>)"
  by (simp_all add: put_ent_def del_ent_def put_inode_def new_file_def Let_def)

lemma next_ino_simps [simp]:
  "next_ino (put_ent l d fs) = next_ino fs" "next_ino (del_ent l fs) = next_ino fs"
  "next_ino (put_inode i bs fs) = next_ino fs" "next_ino (new_file l fs) = Suc (next_ino fs)"
  by (simp_all add: put_ent_def del_ent_def put_inode_def new_file_def Let_def)

lemma other_fields_simps [simp]:
  "cwd (put_ent l d fs) = cwd fs" "cwd (del_ent l fs) = cwd fs" "cwd (put_inode i bs fs) = cwd fs"
  "cwd (new_file l fs) = cwd fs"
  "faults (put_ent l d fs) = faults fs" "faults (del_ent l fs) = faults fs"
  "faults (put_inode i bs fs) = faults fs" "faults (new_file l fs) = faults fs"
  "clock (put_ent l d fs) = clock fs" "clock (del_ent l fs) = clock fs"
  "clock (put_inode i bs fs) = clock fs" "clock (new_file l fs) = clock fs"
  by (simp_all add: put_ent_def del_ent_def put_inode_def new_file_def Let_def)

lemma bytes_of_simps [simp]:
  "bytes_of (put_ent l d fs) = bytes_of fs" "bytes_of (del_ent l fs) = bytes_of fs"
  "bytes_of (put_inode i bs fs) = (bytes_of fs)(i := bs)"
  "bytes_of (new_file l fs) = (bytes_of fs)(next_ino fs := [])"
  "bytes_of (fs\<lparr>faults := r\<rparr>) = bytes_of fs" "bytes_of (fs\<lparr>draws := n\<rparr>) = bytes_of fs"
  by (simp_all add: bytes_of_def fun_eq_iff)

lemma locate_faults [simp]: "locate (fs\<lparr>faults := r\<rparr>) = locate fs"
  by (simp add: locate_def fun_eq_iff)

lemma lookup_faults [simp]: "lookup (fs\<lparr>faults := r\<rparr>) = lookup fs"
  by (auto simp: lookup_def fun_eq_iff split: sum.splits)

lemma entry_of_faults [simp]: "entry_of (fs\<lparr>faults := r\<rparr>) = entry_of fs"
  by (auto simp: entry_of_def fun_eq_iff split: sum.splits option.splits)

text \<open>Well-formedness as a property of the functions that describe the state.\<close>

lemma fs_wf_iff:
  "fs_wf fs \<longleftrightarrow> distinct (map fst (ents fs)) \<and> [] \<notin> fst ` set (ents fs) \<and>
     tree_wf (dent_at fs) \<and>
     (\<forall>l i. dent_at fs l = Some (DFile i) \<longrightarrow> inodes fs i \<noteq> None) \<and>
     (\<forall>i. inodes fs i \<noteq> None \<longrightarrow> i < next_ino fs) \<and> dent_at fs (cwd fs) = Some DDir"
  (is "_ \<longleftrightarrow> ?R")
proof
  assume wf: "fs_wf fs"
  then have "[] \<notin> fst ` set (ents fs)" unfolding fs_wf_def list_all_iff by fastforce
  with wf fs_wf_tree [OF wf] fs_wf_inode [OF wf] show ?R
    by (simp add: fs_wf_def)
next
  assume R: ?R
  have at: "dent_at fs l = Some d \<and> l \<noteq> []" if "(l, d) \<in> set (ents fs)" for l d
    using R that by (force simp: dent_at_def)
  have "dent_at fs (butlast l) = Some DDir" if "(l, d) \<in> set (ents fs)" for l d
    using at [OF that] R tree_wf_parent [of "dent_at fs" l] by simp
  moreover have "inodes fs i \<noteq> None" if "(l, DFile i) \<in> set (ents fs)" for l i
    using at [OF that] R by blast
  ultimately show "fs_wf fs"
    using R at unfolding fs_wf_def list_all_iff by (fastforce split: dent.splits)
qed

lemma fs_wf_faults [simp]: "fs_wf (fs\<lparr>faults := r\<rparr>) \<longleftrightarrow> fs_wf fs" "fs_wf (fs\<lparr>draws := n\<rparr>) \<longleftrightarrow> fs_wf fs"
  by (simp_all add: fs_wf_iff)

lemma tree_wf_upd:
  assumes "tree_wf E" "l \<noteq> []" "E (butlast l) = Some DDir" "E l = None"
  shows "tree_wf (E(l \<mapsto> d))"
  unfolding tree_wf_def
proof (intro conjI allI impI)
  fix k x
  assume "(E(l \<mapsto> d)) (k @ [x]) \<noteq> None"
  then have "k @ [x] = l \<or> E (k @ [x]) \<noteq> None" by (auto split: if_splits)
  with assms have "E k = Some DDir" by (auto simp: tree_wf_def)
  with assms(4) show "(E(l \<mapsto> d)) k = Some DDir" by (cases "k = l") auto
qed (use assms in \<open>auto simp: tree_wf_def\<close>)

lemma tree_wf_del:
  assumes "tree_wf E" "l \<noteq> []" "\<And>x. E (l @ [x]) = None"
  shows "tree_wf (E(l := None))"
  unfolding tree_wf_def
proof (intro conjI allI impI)
  fix k x
  assume "(E(l := None)) (k @ [x]) \<noteq> None"
  then have "k \<noteq> l" and "E (k @ [x]) \<noteq> None" using assms(3) by (auto split: if_splits)
  with assms(1) show "(E(l := None)) k = Some DDir" by (auto simp: tree_wf_def)
qed (use assms in \<open>auto simp: tree_wf_def\<close>)

lemma fs_wf_put_ent [fs_inv]:
  assumes "fs_wf fs" "l \<noteq> []" "dent_at fs (butlast l) = Some DDir" "dent_at fs l = None"
    and "\<And>i. d = DFile i \<Longrightarrow> inodes fs i \<noteq> None"
  shows "fs_wf (put_ent l d fs)"
  using assms tree_wf_upd [of "dent_at fs" l d]
  by (auto simp: fs_wf_iff distinct_update dom_update)

lemma fs_wf_del_ent [fs_inv]:
  assumes "fs_wf fs" "l \<noteq> []" "l \<noteq> cwd fs" "\<And>x. dent_at fs (l @ [x]) = None"
  shows "fs_wf (del_ent l fs)"
  using assms tree_wf_del [of "dent_at fs" l] dom_delete_subset [of l "ents fs"]
  by (auto simp: fs_wf_iff distinct_delete)

lemma fs_wf_put_inode [fs_inv]: "fs_wf fs \<Longrightarrow> i < next_ino fs \<Longrightarrow> fs_wf (put_inode i bs fs)"
  by (auto simp: fs_wf_iff)

lemma fs_wf_new_file [fs_inv]:
  assumes "fs_wf fs" "l \<noteq> []" "dent_at fs (butlast l) = Some DDir" "dent_at fs l = None"
  shows "fs_wf (new_file l fs)"
  using assms tree_wf_upd [of "dent_at fs" l "DFile (next_ino fs)"]
  by (auto simp: fs_wf_iff distinct_update dom_update less_Suc_eq)

lemma no_child_of_file:
  "fs_wf fs \<Longrightarrow> dent_at fs l = Some d \<Longrightarrow> d \<noteq> DDir \<Longrightarrow> dent_at fs (l @ [x]) = None \<and> l \<noteq> cwd fs \<and> l \<noteq> []"
  using fs_wf_tree [of fs] fs_wf_cwd [of fs] by (fastforce simp: tree_wf_def)

section \<open>Facts about path resolution\<close>

lemma walk_result:
  assumes "tree_wf E" "walk E n cur cs = Inr (l, ex)" "E cur = Some DDir"
  shows "if ex then E l = Some DDir \<or> (\<exists>i. E l = Some (DFile i))
         else l \<noteq> [] \<and> E l = None \<and> E (butlast l) = Some DDir"
  using assms
proof (induction E n cur cs rule: walk.induct)
  case (5 E n cur cs)
  then show ?case using tree_wf_parent [of E cur] by simp
next
  case (6 E n cur x cs)
  then show ?case by (auto split: option.splits dent.splits nat.splits if_splits)
qed (auto simp: tree_wf_def)

text \<open>More link traversals allowed: the same result, unless the limit had been hit.\<close>

lemma walk_mono:
  "walk E n cur cs = r \<Longrightarrow> r \<noteq> Inl ELoop \<Longrightarrow> n \<le> m \<Longrightarrow> walk E m cur cs = r"
proof (induction E n cur cs arbitrary: m rule: walk.induct)
  case (6 E n cur x cs)
  show ?case
  proof (cases "E (cur @ [x])")
    case (Some d)
    show ?thesis
    proof (cases d)
      case DDir
      with "6.IH"(1) [OF Some DDir, of m] 6(3-5) Some show ?thesis by simp
    next
      case (DSym t)
      with 6(3,4) Some obtain k where k: "n = Suc k" by (cases n) auto
      with 6(5) obtain j where j: "m = Suc j" "k \<le> j" by (cases m) auto
      with "6.IH"(2) [OF Some DSym k, of j] 6(3,4) Some DSym k show ?thesis by simp
    qed (use 6(3) Some in simp)
  qed (use 6(3) in simp)
qed simp_all

text \<open>Resolution goes through a directory that a first part of the path leads to.\<close>

lemma walk_append:
  assumes "tree_wf E" "walk E n cur cs = Inr (l, True)" "E cur = Some DDir" "E l = Some DDir"
  shows "\<exists>m \<le> n. \<forall>ds. walk E n cur (cs @ ds) = walk E m l ds"
  using assms
proof (induction E n cur cs rule: walk.induct)
  case (5 E n cur cs)
  then show ?case using tree_wf_parent [of E cur] by simp
next
  case (6 E n cur x cs)
  show ?case
  proof (cases "E (cur @ [x])")
    case None
    with 6 show ?thesis by (auto split: if_splits)
  next
    case (Some d)
    show ?thesis
    proof (cases d)
      case DDir
      with 6 Some show ?thesis by simp
    next
      case (DFile i)
      with 6 Some show ?thesis by (auto split: if_splits)
    next
      case (DSym t)
      with 6 Some obtain k where k: "n = Suc k" by (cases n) auto
      with 6 Some DSym have "walk E k cur (path_new t @ cs) = Inr (l, True)" by simp
      from "6.IH"(2) [OF Some DSym k 6(3) this 6(5,6)] obtain m
        where "m \<le> k" and "\<forall>ds. walk E k cur ((path_new t @ cs) @ ds) = walk E m l ds" by blast
      with Some DSym k show ?thesis by (intro exI [of _ m]) simp
    qed
  qed
qed (auto simp: tree_wf_def)

lemma walk_error_append: "walk E n cur cs = Inl e \<Longrightarrow> walk E n cur (cs @ ds) = Inl e"
  by (induction E n cur cs rule: walk.induct)
    (auto split: option.splits dent.splits nat.splits if_splits)

text \<open>A path without links below it resolves to the location it spells.\<close>

lemma walk_names:
  assumes "tree_wf E" "E cur = Some DDir" "xs \<noteq> []"
    and "\<And>k t. k \<noteq> [] \<Longrightarrow> prefix k xs \<Longrightarrow> E (cur @ k) \<noteq> Some (DSym t)"
  shows "if E (cur @ butlast xs) = Some DDir
         then walk E n cur (map Normal xs) = Inr (cur @ xs, E (cur @ xs) \<noteq> None)
         else \<exists>e. walk E n cur (map Normal xs) = Inl e"
  using assms(2-)
proof (induction xs arbitrary: cur)
  case (Cons x xs)
  have nosym: "E (cur @ [x]) \<noteq> Some (DSym t)" for t using Cons.prems(3) [of "[x]"] by simp
  have nosym': "E ((cur @ [x]) @ k) \<noteq> Some (DSym t)" if "prefix k xs" for k t
    using Cons.prems(3) [of "x # k"] that by simp
  show ?case
  proof (cases "xs = []")
    case True
    with Cons.prems nosym show ?thesis by (auto split: option.splits dent.splits)
  next
    case False
    then have sub: "E (cur @ butlast (x # xs)) = E ((cur @ [x]) @ butlast xs)" by simp
    show ?thesis
    proof (cases "E (cur @ [x]) = Some DDir")
      case True
      with Cons.IH [OF True False] nosym' sub show ?thesis by simp
    next
      case not_dir: False
      then have "E ((cur @ [x]) @ butlast xs) \<noteq> Some DDir"
        using tree_wf_prefix [OF assms(1), of "cur @ [x]" "butlast xs"]
        by (cases "butlast xs = []") auto
      with not_dir nosym False sub show ?thesis
        by (auto split: option.splits dent.splits)
    qed
  qed
qed simp

text \<open>Real directories are passed through at no cost.\<close>

lemma walk_through:
  "tree_wf E \<Longrightarrow> E (cur @ xs) = Some DDir \<Longrightarrow> walk E n cur (map Normal xs @ ds) = walk E n (cur @ xs) ds"
proof (induction xs arbitrary: cur)
  case (Cons x xs)
  from Cons.prems have "E (cur @ [x]) = Some DDir"
    using tree_wf_prefix [of E "cur @ [x]" xs] by (cases "xs = []") simp_all
  moreover have "walk E n (cur @ [x]) (map Normal xs @ ds) = walk E n ((cur @ [x]) @ xs) ds"
    using Cons.prems by (intro Cons.IH) simp_all
  ultimately show ?case by simp
qed simp

section \<open>A small file system for examples\<close>

text \<open>
  An archive \<^verbatim>\<open>/srv\<close> with the homes of two cameras; \<^verbatim>\<open>/srv/cam\<close> holds a clip, and
  \<^verbatim>\<open>/srv/door\<close> a link to the other camera's home.
\<close>

definition demo_fs :: fs where
  "demo_fs =
     \<lparr>ents = [([''srv''], DDir), ([''srv'', ''cam''], DDir), ([''srv'', ''cam'', ''old.mp4''], DFile 0),
        ([''srv'', ''door''], DDir), ([''srv'', ''door'', ''escape''], DSym ''../cam'')],
      inodes = [0 \<mapsto> \<lparr>ibytes = ''abc'', imtime = 5\<rparr>], next_ino = 1, cwd = [], clock = 7,
      dir_time = (\<lambda>_. 0), dir_len = (\<lambda>_. 0), owner = (0, 0), faults = [], draws = 0\<rparr>"

lemma demo_fs_wf: "fs_wf demo_fs"
  by (simp add: fs_wf_def demo_fs_def dent_at_def)

end
