(* ===== verification/FS_Frame.thy ===== *)
theory FS_Frame
  imports Posix_FS
begin

text \<open>
  What the system calls of \<open>Posix_FS\<close> leave alone.  \<open>evolves R N I fs fs'\<close> says that a
  computation removed entries in \<open>R\<close> only, created entries in \<open>R \<union> N\<close> only, wrote to inodes in
  \<open>I\<close> only, made no symbolic link and touched no directory; it is a preorder, so the effect of a
  program is bounded by the effects of its calls.
\<close>

definition nolinks :: "fs \<Rightarrow> loc \<Rightarrow> bool" where
  "nolinks fs l \<longleftrightarrow> (\<forall>k t. prefix k l \<longrightarrow> dent_at fs k \<noteq> Some (DSym t))"

definition evolves :: "loc set \<Rightarrow> loc set \<Rightarrow> nat set \<Rightarrow> fs \<Rightarrow> fs \<Rightarrow> bool" where
  "evolves R N I fs fs' \<longleftrightarrow>
     cwd fs' = cwd fs \<and> next_ino fs \<le> next_ino fs' \<and>
     (\<forall>k. dent_at fs k \<noteq> None \<and> (k \<in> R \<longrightarrow> (\<forall>i. dent_at fs k \<noteq> Some (DFile i))) \<longrightarrow>
        dent_at fs' k = dent_at fs k) \<and>
     (\<forall>k. dent_at fs' k = dent_at fs k \<or> k \<in> R \<union> N) \<and>
     (\<forall>k t. dent_at fs' k = Some (DSym t) \<longrightarrow> dent_at fs k = Some (DSym t)) \<and>
     (\<forall>k j. dent_at fs' k = Some (DFile j) \<longrightarrow> dent_at fs k = Some (DFile j) \<or> j \<in> I) \<and>
     (\<forall>i. i \<notin> I \<longrightarrow> inodes fs' i = inodes fs i)"

section \<open>The preorder\<close>

lemma evolves_refl [simp]: "evolves R N I fs fs"
  by (simp add: evolves_def)

lemma evolves_cwd: "evolves R N I fs fs' \<Longrightarrow> cwd fs' = cwd fs"
  unfolding evolves_def by (elim conjE)

lemma evolves_next: "evolves R N I fs fs' \<Longrightarrow> next_ino fs \<le> next_ino fs'"
  unfolding evolves_def by (elim conjE)

lemma evolves_inode: "evolves R N I fs fs' \<Longrightarrow> i \<notin> I \<Longrightarrow> inodes fs' i = inodes fs i"
  unfolding evolves_def by (elim conjE) blast

lemma evolves_trans:
  assumes 1: "evolves R N I fs fs1" and 2: "evolves R N I fs1 fs2"
  shows "evolves R N I fs fs2"
  unfolding evolves_def
proof (intro conjI allI impI)
  show "cwd fs2 = cwd fs" using evolves_cwd [OF 1] evolves_cwd [OF 2] by simp
  show "next_ino fs \<le> next_ino fs2" using evolves_next [OF 1] evolves_next [OF 2] by simp
next
  fix k
  assume k: "dent_at fs k \<noteq> None \<and> (k \<in> R \<longrightarrow> (\<forall>i. dent_at fs k \<noteq> Some (DFile i)))"
  with 1 have "dent_at fs1 k = dent_at fs k" unfolding evolves_def by blast
  with k 2 show "dent_at fs2 k = dent_at fs k" unfolding evolves_def by metis
next
  fix k
  show "dent_at fs2 k = dent_at fs k \<or> k \<in> R \<union> N" using 1 2 unfolding evolves_def by metis
next
  fix k t
  assume "dent_at fs2 k = Some (DSym t)"
  with 1 2 show "dent_at fs k = Some (DSym t)" unfolding evolves_def by metis
next
  fix k j
  assume "dent_at fs2 k = Some (DFile j)"
  with 1 2 show "dent_at fs k = Some (DFile j) \<or> j \<in> I" unfolding evolves_def by metis
next
  fix i
  assume "i \<notin> I"
  with evolves_inode [OF 1] evolves_inode [OF 2] show "inodes fs2 i = inodes fs i" by simp
qed

lemma evolves_mono:
  assumes "evolves R N I fs fs'" "R \<subseteq> R'" "N \<subseteq> N'" "I \<subseteq> I'"
  shows "evolves R' N' I' fs fs'"
  using assms unfolding evolves_def by (intro conjI allI impI) blast+

lemma evolves_faults [simp]:
  "evolves R N I (fs\<lparr>faults := fl\<rparr>) fs' = evolves R N I fs fs'"
  "evolves R N I fs (fs'\<lparr>faults := fl\<rparr>) = evolves R N I fs fs'"
  "evolves R N I (fs\<lparr>draws := n\<rparr>) fs' = evolves R N I fs fs'"
  "evolves R N I fs (fs'\<lparr>draws := n\<rparr>) = evolves R N I fs fs'"
  by (simp_all add: evolves_def)

lemma evolves_kept:
  "evolves R N I fs fs' \<Longrightarrow> dent_at fs k = Some d \<Longrightarrow> (k \<in> R \<Longrightarrow> (\<And>i. d \<noteq> DFile i)) \<Longrightarrow>
    dent_at fs' k = Some d"
  unfolding evolves_def by (metis option.distinct(1) option.inject)

lemma evolves_dir: "evolves R N I fs fs' \<Longrightarrow> dent_at fs k = Some DDir \<Longrightarrow> dent_at fs' k = Some DDir"
  by (rule evolves_kept) simp_all

lemma evolves_sym:
  "evolves R N I fs fs' \<Longrightarrow> dent_at fs k = Some (DSym t) \<Longrightarrow> dent_at fs' k = Some (DSym t)"
  by (rule evolves_kept) simp_all

lemma evolves_other:
  "evolves R N I fs fs' \<Longrightarrow> k \<notin> R \<Longrightarrow> k \<notin> N \<Longrightarrow> dent_at fs' k = dent_at fs k"
  unfolding evolves_def by blast

lemma evolves_file:
  "evolves R N I fs fs' \<Longrightarrow> dent_at fs' k = Some (DFile j) \<Longrightarrow> dent_at fs k = Some (DFile j) \<or> j \<in> I"
  unfolding evolves_def by blast

lemma evolves_bytes: "evolves R N I fs fs' \<Longrightarrow> i \<notin> I \<Longrightarrow> bytes_of fs' i = bytes_of fs i"
  by (simp add: evolves_inode bytes_of_def)

lemma nolinks_evolves: "evolves R N I fs fs' \<Longrightarrow> nolinks fs l \<Longrightarrow> nolinks fs' l"
  unfolding evolves_def nolinks_def by blast

lemma nolinks_faults [simp]: "nolinks (fs\<lparr>faults := fl\<rparr>) l = nolinks fs l"
  by (simp add: nolinks_def)

lemma nolinks_prefix: "nolinks fs l \<Longrightarrow> prefix k l \<Longrightarrow> nolinks fs k"
  by (auto simp: nolinks_def intro: prefix_order.trans)

lemma nolinks_butlast [simp]: "nolinks fs l \<Longrightarrow> nolinks fs (butlast l)"
  by (erule nolinks_prefix) (rule prefixeq_butlast)

section \<open>Paths without links\<close>

lemma abs_path_neq_Nil [simp]: "abs_path l \<noteq> []"
  by (simp add: abs_path_def)

lemma abs_path_snoc: "abs_path (l @ [x]) = abs_path l @ [Normal x]"
  by (simp add: abs_path_def)

lemma abs_path_butlast: "l \<noteq> [] \<Longrightarrow> butlast (abs_path l) = abs_path (butlast l)"
  by (cases l rule: rev_cases) (simp_all add: abs_path_def butlast_append)

lemma path_file_name_abs: "l \<noteq> [] \<Longrightarrow> path_file_name (abs_path l) = Some (last l)"
  by (cases l rule: rev_cases) (simp_all add: abs_path_snoc path_file_name_snoc)

lemma path_file_name_root: "path_file_name (abs_path []) = None"
  by (simp add: abs_path_def path_file_name_def)

lemma path_parent_abs: "l \<noteq> [] \<Longrightarrow> path_parent (abs_path l) = Some (abs_path (butlast l))"
  by (cases l rule: rev_cases) (simp_all add: abs_path_snoc path_parent_snoc)

lemma abs_path_inj [simp]: "abs_path l = abs_path m \<longleftrightarrow> l = m"
proof -
  have "inj Normal" by (rule injI) simp
  then show ?thesis by (simp add: abs_path_def inj_map_eq_map)
qed

lemma locate_abs:
  assumes wf: "fs_wf fs" and nl: "nolinks fs l" and ne: "l \<noteq> []"
  shows "if dent_at fs (butlast l) = Some DDir then locate fs (abs_path l) = Inr (l, dent_at fs l \<noteq> None)
         else \<exists>e. locate fs (abs_path l) = Inl e"
proof -
  have "dent_at fs ([] @ k) \<noteq> Some (DSym t)" if "prefix k l" for k t
    using nl that by (auto simp: nolinks_def)
  from walk_names [OF fs_wf_tree [OF wf] _ ne, of "[]" MAXSYMLINKS] this show ?thesis
    by (simp add: locate_def abs_path_def)
qed

lemma lookup_abs:
  assumes wf: "fs_wf fs" and nl: "nolinks fs l"
  shows "case dent_at fs l of Some d \<Rightarrow> lookup fs (abs_path l) = Inr (l, d)
         | None \<Rightarrow> \<exists>e. lookup fs (abs_path l) = Inl e"
proof (cases "l = []")
  case True
  then show ?thesis by (simp add: lookup_def locate_def abs_path_def)
next
  case False
  note loc = locate_abs [OF wf nl False]
  show ?thesis
  proof (cases "dent_at fs (butlast l) = Some DDir")
    case True
    with loc show ?thesis by (auto simp: lookup_def split: option.splits)
  next
    case dir: False
    with tree_wf_parent [OF fs_wf_tree [OF wf], of l] have "dent_at fs l = None" by blast
    with dir loc show ?thesis by (auto simp: lookup_def)
  qed
qed

lemma lookup_abs_Inr:
  "fs_wf fs \<Longrightarrow> nolinks fs l \<Longrightarrow> lookup fs (abs_path l) = Inr (k, d) \<longleftrightarrow> k = l \<and> dent_at fs l = Some d"
  using lookup_abs [of fs l] by (auto split: option.splits)

lemma entry_of_abs:
  assumes "fs_wf fs" "nolinks fs l" "l \<noteq> []"
  shows "if dent_at fs (butlast l) = Some DDir then entry_of fs (abs_path l) = Inr l
         else \<exists>e. entry_of fs (abs_path l) = Inl e"
  using lookup_abs [OF assms(1), of "butlast l"] assms
  by (auto simp: entry_of_def path_file_name_abs abs_path_butlast split: option.splits)

lemma entry_of_abs_Inr:
  "fs_wf fs \<Longrightarrow> nolinks fs l \<Longrightarrow> l \<noteq> [] \<Longrightarrow>
    entry_of fs (abs_path l) = Inr k \<longleftrightarrow> k = l \<and> dent_at fs (butlast l) = Some DDir"
  using entry_of_abs [of fs l] by (auto split: if_splits)

section \<open>The calls\<close>

lemma syscall_cases:
  assumes "syscall op fs = (r, fs')"
  obtains (fault) e fl where "r = Inl (EOther e)" "fs' = fs\<lparr>faults := fl\<rparr>"
  | (run) fl where "op (fs\<lparr>faults := fl\<rparr>) = (r, fs')"
proof (cases "faults fs")
  case Nil
  then have "fs\<lparr>faults := []\<rparr> = fs" by simp
  with Nil assms run [of "[]"] show ?thesis by (simp add: syscall_def)
next
  case (Cons f fl)
  with assms fault run show ?thesis by (cases f) (auto simp: syscall_def)
qed

lemma syscall_no_faults: "faults fs = [] \<Longrightarrow> syscall op fs = op fs"
  by (simp add: syscall_def)

lemma meta_of_faults [simp]: "meta_of (fs\<lparr>faults := fl\<rparr>) = meta_of fs"
  by (auto simp: fun_eq_iff meta_of_def bytes_of_def mtime_of_def split: dent.splits)

text \<open>Calls that only read.\<close>

lemma fs_metadata_state: "fs_metadata p fs = (r, fs') \<Longrightarrow> \<exists>fl. fs' = fs\<lparr>faults := fl\<rparr>"
  unfolding fs_metadata_def by (erule syscall_cases) auto

lemma fs_try_exists_state: "fs_try_exists p fs = (r, fs') \<Longrightarrow> \<exists>fl. fs' = fs\<lparr>faults := fl\<rparr>"
  by (auto simp: fs_try_exists_def split: prod.splits sum.splits dest!: fs_metadata_state)

lemma fs_is_dir_state: "fs_is_dir p fs = (r, fs') \<Longrightarrow> \<exists>fl. fs' = fs\<lparr>faults := fl\<rparr>"
  by (auto simp: fs_is_dir_def split: prod.splits sum.splits dest!: fs_metadata_state)

lemma fs_flush_state: "fs_flush fs = (r, fs') \<Longrightarrow> \<exists>fl. fs' = fs\<lparr>faults := fl\<rparr>"
  unfolding fs_flush_def by (erule syscall_cases) auto

lemma fs_open_read_state: "fs_open_read p fs = (r, fs') \<Longrightarrow> \<exists>fl. fs' = fs\<lparr>faults := fl\<rparr>"
  unfolding fs_open_read_def by (erule syscall_cases) auto

lemma fs_seek_state: "fs_seek n f fs = (r, fs') \<Longrightarrow> \<exists>fl. fs' = fs\<lparr>faults := fl\<rparr>"
  unfolding fs_seek_def by (erule syscall_cases) auto

lemma fs_read_dir_state: "fs_read_dir p fs = (r, fs') \<Longrightarrow> \<exists>fl. fs' = fs\<lparr>faults := fl\<rparr>"
  unfolding fs_read_dir_def by (erule syscall_cases) auto

lemma fs_next_entry_state: "fs_next_entry fs = (r, fs') \<Longrightarrow> \<exists>fl. fs' = fs\<lparr>faults := fl\<rparr>"
  unfolding fs_next_entry_def by (erule syscall_cases) auto

lemma fs_entry_metadata_state: "fs_entry_metadata l fs = (r, fs') \<Longrightarrow> \<exists>fl. fs' = fs\<lparr>faults := fl\<rparr>"
  unfolding fs_entry_metadata_def by (erule syscall_cases) auto

lemmas read_only_calls = fs_next_entry_state fs_entry_metadata_state fs_metadata_state fs_try_exists_state fs_is_dir_state fs_flush_state
  fs_open_read_state fs_seek_state fs_read_dir_state

text \<open>What the queries answer on a path without links.\<close>

lemma fs_metadata_Inr:
  assumes "fs_metadata (abs_path l) fs = (Inr mt, fs')" "fs_wf fs" "nolinks fs l"
  shows "\<exists>d. dent_at fs l = Some d \<and> mt = meta_of fs l d"
  using assms(1) unfolding fs_metadata_def
proof (cases rule: syscall_cases)
  case (run fl)
  then have "\<exists>k d. lookup fs (abs_path l) = Inr (k, d) \<and> mt = meta_of fs k d"
    by (auto split: sum.splits prod.splits)
  with lookup_abs_Inr [OF assms(2,3)] show ?thesis by auto
qed simp

lemma fs_metadata_ENotFound:
  assumes "fs_metadata (abs_path l) fs = (Inl ENotFound, fs')" "fs_wf fs" "nolinks fs l"
  shows "dent_at fs l = None"
  using assms(1) unfolding fs_metadata_def
proof (cases rule: syscall_cases)
  case (run fl)
  with lookup_abs [OF assms(2,3)] show ?thesis by (auto split: sum.splits option.splits)
qed simp

lemma fs_try_exists_Inr:
  assumes "fs_try_exists (abs_path l) fs = (Inr b, fs')" "fs_wf fs" "nolinks fs l"
  shows "b \<longleftrightarrow> dent_at fs l \<noteq> None"
  using assms fs_metadata_Inr [of l fs] fs_metadata_ENotFound [of l fs]
  by (auto simp: fs_try_exists_def split: prod.splits sum.splits if_splits)

lemma fs_is_dir_True:
  assumes "fs_is_dir (abs_path l) fs = (True, fs')" "fs_wf fs" "nolinks fs l"
  shows "dent_at fs l = Some DDir"
  using assms fs_metadata_Inr [of l fs]
  by (auto simp: fs_is_dir_def meta_of_def split: prod.splits sum.splits)

text \<open>Calls that change the file system.\<close>

lemma fs_remove_file_frame [fs_frame]:
  assumes "fs_remove_file (abs_path l) fs = (r, fs')" "fs_wf fs" "nolinks fs l" "l \<noteq> []"
  shows "fs_wf fs' \<and> evolves {l} N I fs fs' \<and> (r = Inr () \<longrightarrow> dent_at fs' l = None) \<and>
    (dent_at fs' l = None \<or> dent_at fs' l = dent_at fs l)"
  using assms(1) unfolding fs_remove_file_def
proof (cases rule: syscall_cases)
  case (run fl)
  show ?thesis
  proof (cases "entry_of fs (abs_path l) = Inr l \<and> (\<exists>i. dent_at fs l = Some (DFile i))")
    case True
    then obtain i where e: "entry_of fs (abs_path l) = Inr l" and i: "dent_at fs l = Some (DFile i)"
      by blast
    with run have r: "fs' = del_ent l (fs\<lparr>faults := fl\<rparr>)" by simp
    from no_child_of_file [OF assms(2) i] have "fs_wf fs'"
      unfolding r using assms(2,4) by (intro fs_wf_del_ent) simp_all
    with r i assms(4) show ?thesis by (auto simp: evolves_def)
  next
    case False
    have "\<forall>t. dent_at fs l \<noteq> Some (DSym t)" using assms(3) by (simp add: nolinks_def)
    with False run entry_of_abs [OF assms(2-4)] assms(2) show ?thesis
      by (auto split: sum.splits option.splits dent.splits if_splits)
  qed
qed (use assms in auto)

lemma fs_mkdir_frame [fs_frame]:
  assumes "fs_mkdir (abs_path l) fs = (r, fs')" "fs_wf fs" "nolinks fs l"
  shows "fs_wf fs' \<and> evolves R {l} I fs fs' \<and> (r = Inr () \<longrightarrow> dent_at fs' l = Some DDir)"
  using assms(1) unfolding fs_mkdir_def
proof (cases rule: syscall_cases)
  case (run fl)
  show ?thesis
  proof (cases "l = []")
    case True
    with run assms(2) show ?thesis
      by (auto simp: abs_path_def path_file_name_def split: sum.splits)
  next
    case ne: False
    show ?thesis
    proof (cases "entry_of fs (abs_path l) = Inr l \<and> dent_at fs l = None")
      case True
      with run ne have r: "fs' = put_ent l DDir (fs\<lparr>faults := fl\<rparr>)" by (simp add: path_file_name_abs)
      from True entry_of_abs_Inr [OF assms(2,3) ne] have "dent_at fs (butlast l) = Some DDir" by simp
      with True have "fs_wf fs'" unfolding r using assms(2) ne by (intro fs_wf_put_ent) simp_all
      with r True ne show ?thesis by (auto simp: evolves_def)
    next
      case False
      with run entry_of_abs [OF assms(2,3) ne] assms(2) ne show ?thesis
        by (auto simp: path_file_name_abs split: sum.splits option.splits if_splits)
    qed
  qed
qed (use assms in auto)

lemma fs_open_write_frame [fs_frame]:
  assumes "fs_open_write trunc (abs_path l) fs = (r, fs')" "fs_wf fs" "nolinks fs l" "l \<noteq> []"
    and "next_ino fs \<in> I" "\<And>i. dent_at fs l = Some (DFile i) \<Longrightarrow> i \<in> I"
  shows "fs_wf fs' \<and> evolves R {l} I fs fs' \<and>
    (\<forall>i. r = Inr i \<longrightarrow> dent_at fs' l = Some (DFile i) \<and> i \<in> I \<and> i < next_ino fs' \<and>
       bytes_of fs' i = (if trunc \<or> dent_at fs l = None then [] else bytes_of fs i) \<and>
       (dent_at fs l = Some (DFile i) \<or> dent_at fs l = None \<and> i = next_ino fs))"
  using assms(1) unfolding fs_open_write_def
proof (cases rule: syscall_cases)
  case (run fl)
  have nosym: "dent_at fs l \<noteq> Some (DSym t)" for t using assms(3) by (simp add: nolinks_def)
  show ?thesis
  proof (cases "dent_at fs (butlast l) = Some DDir")
    case dir: True
    with locate_abs [OF assms(2-4)] have loc: "locate fs (abs_path l) = Inr (l, dent_at fs l \<noteq> None)"
      by simp
    show ?thesis
    proof (cases "dent_at fs l")
      case None
      with run loc have r: "r = Inr (next_ino fs)" "fs' = new_file l (fs\<lparr>faults := fl\<rparr>)" by simp_all
      have "fs_wf fs'" unfolding r using assms(2,4) dir None by (intro fs_wf_new_file) simp_all
      with r None assms(4,5) show ?thesis by (auto simp: evolves_def)
    next
      case (Some d)
      with run loc assms(2) nosym fs_wf_inode [OF assms(2), of l] assms(6) show ?thesis
        by (cases d; cases trunc) (auto simp: evolves_def fs_wf_put_inode)
    qed
  next
    case False
    with locate_abs [OF assms(2-4)] run assms(2) show ?thesis by auto
  qed
qed (use assms in auto)

lemma fs_append_frame [fs_frame]:
  assumes "fs_append i bs fs = (r, fs')" "fs_wf fs" "i \<in> I" "i < next_ino fs"
  shows "fs_wf fs' \<and> evolves R N I fs fs' \<and> dent_at fs' = dent_at fs \<and> next_ino fs' = next_ino fs \<and>
    bytes_of fs' i = (if r = Inr () then bytes_of fs i @ bs else bytes_of fs i)"
  using assms(1) unfolding fs_append_def
  by (rule syscall_cases) (use assms in \<open>auto simp: evolves_def fs_wf_put_inode\<close>)

lemma fs_write_at_frame [fs_frame]:
  assumes "fs_write_at i off bs fs = (r, fs')" "fs_wf fs" "i \<in> I" "i < next_ino fs"
  shows "fs_wf fs' \<and> evolves R N I fs fs' \<and> dent_at fs' = dent_at fs \<and> next_ino fs' = next_ino fs \<and>
    bytes_of fs' i = (if r = Inr () then overwrite off bs (bytes_of fs i) else bytes_of fs i)"
  using assms(1) unfolding fs_write_at_def
  by (rule syscall_cases) (use assms in \<open>auto simp: evolves_def fs_wf_put_inode\<close>)

lemma fs_hard_link_frame [fs_frame]:
  assumes "fs_hard_link (abs_path s) (abs_path l) fs = (r, fs')" "fs_wf fs"
    and "nolinks fs s" "s \<noteq> []" "nolinks fs l" "l \<noteq> []"
    and "\<And>i. dent_at fs s = Some (DFile i) \<Longrightarrow> i \<in> I"
  shows "fs_wf fs' \<and> evolves R {l} I fs fs' \<and> inodes fs' = inodes fs \<and> next_ino fs' = next_ino fs \<and>
    (r = Inr () \<longrightarrow> dent_at fs l = None \<and>
       (\<exists>i. dent_at fs s = Some (DFile i) \<and> dent_at fs' = (dent_at fs)(l \<mapsto> DFile i))) \<and>
    (r \<noteq> Inr () \<longrightarrow> (\<exists>fl. fs' = fs\<lparr>faults := fl\<rparr>))"
  using assms(1) unfolding fs_hard_link_def
proof (cases rule: syscall_cases)
  case (run fl)
  show ?thesis
  proof (cases "entry_of fs (abs_path s) = Inr s \<and> entry_of fs (abs_path l) = Inr l \<and>
      dent_at fs l = None \<and> (\<exists>i. dent_at fs s = Some (DFile i))")
    case True
    then obtain i where i: "dent_at fs s = Some (DFile i)" by blast
    with True run have r: "r = Inr ()" "fs' = put_ent l (DFile i) (fs\<lparr>faults := fl\<rparr>)" by simp_all
    from True entry_of_abs_Inr [OF assms(2,5,6)] have "dent_at fs (butlast l) = Some DDir" by simp
    with True i have "fs_wf fs'"
      unfolding r using assms(2,6) fs_wf_inode [OF assms(2) i] by (intro fs_wf_put_ent) auto
    with r True i assms(6,7) show ?thesis by (auto simp: evolves_def)
  next
    case False
    have "\<forall>t. dent_at fs s \<noteq> Some (DSym t)" using assms(3) by (simp add: nolinks_def)
    with False run entry_of_abs [OF assms(2-4)] entry_of_abs [OF assms(2,5,6)] assms(2) show ?thesis
      by (auto split: sum.splits option.splits dent.splits if_splits) (metis dent.exhaust)+
  qed
qed (use assms in auto)

section \<open>Creating a directory with its parents\<close>

abbreviation (input) dirs_to :: "loc \<Rightarrow> loc set" where
  "dirs_to l \<equiv> {k. prefix k l}"

lemma not_prefix_butlast: "l \<noteq> [] \<Longrightarrow> \<not> prefix l (butlast l)"
  by (cases l rule: rev_cases) (auto dest: prefix_length_le)

lemma dirs_to_butlast: "dirs_to (butlast l) \<subseteq> dirs_to l"
  by (auto intro: prefix_order.trans prefixeq_butlast)

lemma mkdir_or_dir_frame:
  assumes "mkdir_or_dir (abs_path l) fs = (r, fs')" "fs_wf fs" "nolinks fs l"
  shows "fs_wf fs' \<and> evolves R (dirs_to l) I fs fs' \<and> (r = Inr () \<longrightarrow> dent_at fs' l = Some DDir)"
proof -
  obtain r1 fs1 where 1: "fs_mkdir (abs_path l) fs = (r1, fs1)" by fastforce
  note f = fs_mkdir_frame [OF 1 assms(2,3), of R I]
  then have ev: "evolves R (dirs_to l) I fs fs1" by (blast intro: evolves_mono)
  show ?thesis
  proof (cases r1)
    case (Inl e)
    obtain d fs2 where 2: "fs_is_dir (abs_path l) fs1 = (d, fs2)" by fastforce
    with fs_is_dir_True [of l fs1 fs2] f nolinks_evolves [OF ev assms(3)]
    have "d \<longrightarrow> dent_at fs1 l = Some DDir" by auto
    moreover from 2 obtain fl where "fs2 = fs1\<lparr>faults := fl\<rparr>" by (blast dest: fs_is_dir_state)
    moreover have "fs' = fs2" "r = (if d then Inr () else Inl e)"
      using assms(1) 1 2 Inl by (auto simp: mkdir_or_dir_def)
    ultimately show ?thesis using f ev by auto
  qed (use assms(1) 1 f ev in \<open>auto simp: mkdir_or_dir_def\<close>)
qed

text \<open>The recursion, with the paths of the file system.\<close>

lemma fs_create_dir_all_abs:
  "fs_create_dir_all (abs_path l) fs =
     (case fs_mkdir (abs_path l) fs of
        (Inr _, fs) \<Rightarrow> (Inr (), fs)
      | (Inl e, fs) \<Rightarrow>
          if e = ENotFound then
            (if l = [] then (Inl (EOther ''failed to create whole tree''), fs)
             else (case fs_create_dir_all (abs_path (butlast l)) fs of
                     (Inl e, fs) \<Rightarrow> (Inl e, fs)
                   | (Inr _, fs) \<Rightarrow> mkdir_or_dir (abs_path l) fs))
          else (case fs_is_dir (abs_path l) fs of (d, fs) \<Rightarrow> (if d then Inr () else Inl e, fs)))"
proof (cases "l = []")
  case True
  then show ?thesis
    by (subst fs_create_dir_all.simps) (auto simp: abs_path_def path_parent_def split: prod.splits sum.splits)
next
  case False
  then show ?thesis
    by (subst fs_create_dir_all.simps) (auto simp: path_parent_abs split: prod.splits sum.splits)
qed

lemma fs_create_dir_all_frame [fs_frame]:
  assumes "fs_create_dir_all (abs_path l) fs = (r, fs')" "fs_wf fs" "nolinks fs l"
  shows "fs_wf fs' \<and> evolves R (dirs_to l) I fs fs' \<and> (r = Inr () \<longrightarrow> dent_at fs' l = Some DDir)"
  using assms
proof (induction l arbitrary: fs r fs' rule: length_induct)
  case (1 l)
  obtain r1 fs1 where mk: "fs_mkdir (abs_path l) fs = (r1, fs1)" by fastforce
  note f = fs_mkdir_frame [OF mk 1(3,4), of R I]
  then have ev: "evolves R (dirs_to l) I fs fs1" by (blast intro: evolves_mono)
  note nl1 = nolinks_evolves [OF ev 1(4)] and run = 1(2) [unfolded fs_create_dir_all_abs [of l] mk prod.case]
  consider (made) "r1 = Inr ()" | (top) "r1 = Inl ENotFound" "l = []" | (more) "r1 = Inl ENotFound" "l \<noteq> []"
    | (other) e where "r1 = Inl e" "e \<noteq> ENotFound" by (cases r1) auto
  then show ?case
  proof cases
    case more
    then have "length (butlast l) < length l" by simp
    obtain r2 fs2 where c: "fs_create_dir_all (abs_path (butlast l)) fs1 = (r2, fs2)" by fastforce
    from 1(1) \<open>length (butlast l) < length l\<close> c f nolinks_butlast [OF nl1]
    have f2: "fs_wf fs2 \<and> evolves R (dirs_to (butlast l)) I fs1 fs2" by blast
    with dirs_to_butlast have ev2: "evolves R (dirs_to l) I fs1 fs2" by (blast intro: evolves_mono)
    note ev12 = evolves_trans [OF ev ev2]
    show ?thesis
    proof (cases r2)
      case (Inr u)
      with run more c have "mkdir_or_dir (abs_path l) fs2 = (r, fs')" by simp
      from mkdir_or_dir_frame [OF this, of R I] f2 nolinks_evolves [OF ev2 nl1] evolves_trans [OF ev12]
      show ?thesis by blast
    qed (use run more c f2 ev12 in auto)
  next
    case other
    obtain d fs2 where 2: "fs_is_dir (abs_path l) fs1 = (d, fs2)" by fastforce
    with fs_is_dir_True [of l fs1 fs2] f nl1 have "d \<longrightarrow> dent_at fs1 l = Some DDir" by auto
    moreover from 2 obtain fl where "fs2 = fs1\<lparr>faults := fl\<rparr>" by (blast dest: fs_is_dir_state)
    ultimately show ?thesis using run other 2 f ev by auto
  qed (use run f ev in auto)
qed

text \<open>Without failures it succeeds unless a file or a link is in the way.\<close>

definition room_for_dir :: "fs \<Rightarrow> loc \<Rightarrow> bool" where
  "room_for_dir fs l \<longleftrightarrow> (\<forall>k. prefix k l \<longrightarrow> dent_at fs k = None \<or> dent_at fs k = Some DDir)"

lemma room_for_dir_nolinks: "room_for_dir fs l \<Longrightarrow> nolinks fs l"
  by (auto simp: room_for_dir_def nolinks_def)

lemma room_for_dir_butlast: "room_for_dir fs l \<Longrightarrow> room_for_dir fs (butlast l)"
  by (auto simp: room_for_dir_def dest: prefix_order.trans [OF _ prefixeq_butlast])

lemma walk_absent:
  assumes "\<And>k. prefix k xs \<Longrightarrow> E (cur @ k) = None \<or> E (cur @ k) = Some DDir"
    and "E (cur @ xs) = None"
  shows "E cur = Some DDir \<Longrightarrow> walk E n cur (map Normal xs) \<in> {Inl ENotFound, Inr (cur @ xs, False)}"
  using assms
proof (induction xs arbitrary: cur)
  case (Cons x xs)
  show ?case
  proof (cases "E (cur @ [x])")
    case None
    then show ?thesis by simp
  next
    case (Some d)
    with Cons.prems(2) [of "[x]"] have d: "E (cur @ [x]) = Some DDir" by simp
    have "E ((cur @ [x]) @ k) = None \<or> E ((cur @ [x]) @ k) = Some DDir" if "prefix k xs" for k
      using Cons.prems(2) [of "x # k"] that by simp
    from Cons.IH [OF d this] Cons.prems(3) d show ?thesis by simp
  qed
qed simp

lemma lookup_absent:
  assumes "room_for_dir fs l" "dent_at fs l = None"
  shows "lookup fs (abs_path l) = Inl ENotFound"
  using walk_absent [of l "dent_at fs" "[]" MAXSYMLINKS] assms
  by (auto simp: room_for_dir_def lookup_def locate_def abs_path_def)

lemma lookup_room_parent:
  assumes "fs_wf fs" "room_for_dir fs l"
  shows "lookup fs (abs_path (butlast l)) =
    (if dent_at fs (butlast l) = Some DDir then Inr (butlast l, DDir) else Inl ENotFound)"
  using lookup_abs [OF assms(1) nolinks_butlast [OF room_for_dir_nolinks [OF assms(2)]]]
    lookup_absent [OF room_for_dir_butlast [OF assms(2)]] assms(2)
  by (auto simp: room_for_dir_def prefixeq_butlast split: option.splits dest: spec [where x = "butlast l"])

text \<open>One \<^verbatim>\<open>mkdir\<close>, by what is there.\<close>

lemma fs_mkdir_ok:
  assumes "faults fs = []" "fs_wf fs" "room_for_dir fs l"
  shows "fs_mkdir (abs_path l) fs =
    (if dent_at fs l \<noteq> None then (Inl EAlreadyExists, fs)
     else if dent_at fs (butlast l) = Some DDir then (Inr (), put_ent l DDir fs) else (Inl ENotFound, fs))"
proof (cases "dent_at fs l")
  case (Some d)
  then have "dent_at fs (butlast l) = Some DDir" using tree_wf_parent [OF fs_wf_tree [OF assms(2)], of l] by simp
  with lookup_room_parent [OF assms(2,3)] Some show ?thesis
    by (cases "l = []")
      (auto simp: fs_mkdir_def syscall_no_faults [OF assms(1)] path_file_name_abs entry_of_def abs_path_butlast path_file_name_root)
next
  case None
  then have "l \<noteq> []" by auto
  with None lookup_room_parent [OF assms(2,3)] show ?thesis
    by (simp add: fs_mkdir_def syscall_no_faults [OF assms(1)] path_file_name_abs entry_of_def abs_path_butlast)
qed

lemma fs_is_dir_ok:
  assumes "faults fs = []" "fs_wf fs" "nolinks fs l" "dent_at fs l = Some DDir"
  shows "fs_is_dir (abs_path l) fs = (True, fs)"
  using lookup_abs [OF assms(2,3)] assms(4)
  by (simp add: fs_is_dir_def fs_metadata_def syscall_no_faults [OF assms(1)] meta_of_def)

lemma fs_create_dir_all_ok:
  assumes "faults fs = []" "fs_wf fs" "room_for_dir fs l"
  shows "\<exists>fs'. fs_create_dir_all (abs_path l) fs = (Inr (), fs') \<and> faults fs' = []"
  using assms
proof (induction l arbitrary: fs rule: length_induct)
  case (1 l)
  note mk = fs_mkdir_ok [OF 1(2-4)] and nl = room_for_dir_nolinks [OF 1(4)]
  from 1(4) have "dent_at fs l = None \<or> dent_at fs l = Some DDir" by (simp add: room_for_dir_def)
  then consider (there) "dent_at fs l = Some DDir" | (last) "dent_at fs l = None" "dent_at fs (butlast l) = Some DDir"
    | (more) "dent_at fs l = None" "dent_at fs (butlast l) \<noteq> Some DDir"
    by (elim disjE) metis+
  then show ?case
  proof cases
    case there
    with mk fs_is_dir_ok [OF 1(2,3) nl there] 1(2) show ?thesis by (subst fs_create_dir_all.simps) simp
  next
    case last
    with mk 1(2) show ?thesis by (subst fs_create_dir_all.simps) simp
  next
    case more
    then have ne: "l \<noteq> []" by auto
    then have "length (butlast l) < length l" by simp
    with 1 room_for_dir_butlast obtain fs2
      where c: "fs_create_dir_all (abs_path (butlast l)) fs = (Inr (), fs2)" "faults fs2 = []" by blast
    from fs_create_dir_all_frame [OF c(1) 1(3) nolinks_butlast [OF nl], of "{}" "{}"]
    have f2: "fs_wf fs2" "evolves {} (dirs_to (butlast l)) {} fs fs2" "dent_at fs2 (butlast l) = Some DDir" by auto
    from not_prefix_butlast [OF ne] evolves_other [OF f2(2), of l] more have "dent_at fs2 l = None" by simp
    with f2 ne lookup_abs [OF f2(1), of "butlast l"] nolinks_evolves [OF f2(2) nl]
    have "fs_mkdir (abs_path l) fs2 = (Inr (), put_ent l DDir fs2)"
      by (simp add: fs_mkdir_def syscall_no_faults c(2) path_file_name_abs entry_of_def abs_path_butlast)
    with c mk more ne show ?thesis
      by (subst fs_create_dir_all.simps) (simp add: path_parent_abs mkdir_or_dir_def)
  qed
qed

section \<open>Directories stay reachable\<close>

lemma walk_stable:
  assumes "tree_wf E" and "E cur = Some DDir" and "walk E n cur cs = Inr (l, True)" and "E l = Some DDir"
    and "\<And>k d. E k = Some d \<Longrightarrow> (\<And>i. d \<noteq> DFile i) \<Longrightarrow> E' k = Some d"
  shows "walk E' n cur cs = Inr (l, True)"
  using assms
proof (induction E n cur cs rule: walk.induct)
  case (5 E n cur cs)
  then show ?case using tree_wf_parent [of E cur] by simp
next
  case (6 E n cur x cs)
  show ?case
  proof (cases "E (cur @ [x])")
    case (Some d)
    show ?thesis
    proof (cases d)
      case DDir
      from Some DDir "6.prems"(3) have "walk E n (cur @ [x]) cs = Inr (l, True)" by simp
      with "6.IH"(1) [OF Some DDir "6.prems"(1) _ _ "6.prems"(4,5)] Some DDir
      have "walk E' n (cur @ [x]) cs = Inr (l, True)" by simp
      with "6.prems"(5) [OF Some] DDir show ?thesis by simp
    next
      case (DFile i)
      with "6.prems"(3,4) Some show ?thesis by (auto split: if_splits)
    next
      case (DSym t)
      from Some DSym "6.prems"(3) obtain m where m: "n = Suc m" by (cases n) simp_all
      with Some DSym "6.prems"(3) have "walk E m cur (path_new t @ cs) = Inr (l, True)" by simp
      from "6.IH"(2) [OF Some DSym m "6.prems"(1,2) this "6.prems"(4,5)]
      have "walk E' m cur (path_new t @ cs) = Inr (l, True)" .
      with "6.prems"(5) [OF Some] DSym m show ?thesis by simp
    qed
  qed (use "6.prems"(3) in \<open>simp split: if_splits\<close>)
qed (auto simp: tree_wf_def)

lemma lookup_dir_evolves:
  assumes "fs_wf fs" "evolves R N I fs fs'" "lookup fs p = Inr (l, DDir)"
  shows "lookup fs' p = Inr (l, DDir)"
proof -
  from assms(3) have loc: "locate fs p = Inr (l, True)" and l: "dent_at fs l = Some DDir"
    by (auto simp: lookup_def split: sum.splits prod.splits if_splits option.splits)
  have "dent_at fs' k = Some d" if "dent_at fs k = Some d" "\<And>i. d \<noteq> DFile i" for k d
    using evolves_kept [OF assms(2) that(1)] that(2) by blast
  from walk_stable [OF fs_wf_tree [OF assms(1)] fs_wf_cwd [OF assms(1)] _ l this] loc
  have "locate fs' p = Inr (l, True)" by (simp add: locate_def evolves_cwd [OF assms(2)])
  with evolves_dir [OF assms(2) l] show ?thesis by (simp add: lookup_def)
qed

section \<open>Directory contents\<close>

lemma children_iff: "fs_wf fs \<Longrightarrow> x \<in> set (children fs l) \<longleftrightarrow> dent_at fs (l @ [x]) \<noteq> None"
proof
  assume wf: "fs_wf fs"
  show "dent_at fs (l @ [x]) \<noteq> None" if "x \<in> set (children fs l)"
  proof -
    from that obtain k d where "(k, d) \<in> set (ents fs)" "k \<noteq> []" "butlast k = l" "last k = x"
      by (auto simp: children_def)
    moreover from this have "k = l @ [x]" using append_butlast_last_id [of k] by simp
    ultimately show ?thesis using dent_at_mem [OF wf, of k d] by simp
  qed
  show "x \<in> set (children fs l)" if "dent_at fs (l @ [x]) \<noteq> None"
  proof -
    from that obtain d where "(l @ [x], d) \<in> set (ents fs)" using dent_at_ents [of fs "l @ [x]"] by auto
    then have "l @ [x] \<in> set (filter (\<lambda>k. k \<noteq> [] \<and> butlast k = l) (map fst (ents fs)))" by force
    then have "last (l @ [x]) \<in> last ` set (filter (\<lambda>k. k \<noteq> [] \<and> butlast k = l) (map fst (ents fs)))"
      by (rule imageI)
    then show ?thesis unfolding children_def by simp
  qed
qed

lemma children_distinct:
  assumes "fs_wf fs"
  shows "distinct (children fs l)"
proof -
  have "distinct (map fst (ents fs))" using assms by (simp add: fs_wf_def)
  moreover have "inj_on last {k. k \<noteq> [] \<and> butlast k = l}"
  proof (rule inj_onI)
    fix j k :: loc
    assume "j \<in> {k. k \<noteq> [] \<and> butlast k = l}" "k \<in> {k. k \<noteq> [] \<and> butlast k = l}" "last j = last k"
    then show "j = k" using append_butlast_last_id [of j] append_butlast_last_id [of k] by simp
  qed
  ultimately show ?thesis
    unfolding children_def by (auto simp: distinct_map intro: inj_on_subset)
qed

lemma lookup_child:
  assumes "fs_wf fs" "lookup fs p = Inr (l, DDir)" "dent_at fs (l @ [x]) = Some DDir"
  shows "lookup fs (p @ [Normal x]) = Inr (l @ [x], DDir)"
proof -
  from assms(2) have "walk (dent_at fs) MAXSYMLINKS (cwd fs) p = Inr (l, True)" and "dent_at fs l = Some DDir"
    by (auto simp: lookup_def locate_def split: sum.splits prod.splits if_splits option.splits)
  from walk_append [OF fs_wf_tree [OF assms(1)] this(1) fs_wf_cwd [OF assms(1)] this(2)]
  have "walk (dent_at fs) MAXSYMLINKS (cwd fs) (p @ [Normal x]) = Inr (l @ [x], True)"
    using assms(3) by auto
  with assms(3) show ?thesis by (simp add: lookup_def locate_def)
qed

end
