(* ===== verification/Crypto.thy ===== *)
theory Crypto
  imports FS_Frame
begin

text \<open>
  \<^verbatim>\<open>src/crypto.rs\<close>: encryption at rest.  The \<^verbatim>\<open>age\<close> crate is not part of the sources; the
  functions of it that the program calls are the fields of the record \<open>age_lib\<close>, a parameter
  of every definition here, and \<open>age_correct\<close> is the one law about it that theorems assume:
  what was encrypted to a recipient is decrypted by the identity of that recipient.

  The streaming interface is kept: \<^verbatim>\<open>wrap_output\<close> takes a random number and emits
  the header, every write of a piece of
  plaintext emits some ciphertext and changes the state of the writer, \<^verbatim>\<open>finish\<close> emits the
  rest.  Readers deliver a list of chunks and then end or fail; the writers are files.
\<close>

record ('r, 'k, 'e, 's, 'd) age_lib =
  recipient_from_str :: "string \<Rightarrow> string + 'r"
  recipient_to_string :: "'r \<Rightarrow> string"
  identity_from_str :: "string \<Rightarrow> string + 'k"
  identity_to_string :: "'k \<Rightarrow> string"
  identity_to_public :: "'k \<Rightarrow> 'r"
  with_recipients :: "'r list \<Rightarrow> string + 'e"
  wrap_output :: "'e \<Rightarrow> nat \<Rightarrow> bytes \<times> 's"
  stream_write :: "'s \<Rightarrow> bytes \<Rightarrow> bytes \<times> 's"
  stream_finish :: "'s \<Rightarrow> bytes"
  decryptor_new :: "bytes \<Rightarrow> string + 'd"
  decrypt_with :: "'d \<Rightarrow> 'k \<Rightarrow> string + bytes list \<times> string option"

text \<open>An asynchronous or blocking reader: the chunks it yields, then end of file or an error.\<close>

type_synonym reader = "bytes list \<times> io_kind option"

datatype crypto_error =
  CRecipient string
| CIdentity string
| CEncrypt string
| CDecrypt string
| CIo io_kind

fun crypto_error_display :: "crypto_error \<Rightarrow> string" where
  "crypto_error_display (CRecipient e) = ''invalid age recipient: '' @ e"
| "crypto_error_display (CIdentity e) = ''invalid age identity: '' @ e"
| "crypto_error_display (CEncrypt e) = ''encryption failed: '' @ e"
| "crypto_error_display (CDecrypt e) = ''decryption failed: '' @ e"
| "crypto_error_display (CIo e) = ''io error: '' @ io_display e"

text \<open>\<^verbatim>\<open>iter().map(..).collect()\<close> into a \<^verbatim>\<open>Result\<close> stops at the first error.\<close>

fun parse_recipients :: "('r, 'k, 'e, 's, 'd) age_lib \<Rightarrow> string list \<Rightarrow> crypto_error + 'r list" where
  "parse_recipients age [] = Inr []"
| "parse_recipients age (s # strs) =
     (case recipient_from_str age (str_trim s) of
        Inl e \<Rightarrow> Inl (CRecipient (s @ '': '' @ e))
      | Inr r \<Rightarrow>
          (case parse_recipients age strs of Inl e \<Rightarrow> Inl e | Inr rs \<Rightarrow> Inr (r # rs)))"

text \<open>\<^verbatim>\<open>Identity::generate\<close> is random: the fresh identity is an argument.\<close>

definition generate_identity :: "('r, 'k, 'e, 's, 'd) age_lib \<Rightarrow> 'k \<Rightarrow> string \<times> string" where
  "generate_identity age idn =
     (recipient_to_string age (identity_to_public age idn), identity_to_string age idn)"

text \<open>Writing through a file descriptor: the inode and the offset.\<close>

definition write_all :: "nat \<times> nat \<Rightarrow> bytes \<Rightarrow> (nat \<times> nat) io" where
  "write_all fd bs fs =
     (case fd of (i, off) \<Rightarrow>
        (case fs_write_at i off bs fs of
           (Inl e, fs) \<Rightarrow> (Inl e, fs)
         | (Inr _, fs) \<Rightarrow> (Inr (i, off + length bs), fs)))"

text \<open>\<^verbatim>\<open>std::io::copy\<close> into the encrypting writer; \<open>n\<close> counts the plaintext bytes.\<close>

fun copy_encrypt ::
    "('r, 'k, 'e, 's, 'd) age_lib \<Rightarrow> 's \<Rightarrow> nat \<times> nat \<Rightarrow> bytes list \<Rightarrow> io_kind option \<Rightarrow> nat \<Rightarrow>
     (nat \<times> 's \<times> (nat \<times> nat)) io" where
  "copy_encrypt age s fd [] err n fs =
     (case err of Some e \<Rightarrow> (Inl e, fs) | None \<Rightarrow> (Inr (n, s, fd), fs))"
| "copy_encrypt age s fd (c # cs) err n fs =
     (case stream_write age s c of (out, s') \<Rightarrow>
        (case write_all fd out fs of
           (Inl e, fs) \<Rightarrow> (Inl e, fs)
         | (Inr fd', fs) \<Rightarrow> copy_encrypt age s' fd' cs err (n + length c) fs))"

definition encrypt_stream ::
    "('r, 'k, 'e, 's, 'd) age_lib \<Rightarrow> 'r list \<Rightarrow> reader \<Rightarrow> nat \<Rightarrow> fs \<Rightarrow> (crypto_error + nat) \<times> fs" where
  "encrypt_stream age recipients rd i fs =
     (case with_recipients age recipients of
        Inl e \<Rightarrow> (Inl (CEncrypt e), fs)
      | Inr encryptor \<Rightarrow>
          (case random_draw fs of (k, fs) \<Rightarrow>
          (case wrap_output age encryptor k of (header, s) \<Rightarrow>
             (case write_all (i, 0) header fs of
                (Inl e, fs) \<Rightarrow> (Inl (CEncrypt (io_display e)), fs)
              | (Inr fd, fs) \<Rightarrow>
                  (case copy_encrypt age s fd (fst rd) (snd rd) 0 fs of
                     (Inl e, fs) \<Rightarrow> (Inl (CIo e), fs)
                   | (Inr (n, s, fd), fs) \<Rightarrow>
                       (case write_all fd (stream_finish age s) fs of
                          (Inl e, fs) \<Rightarrow> (Inl (CEncrypt (io_display e)), fs)
                        | (Inr _, fs) \<Rightarrow>
                            (case fs_flush fs of
                               (Inl e, fs) \<Rightarrow> (Inl (CIo e), fs)
                             | (Inr _, fs) \<Rightarrow> (Inr n, fs))))))))"

text \<open>
  The read loop of \<^verbatim>\<open>decrypt_stream\<close>: a failing read is a decryption error, a failing write an
  I/O error, a read of nothing the end.
\<close>

fun decrypt_loop ::
    "bytes list \<Rightarrow> string option \<Rightarrow> nat \<times> nat \<Rightarrow> nat \<Rightarrow> fs \<Rightarrow> (crypto_error + nat) \<times> fs" where
  "decrypt_loop [] err fd tot fs =
     (case err of Some e \<Rightarrow> (Inl (CDecrypt e), fs) | None \<Rightarrow> (Inr tot, fs))"
| "decrypt_loop (c # cs) err fd tot fs =
     (if c = [] then (Inr tot, fs)
      else
        (case write_all fd c fs of
           (Inl e, fs) \<Rightarrow> (Inl (CIo e), fs)
         | (Inr fd', fs) \<Rightarrow> decrypt_loop cs err fd' (tot + length c) fs))"

definition decrypt_stream ::
    "('r, 'k, 'e, 's, 'd) age_lib \<Rightarrow> 'k \<Rightarrow> bytes \<Rightarrow> nat \<Rightarrow> fs \<Rightarrow> (crypto_error + nat) \<times> fs" where
  "decrypt_stream age identity ct i fs =
     (case decryptor_new age ct of
        Inl e \<Rightarrow> (Inl (CDecrypt e), fs)
      | Inr d \<Rightarrow>
          (case decrypt_with age d identity of
             Inl e \<Rightarrow> (Inl (CDecrypt e), fs)
           | Inr (chunks, err) \<Rightarrow> decrypt_loop chunks err (i, 0) 0 fs))"

section \<open>What the library is relied on for\<close>

text \<open>The ciphertext of a sequence of plaintext chunks.\<close>

fun age_body :: "('r, 'k, 'e, 's, 'd) age_lib \<Rightarrow> 's \<Rightarrow> bytes list \<Rightarrow> bytes" where
  "age_body age s [] = stream_finish age s"
| "age_body age s (c # cs) = (case stream_write age s c of (out, s') \<Rightarrow> out @ age_body age s' cs)"

definition age_ciphertext :: "('r, 'k, 'e, 's, 'd) age_lib \<Rightarrow> 'e \<Rightarrow> nat \<Rightarrow> bytes list \<Rightarrow> bytes" where
  "age_ciphertext age e r cs = (case wrap_output age e r of (header, s) \<Rightarrow> header @ age_body age s cs)"

definition age_correct :: "('r, 'k, 'e, 's, 'd) age_lib \<Rightarrow> bool" where
  "age_correct age \<longleftrightarrow>
     (\<forall>rs e r k cs. with_recipients age rs = Inr e \<longrightarrow> identity_to_public age k \<in> set rs \<longrightarrow>
        (\<exists>d out. decryptor_new age (age_ciphertext age e r cs) = Inr d \<and>
           decrypt_with age d k = Inr (out, None) \<and> [] \<notin> set out \<and> concat out = concat cs))"

section \<open>The streams\<close>

lemma overwrite_end: "overwrite (length old) bs old = old @ bs"
  by (simp add: overwrite_def)

lemma write_all_frame [fs_frame]:
  assumes "write_all (i, off) bs fs = (r, fs')" "fs_wf fs" "i \<in> I" "i < next_ino fs"
    and "off = length (bytes_of fs i)"
  shows "fs_wf fs' \<and> evolves R N I fs fs' \<and> dent_at fs' = dent_at fs \<and> next_ino fs' = next_ino fs \<and>
    (\<forall>fd. r = Inr fd \<longrightarrow> fd = (i, off + length bs) \<and> bytes_of fs' i = bytes_of fs i @ bs)"
proof -
  obtain r1 fs1 where 1: "fs_write_at i off bs fs = (r1, fs1)" by fastforce
  from fs_write_at_frame [OF 1 assms(2-4), of R N] assms(1) 1 show ?thesis
    by (cases r1) (auto simp: write_all_def assms(5) overwrite_end)
qed

text \<open>A write does not depend on the source of random numbers.\<close>

lemma write_all_draws:
  "write_all fd bs (fs\<lparr>draws := n\<rparr>) = (case write_all fd bs fs of (r, fs') \<Rightarrow> (r, fs'\<lparr>draws := n\<rparr>))"
  by (cases fd)
    (auto simp: write_all_def fs_write_at_def syscall_def put_inode_def split: list.splits option.splits)

lemma copy_encrypt_frame:
  assumes "copy_encrypt age s (i, off) cs err n fs = (r, fs')" "fs_wf fs" "i \<in> I" "i < next_ino fs"
    and "off = length (bytes_of fs i)"
  shows "fs_wf fs' \<and> evolves R N I fs fs' \<and> dent_at fs' = dent_at fs \<and> next_ino fs' = next_ino fs \<and>
    (\<forall>m s' fd. r = Inr (m, s', fd) \<longrightarrow> err = None \<and> m = n + length (concat cs) \<and>
       fst fd = i \<and> snd fd = length (bytes_of fs' i) \<and>
       bytes_of fs i @ age_body age s cs = bytes_of fs' i @ stream_finish age s')"
  using assms
proof (induction cs arbitrary: s off n fs)
  case Nil
  then show ?case by (auto split: option.splits)
next
  case (Cons c cs)
  obtain out s1 where w: "stream_write age s c = (out, s1)" by fastforce
  obtain r1 fs1 where 1: "write_all (i, off) out fs = (r1, fs1)" by fastforce
  note f = write_all_frame [OF 1 Cons.prems(2-5), of R N]
  show ?case
  proof (cases r1)
    case (Inl e)
    with Cons.prems(1) w 1 f show ?thesis by auto
  next
    case (Inr fd)
    with f have fd: "r1 = Inr (i, off + length out)" "bytes_of fs1 i = bytes_of fs i @ out" by auto
    with Cons.prems(1) w 1
    have "copy_encrypt age s1 (i, off + length out) cs err (n + length c) fs1 = (r, fs')" by simp
    note g = Cons.IH [OF this]
    from f fd Cons.prems(3-5) have "fs_wf fs1" "i < next_ino fs1" "off + length out = length (bytes_of fs1 i)"
      by auto
    from g [OF this(1) Cons.prems(3) this(2,3)] f fd w show ?thesis
      by (auto intro: evolves_trans)
  qed
qed

text \<open>The end of the encryption: the last chunk and the flush.\<close>

definition encrypt_finish ::
    "('r, 'k, 'e, 's, 'd) age_lib \<Rightarrow> nat \<Rightarrow> 's \<Rightarrow> nat \<times> nat \<Rightarrow> fs \<Rightarrow> (crypto_error + nat) \<times> fs" where
  "encrypt_finish age n s fd fs =
     (case write_all fd (stream_finish age s) fs of
        (Inl e, fs) \<Rightarrow> (Inl (CEncrypt (io_display e)), fs)
      | (Inr _, fs) \<Rightarrow> (case fs_flush fs of (Inl e, fs) \<Rightarrow> (Inl (CIo e), fs) | (Inr _, fs) \<Rightarrow> (Inr n, fs)))"

lemma encrypt_finish_frame:
  assumes "encrypt_finish age n s (i, off) fs = (r, fs')" "fs_wf fs" "i \<in> I" "i < next_ino fs"
    and "off = length (bytes_of fs i)"
  shows "fs_wf fs' \<and> evolves R N I fs fs' \<and> dent_at fs' = dent_at fs \<and> next_ino fs' = next_ino fs \<and>
    (\<forall>m. r = Inr m \<longrightarrow> m = n \<and> bytes_of fs' i = bytes_of fs i @ stream_finish age s)"
proof -
  obtain r1 fs1 where 1: "write_all (i, off) (stream_finish age s) fs = (r1, fs1)" by fastforce
  obtain r2 fs2 where 2: "fs_flush fs1 = (r2, fs2)" by fastforce
  then obtain fl where fl: "fs2 = fs1\<lparr>faults := fl\<rparr>" by (blast dest: fs_flush_state)
  from write_all_frame [OF 1 assms(2-5), of R N] assms(1) 1 2 fl show ?thesis
    by (auto simp: encrypt_finish_def split: sum.splits)
qed

lemma encrypt_stream_frame:
  assumes "encrypt_stream age recipients rd i fs = (r, fs')" "fs_wf fs" "i \<in> I" "i < next_ino fs"
    and "bytes_of fs i = []"
  shows "fs_wf fs' \<and> evolves R N I fs fs' \<and> dent_at fs' = dent_at fs \<and> next_ino fs' = next_ino fs \<and>
    (\<forall>n. r = Inr n \<longrightarrow> snd rd = None \<and> n = length (concat (fst rd)) \<and>
       (\<exists>e k. with_recipients age recipients = Inr e \<and> bytes_of fs' i = age_ciphertext age e k (fst rd)))"
proof (cases "with_recipients age recipients")
  case (Inr e)
  let ?fs = "fs\<lparr>draws := Suc (draws fs)\<rparr>"
  obtain header s where w: "wrap_output age e (draws fs) = (header, s)" by fastforce
  obtain r1 fs1 where 1: "write_all (i, 0) header ?fs = (r1, fs1)" by fastforce
  from write_all_frame [OF 1, of I R N] assms(2-5)
  have f1: "fs_wf fs1 \<and> evolves R N I fs fs1 \<and> dent_at fs1 = dent_at fs \<and> next_ino fs1 = next_ino fs \<and>
      (\<forall>fd. r1 = Inr fd \<longrightarrow> fd = (i, length header) \<and> bytes_of fs1 i = header)" by auto
  show ?thesis
  proof (cases r1)
    case (Inl e1)
    with assms(1,5) Inr w 1 f1 show ?thesis by (auto simp: encrypt_stream_def random_draw_def)
  next
    case Inr1: (Inr fd)
    with f1 have fd: "fd = (i, length header)" "bytes_of fs1 i = header" by auto
    obtain r2 fs2 where 2: "copy_encrypt age s (i, length header) (fst rd) (snd rd) 0 fs1 = (r2, fs2)" by fastforce
    have f2: "fs_wf fs2 \<and> evolves R N I fs1 fs2 \<and> dent_at fs2 = dent_at fs1 \<and> next_ino fs2 = next_ino fs1 \<and>
      (\<forall>m s' fd. r2 = Inr (m, s', fd) \<longrightarrow> snd rd = None \<and> m = 0 + length (concat (fst rd)) \<and>
         fst fd = i \<and> snd fd = length (bytes_of fs2 i) \<and>
         bytes_of fs1 i @ age_body age s (fst rd) = bytes_of fs2 i @ stream_finish age s')"
      by (rule copy_encrypt_frame [OF 2]) (use f1 assms fd in auto)
    show ?thesis
    proof (cases r2)
      case (Inl e2)
      with assms(1) Inr w 1 Inr1 fd(1) 2 have "r = Inl (CIo e2)" "fs' = fs2" by (simp_all add: encrypt_stream_def random_draw_def)
      with f1 f2 evolves_trans [of R N I fs fs1 fs2] show ?thesis by simp
    next
      case Inr2: (Inr x)
      obtain n s2 fd2 where x: "x = (n, s2, fd2)" by (cases x)
      with Inr2 f2 have fd2: "fd2 = (i, length (bytes_of fs2 i))" "snd rd = None" "n = length (concat (fst rd))"
        "bytes_of fs2 i @ stream_finish age s2 = age_ciphertext age e (draws fs) (fst rd)"
        using fd(2) by (auto simp: prod_eq_iff age_ciphertext_def w)
      from assms(1) Inr w 1 Inr1 fd(1) 2 Inr2 x fd2(1) have "encrypt_finish age n s2 (i, length (bytes_of fs2 i)) fs2 = (r, fs')"
        by (simp add: encrypt_stream_def encrypt_finish_def random_draw_def)
      from encrypt_finish_frame [OF this _ assms(3) _ refl, of R N] f1 f2 assms(4) fd2 Inr show ?thesis
        by (auto intro: evolves_trans)
    qed
  qed
qed (use assms in \<open>auto simp: encrypt_stream_def\<close>)

text \<open>A library for examples, whose encryption is a frame around the plaintext.\<close>

definition toy_age :: "(string, string, string list, unit, bytes) age_lib" where
  "toy_age =
     \<lparr>recipient_from_str = (\<lambda>s. if str_starts_with s ''age1'' then Inr s else Inl ''invalid''),
      recipient_to_string = (\<lambda>r. r),
      identity_from_str = (\<lambda>s. if str_starts_with s ''AGE-SECRET-KEY-'' then Inr s else Inl ''invalid''),
      identity_to_string = (\<lambda>k. k),
      identity_to_public = (\<lambda>k. ''age1'' @ k),
      with_recipients = (\<lambda>rs. if rs = [] then Inl ''no recipients'' else Inr rs),
      wrap_output = (\<lambda>e k. (''head'', ())),
      stream_write = (\<lambda>s c. (c, s)),
      stream_finish = (\<lambda>s. ''end''),
      decryptor_new = (\<lambda>ct. if str_starts_with ct ''head'' then Inr (take (length ct - 7) (drop 4 ct)) else Inl ''header''),
      decrypt_with = (\<lambda>d k. Inr (if d = [] then [] else [d], None))\<rparr>"

lemma toy_age_body: "age_body toy_age s cs = concat cs @ ''end''"
  by (induction cs) (simp_all add: toy_age_def)

lemma toy_age_correct: "age_correct toy_age"
proof -
  have "age_ciphertext toy_age e r cs = ''head'' @ concat cs @ ''end''" for e r cs
    by (simp add: age_ciphertext_def toy_age_body) (simp add: toy_age_def)
  then show ?thesis by (auto simp: age_correct_def) (auto simp: toy_age_def str_starts_with_def)
qed

end
