(* ===== verification/Store.thy ===== *)
theory Store
  imports Append Crypto
begin

text \<open>
  The write core of \<^verbatim>\<open>src/backend.rs\<close>: \<^verbatim>\<open>StoreError\<close>, \<^verbatim>\<open>store_stream\<close> and
  \<^verbatim>\<open>store_encrypted\<close>, run to completion by one session.  (Uploads that overlap in time are in
  \<open>Upload_Interleaving\<close>.)  Sizes and offsets are natural numbers: they are compared and reported,
  never computed with at 64 bits.
\<close>

datatype store_error =
  SOverlap
| SGap
| SFinalized
| SIo io_kind

fun store_error_display :: "store_error \<Rightarrow> string" where
  "store_error_display SOverlap = ''overlap: start_pos < staging size''"
| "store_error_display SGap = ''gap: start_pos > staging size''"
| "store_error_display SFinalized = ''file already finalized (no overwrite)''"
| "store_error_display (SIo e) = ''io error: '' @ io_display e"

fun store_error_source :: "store_error \<Rightarrow> io_kind option" where
  "store_error_source (SIo e) = Some e"
| "store_error_source _ = None"

text \<open>
  \<^verbatim>\<open>tokio::io::copy\<close> into a file opened in append mode: every chunk is written at the end of
  the file; at end of input the writer is flushed.
\<close>

fun copy_append :: "nat \<Rightarrow> bytes list \<Rightarrow> io_kind option \<Rightarrow> nat \<Rightarrow> nat io" where
  "copy_append i [] err n fs =
     (case err of
        Some e \<Rightarrow> (Inl e, fs)
      | None \<Rightarrow> (case fs_flush fs of (Inl e, fs) \<Rightarrow> (Inl e, fs) | (Inr _, fs) \<Rightarrow> (Inr n, fs)))"
| "copy_append i (c # cs) err n fs =
     (case fs_append i c fs of
        (Inl e, fs) \<Rightarrow> (Inl e, fs)
      | (Inr _, fs) \<Rightarrow> copy_append i cs err (n + length c) fs)"

text \<open>\<^verbatim>\<open>let _ = tokio::fs::remove_file(&staging).await; return Err(e)\<close>, and the same with a value.\<close>

definition discard :: "path \<Rightarrow> 'a \<Rightarrow> fs \<Rightarrow> 'a \<times> fs" where
  "discard staging r fs = (r, snd (fs_remove_file staging fs))"

text \<open>The publication: a hard link to the final name, which fails if that name exists.\<close>

definition finalize_link :: "path \<Rightarrow> path \<Rightarrow> nat \<Rightarrow> fs \<Rightarrow> (store_error + nat) \<times> fs" where
  "finalize_link staging real_final n fs =
     (case fs_hard_link staging real_final fs of
        (Inr _, fs) \<Rightarrow> discard staging (Inr n) fs
      | (Inl e, fs) \<Rightarrow>
          if e = EAlreadyExists then discard staging (Inl SFinalized) fs
          else discard staging (Inl (SIo e)) fs)"

definition store_stream :: "path \<Rightarrow> nat \<Rightarrow> reader \<Rightarrow> fs \<Rightarrow> (store_error + nat) \<times> fs" where
  "store_stream real_final start_pos input fs =
     (case fs_try_exists real_final fs of
        (Inl e, fs) \<Rightarrow> (Inl (SIo e), fs)
      | (Inr True, fs) \<Rightarrow> (Inl SFinalized, fs)
      | (Inr False, fs) \<Rightarrow>
          (let staging = staging_path real_final;
               st = fs_metadata staging fs;
               size = (case fst st of
                         Inr m \<Rightarrow> Inr (m_len m)
                       | Inl e \<Rightarrow> if e = ENotFound then Inr 0 else Inl e);
               fs = snd st
           in case size of
                Inl e \<Rightarrow> (Inl (SIo e), fs)
              | Inr existing_size \<Rightarrow>
                  (case classify_offset start_pos existing_size of
                     Overlap \<Rightarrow> discard staging (Inl SOverlap) fs
                   | Gap \<Rightarrow> discard staging (Inl SGap) fs
                   | OffOk \<Rightarrow>
                       (case (case path_parent staging of
                                Some parent \<Rightarrow> fs_create_dir_all parent fs
                              | None \<Rightarrow> (Inr (), fs)) of
                          (Inl e, fs) \<Rightarrow> (Inl (SIo e), fs)
                        | (Inr _, fs) \<Rightarrow>
                            (case fs_open_write False staging fs of
                               (Inl e, fs) \<Rightarrow> (Inl (SIo e), fs)
                             | (Inr i, fs) \<Rightarrow>
                                 (case copy_append i (fst input) (snd input) 0 fs of
                                    (Inl e, fs) \<Rightarrow> discard staging (Inl (SIo e)) fs
                                  | (Inr n, fs) \<Rightarrow>
                                      (case fs_flush fs of
                                         (Inl e, fs) \<Rightarrow> (Inl (SIo e), fs)
                                       | (Inr _, fs) \<Rightarrow>
                                           finalize_link staging real_final n fs)))))))"

definition age_suffix :: "path \<Rightarrow> path" where
  "age_suffix p = path_push_os p ''.age''"

text \<open>
  \<^verbatim>\<open>std::io::Error::other(e)\<close> around a \<^verbatim>\<open>CryptoError\<close>.  The blocking task does not panic, so
  the join itself does not fail.
\<close>

definition io_other :: "crypto_error \<Rightarrow> io_kind" where
  "io_other e = EOther (crypto_error_display e)"

definition store_encrypted ::
    "('r, 'k, 'e, 's, 'd) age_lib \<Rightarrow> path \<Rightarrow> 'r list \<Rightarrow> reader \<Rightarrow> fs \<Rightarrow> (store_error + nat) \<times> fs" where
  "store_encrypted age real_final recipients input fs =
     (case fs_try_exists real_final fs of
        (Inr True, fs) \<Rightarrow> (Inl SFinalized, fs)
      | (_, fs) \<Rightarrow>
          (let staging = staging_path real_final
           in case (case path_parent staging of
                      Some parent \<Rightarrow> fs_create_dir_all parent fs
                    | None \<Rightarrow> (Inr (), fs)) of
                (Inl e, fs) \<Rightarrow> (Inl (SIo e), fs)
              | (Inr _, fs) \<Rightarrow>
                  (case fs_open_write True staging fs of
                     (Inl e, fs) \<Rightarrow> (Inl (SIo (io_other (CIo e))), fs)
                   | (Inr i, fs) \<Rightarrow>
                       (case encrypt_stream age recipients input i fs of
                          (Inl e, fs) \<Rightarrow> (Inl (SIo (io_other e)), fs)
                        | (Inr n, fs) \<Rightarrow> finalize_link staging real_final n fs))))"

section \<open>Locations\<close>

definition stg :: "loc \<Rightarrow> loc" where
  "stg l = butlast l @ [last l @ STAGING_SUFFIX]"

lemma stg_simps [simp]: "stg l \<noteq> []" "butlast (stg l) = butlast l" "last (stg l) = last l @ STAGING_SUFFIX"
  by (simp_all add: stg_def)

lemma stg_neq [simp]: "l \<noteq> [] \<Longrightarrow> stg l \<noteq> l" "l \<noteq> [] \<Longrightarrow> l \<noteq> stg l"
  by (metis append_self_conv STAGING_SUFFIX_neq_Nil stg_simps(3))+

lemma stg_inj: "l \<noteq> [] \<Longrightarrow> m \<noteq> [] \<Longrightarrow> stg l = stg m \<longleftrightarrow> l = m"
  by (metis append_butlast_last_id append_same_eq stg_simps(2,3))

lemma staging_path_abs: "l \<noteq> [] \<Longrightarrow> staging_path (abs_path l) = abs_path (stg l)"
  by (cases l rule: rev_cases) (simp_all add: abs_path_snoc staging_path_snoc stg_def)

lemma staging_parent_abs: "path_parent (abs_path (stg l)) = Some (abs_path (butlast l))"
  by (simp add: path_parent_abs)

text \<open>The locations an upload to \<open>l\<close> may create, and the inodes it may write.\<close>

definition upload_ents :: "loc \<Rightarrow> loc set" where
  "upload_ents l = insert l (insert (stg l) (dirs_to (butlast l)))"

definition upload_inodes :: "fs \<Rightarrow> loc \<Rightarrow> nat set" where
  "upload_inodes fs l = {i. dent_at fs (stg l) = Some (DFile i)} \<union> {i. next_ino fs \<le> i}"

definition upload_ok :: "fs \<Rightarrow> loc \<Rightarrow> bool" where
  "upload_ok fs l \<longleftrightarrow> fs_wf fs \<and> l \<noteq> [] \<and> nolinks fs l \<and> nolinks fs (stg l)"

text \<open>The effect of an upload so far, and the invariant that its next call relies on.\<close>

definition up_inv :: "fs \<Rightarrow> loc \<Rightarrow> fs \<Rightarrow> bool" where
  "up_inv fs0 l fs \<longleftrightarrow>
     upload_ok fs l \<and> evolves {stg l} (upload_ents l) (upload_inodes fs0 l) fs0 fs"

lemma up_inv_refl: "upload_ok fs l \<Longrightarrow> up_inv fs l fs"
  by (simp add: up_inv_def)

lemma up_inv_faults [simp]: "up_inv fs0 l (fs\<lparr>faults := fl\<rparr>) = up_inv fs0 l fs"
  by (simp add: up_inv_def upload_ok_def)

lemma up_inv_step:
  assumes "up_inv fs0 l fs" "fs_wf fs'" "evolves R N I fs fs'"
    and "R \<subseteq> {stg l}" "N \<subseteq> upload_ents l" "I \<subseteq> upload_inodes fs0 l"
  shows "up_inv fs0 l fs'"
proof -
  have "evolves {stg l} (upload_ents l) (upload_inodes fs0 l) fs fs'"
    using assms(3-6) by (rule evolves_mono)
  with assms(1,2) show ?thesis
    unfolding up_inv_def upload_ok_def by (blast intro: evolves_trans nolinks_evolves)
qed

lemma up_inv_inodes:
  assumes "up_inv fs0 l fs"
  shows "next_ino fs \<in> upload_inodes fs0 l"
    and "dent_at fs (stg l) = Some (DFile i) \<Longrightarrow> i \<in> upload_inodes fs0 l"
proof -
  from assms have ev: "evolves {stg l} (upload_ents l) (upload_inodes fs0 l) fs0 fs"
    by (simp add: up_inv_def)
  from evolves_next [OF this] show "next_ino fs \<in> upload_inodes fs0 l" by (simp add: upload_inodes_def)
  show "i \<in> upload_inodes fs0 l" if "dent_at fs (stg l) = Some (DFile i)"
    using evolves_file [OF ev that] by (auto simp: upload_inodes_def)
qed

section \<open>The calls of an upload\<close>

lemma up_inv_elims:
  assumes "up_inv fs0 l fs"
  shows "fs_wf fs" "l \<noteq> []" "nolinks fs l" "nolinks fs (stg l)"
    "evolves {stg l} (upload_ents l) (upload_inodes fs0 l) fs0 fs"
  using assms by (simp_all add: up_inv_def upload_ok_def)

lemma stg_not_dir: "stg l \<notin> dirs_to (butlast l)" "l \<noteq> [] \<Longrightarrow> l \<notin> dirs_to (butlast l)"
  using not_prefix_butlast [of "stg l"] not_prefix_butlast [of l] by simp_all

lemma up_mkdirs:
  assumes inv: "up_inv fs0 l fs" and "fs_create_dir_all (abs_path (butlast l)) fs = (r, fs')"
  shows "up_inv fs0 l fs' \<and> evolves {} (dirs_to (butlast l)) {} fs fs' \<and>
    (r = Inr () \<longrightarrow> dent_at fs' (butlast l) = Some DDir)"
proof -
  note f = fs_create_dir_all_frame [OF assms(2) up_inv_elims(1) [OF inv]
      nolinks_butlast [OF up_inv_elims(3) [OF inv]], of "{}" "{}"]
  then have "up_inv fs0 l fs'" by (intro up_inv_step [OF inv]) (auto simp: upload_ents_def)
  with f show ?thesis by blast
qed

lemma up_open:
  assumes inv: "up_inv fs0 l fs" and "fs_open_write trunc (abs_path (stg l)) fs = (r, fs')"
  shows "up_inv fs0 l fs' \<and> (\<forall>i. r = Inr i \<longrightarrow> dent_at fs' (stg l) = Some (DFile i) \<and>
    i \<in> upload_inodes fs0 l \<and> i < next_ino fs' \<and>
    bytes_of fs' i = (if trunc \<or> dent_at fs (stg l) = None then [] else bytes_of fs i) \<and>
    (dent_at fs (stg l) = Some (DFile i) \<or> dent_at fs (stg l) = None \<and> i = next_ino fs))"
proof -
  note e = up_inv_elims [OF inv]
  note f = fs_open_write_frame [OF assms(2) e(1,4) stg_simps(1) up_inv_inodes(1) [OF inv]
      up_inv_inodes(2) [OF inv], of "{}"]
  then have "up_inv fs0 l fs'" by (intro up_inv_step [OF inv]) (auto simp: upload_ents_def)
  with f show ?thesis by blast
qed

lemma up_append:
  assumes inv: "up_inv fs0 l fs" and "fs_append i bs fs = (r, fs')"
    and "i \<in> upload_inodes fs0 l" "i < next_ino fs"
  shows "up_inv fs0 l fs' \<and> dent_at fs' = dent_at fs \<and> next_ino fs' = next_ino fs \<and>
    bytes_of fs' i = (if r = Inr () then bytes_of fs i @ bs else bytes_of fs i)"
proof -
  note f = fs_append_frame [OF assms(2) up_inv_elims(1) [OF inv] assms(3,4), of "{}" "{}"]
  then have "up_inv fs0 l fs'" by (intro up_inv_step [OF inv]) auto
  with f show ?thesis by blast
qed

lemma up_encrypt:
  assumes inv: "up_inv fs0 l fs" and "encrypt_stream age recipients rd i fs = (r, fs')"
    and "i \<in> upload_inodes fs0 l" "i < next_ino fs" "bytes_of fs i = []"
  shows "up_inv fs0 l fs' \<and> dent_at fs' = dent_at fs \<and>
    (\<forall>n. r = Inr n \<longrightarrow> snd rd = None \<and> n = length (concat (fst rd)) \<and>
       (\<exists>e k. with_recipients age recipients = Inr e \<and> bytes_of fs' i = age_ciphertext age e k (fst rd)))"
proof -
  note f = encrypt_stream_frame [OF assms(2) up_inv_elims(1) [OF inv] assms(3-5), of "{}" "{}"]
  then have "up_inv fs0 l fs'" by (intro up_inv_step [OF inv]) auto
  with f show ?thesis by blast
qed

lemma up_remove:
  assumes inv: "up_inv fs0 l fs" and "fs_remove_file (abs_path (stg l)) fs = (r, fs')"
  shows "up_inv fs0 l fs' \<and> evolves {stg l} {} {} fs fs' \<and>
    (r = Inr () \<longrightarrow> dent_at fs' (stg l) = None) \<and>
    (dent_at fs' (stg l) = None \<or> dent_at fs' (stg l) = dent_at fs (stg l))"
proof -
  note f = fs_remove_file_frame [OF assms(2) up_inv_elims(1,4) [OF inv] stg_simps(1), of "{}" "{}"]
  then have "up_inv fs0 l fs'" by (intro up_inv_step [OF inv]) auto
  with f show ?thesis by blast
qed

lemma up_link:
  assumes inv: "up_inv fs0 l fs" and "fs_hard_link (abs_path (stg l)) (abs_path l) fs = (r, fs')"
  shows "up_inv fs0 l fs' \<and> inodes fs' = inodes fs \<and>
    (r = Inr () \<longrightarrow> dent_at fs l = None \<and>
       (\<exists>i. dent_at fs (stg l) = Some (DFile i) \<and> dent_at fs' = (dent_at fs)(l \<mapsto> DFile i)))"
proof -
  note e = up_inv_elims [OF inv]
  note f = fs_hard_link_frame [OF assms(2) e(1,4) stg_simps(1) e(3,2) up_inv_inodes(2) [OF inv], of "{}"]
  then have "up_inv fs0 l fs'" by (intro up_inv_step [OF inv]) (auto simp: upload_ents_def)
  with f show ?thesis by blast
qed

lemma up_discard:
  assumes inv: "up_inv fs0 l fs" and "discard (abs_path (stg l)) x fs = (r, fs')"
  shows "r = x \<and> up_inv fs0 l fs' \<and> evolves {stg l} {} {} fs fs' \<and>
    (dent_at fs' (stg l) = None \<or> dent_at fs' (stg l) = dent_at fs (stg l))"
  using up_remove [OF inv, of "fst (fs_remove_file (abs_path (stg l)) fs)" fs'] assms(2)
  by (auto simp: discard_def)

text \<open>A finished upload: the name is bound to a file with these bytes, which it was not before.\<close>

definition published :: "fs \<Rightarrow> loc \<Rightarrow> bytes \<Rightarrow> fs \<Rightarrow> bool" where
  "published fs0 l bs fs \<longleftrightarrow> dent_at fs0 l = None \<and>
     (\<exists>i. dent_at fs l = Some (DFile i) \<and> i \<in> upload_inodes fs0 l \<and> bytes_of fs i = bs \<and>
        (dent_at fs (stg l) = None \<or> dent_at fs (stg l) = Some (DFile i)))"

lemma up_inv_absent:
  "up_inv fs0 l fs \<Longrightarrow> dent_at fs l = None \<Longrightarrow> dent_at fs0 l = None"
  using up_inv_elims(2,5) [of fs0 l fs] evolves_kept [of "{stg l}" _ _ fs0 fs l] by fastforce

lemma up_finalize:
  assumes inv: "up_inv fs0 l fs" and "finalize_link (abs_path (stg l)) (abs_path l) n fs = (r, fs')"
    and i: "dent_at fs (stg l) = Some (DFile i)"
  shows "up_inv fs0 l fs' \<and> (\<forall>m. r = Inr m \<longrightarrow> m = n \<and> published fs0 l (bytes_of fs i) fs')"
proof -
  obtain r1 fs1 where 1: "fs_hard_link (abs_path (stg l)) (abs_path l) fs = (r1, fs1)" by fastforce
  note f = up_link [OF inv 1]
  then have inv1: "up_inv fs0 l fs1" by simp
  show ?thesis
  proof (cases r1)
    case (Inl e)
    with assms(2) 1 up_discard [OF inv1] show ?thesis
      by (fastforce simp: finalize_link_def split: if_splits)
  next
    case (Inr u)
    with assms(2) 1 have "discard (abs_path (stg l)) (Inr n) fs1 = (r, fs')"
      by (simp add: finalize_link_def)
    from up_discard [OF inv1 this] have d: "r = Inr n" "up_inv fs0 l fs'" "evolves {stg l} {} {} fs1 fs'"
      "dent_at fs' (stg l) = None \<or> dent_at fs' (stg l) = dent_at fs1 (stg l)" by simp_all
    note ne = up_inv_elims(2) [OF inv]
    from f Inr i have l: "dent_at fs l = None" "dent_at fs1 = (dent_at fs)(l \<mapsto> DFile i)" by auto
    then have "dent_at fs' l = Some (DFile i)"
      using evolves_other [OF d(3), of l] ne by simp
    moreover have "dent_at fs' (stg l) = None \<or> dent_at fs' (stg l) = Some (DFile i)"
      using d(4) l(2) i ne by auto
    moreover have "bytes_of fs' i = bytes_of fs i"
      using evolves_bytes [OF d(3), of i] f by (simp add: bytes_of_def)
    ultimately have "published fs0 l (bytes_of fs i) fs'"
      using up_inv_absent [OF inv l(1)] up_inv_inodes(2) [OF inv i] by (auto simp: published_def)
    with d show ?thesis by simp
  qed
qed

lemma up_copy:
  assumes "up_inv fs0 l fs" and "copy_append i cs err n fs = (r, fs')"
    and "i \<in> upload_inodes fs0 l" "i < next_ino fs"
  shows "up_inv fs0 l fs' \<and> dent_at fs' = dent_at fs \<and>
    (\<forall>m. r = Inr m \<longrightarrow> err = None \<and> m = n + length (concat cs) \<and>
       bytes_of fs' i = bytes_of fs i @ concat cs)"
  using assms
proof (induction cs arbitrary: n fs)
  case Nil
  then show ?case
    by (cases "fs_flush fs") (auto split: option.splits sum.splits dest!: fs_flush_state)
next
  case (Cons c cs)
  obtain r1 fs1 where 1: "fs_append i c fs = (r1, fs1)" by fastforce
  note f = up_append [OF Cons.prems(1) 1 Cons.prems(3,4)]
  show ?case
  proof (cases r1)
    case (Inl e)
    with Cons.prems(2) 1 f show ?thesis by auto
  next
    case (Inr u)
    with Cons.prems(2) 1 have eq: "copy_append i cs err (n + length c) fs1 = (r, fs')" by simp
    from f Inr Cons.prems(4) have g: "up_inv fs0 l fs1" "i < next_ino fs1"
      "dent_at fs1 = dent_at fs" "bytes_of fs1 i = bytes_of fs i @ c" by simp_all
    from Cons.IH [OF g(1) eq Cons.prems(3) g(2)] g(3,4) show ?thesis by (simp add: add.assoc)
  qed
qed

section \<open>A whole upload\<close>

definition staged :: "fs \<Rightarrow> loc \<Rightarrow> bytes" where
  "staged fs l = (case dent_at fs (stg l) of Some (DFile i) \<Rightarrow> bytes_of fs i | _ \<Rightarrow> [])"

lemma staged_faults [simp]: "staged (fs\<lparr>faults := fl\<rparr>) l = staged fs l"
  by (auto simp: staged_def split: option.splits dent.splits)

definition stat_size :: "io_kind + file_meta \<Rightarrow> io_kind + nat" where
  "stat_size st =
     (case st of Inr mt \<Rightarrow> Inr (m_len mt) | Inl e \<Rightarrow> if e = ENotFound then Inr 0 else Inl e)"

lemma stat_staging:
  assumes "fs_metadata (abs_path (stg l)) fs = (st, fs')" "up_inv fs0 l fs" "stat_size st = Inr n"
  shows "n = length (staged fs l) \<or> dent_at fs (stg l) = Some DDir"
proof -
  note e = up_inv_elims [OF assms(2)]
  show ?thesis
  proof (cases st)
    case (Inl x)
    with assms(3) have "x = ENotFound" "n = 0" by (auto simp: stat_size_def split: if_splits)
    with fs_metadata_ENotFound [OF _ e(1,4)] assms(1) Inl show ?thesis by (simp add: staged_def)
  next
    case (Inr mt)
    with fs_metadata_Inr [OF _ e(1,4)] assms(1,3) e(4) show ?thesis
      by (auto simp: staged_def stat_size_def meta_of_def nolinks_def split: dent.splits)
  qed
qed

text \<open>The part of \<^verbatim>\<open>store_stream\<close> after the offset has been accepted.\<close>

definition store_accepted :: "loc \<Rightarrow> reader \<Rightarrow> fs \<Rightarrow> (store_error + nat) \<times> fs" where
  "store_accepted l input fs =
     (case fs_create_dir_all (abs_path (butlast l)) fs of
        (Inl e, fs) \<Rightarrow> (Inl (SIo e), fs)
      | (Inr _, fs) \<Rightarrow>
          (case fs_open_write False (abs_path (stg l)) fs of
             (Inl e, fs) \<Rightarrow> (Inl (SIo e), fs)
           | (Inr i, fs) \<Rightarrow>
               (case copy_append i (fst input) (snd input) 0 fs of
                  (Inl e, fs) \<Rightarrow> discard (abs_path (stg l)) (Inl (SIo e)) fs
                | (Inr n, fs) \<Rightarrow>
                    (case fs_flush fs of
                       (Inl e, fs) \<Rightarrow> (Inl (SIo e), fs)
                     | (Inr _, fs) \<Rightarrow> finalize_link (abs_path (stg l)) (abs_path l) n fs))))"

lemma store_stream_abs:
  assumes "l \<noteq> []"
  shows "store_stream (abs_path l) start_pos input fs =
     (case fs_try_exists (abs_path l) fs of
        (Inl e, fs) \<Rightarrow> (Inl (SIo e), fs)
      | (Inr True, fs) \<Rightarrow> (Inl SFinalized, fs)
      | (Inr False, fs) \<Rightarrow>
          (case fs_metadata (abs_path (stg l)) fs of (st, fs) \<Rightarrow>
             (case stat_size st of
                Inl e \<Rightarrow> (Inl (SIo e), fs)
              | Inr existing_size \<Rightarrow>
                  (case classify_offset start_pos existing_size of
                     Overlap \<Rightarrow> discard (abs_path (stg l)) (Inl SOverlap) fs
                   | Gap \<Rightarrow> discard (abs_path (stg l)) (Inl SGap) fs
                   | OffOk \<Rightarrow> store_accepted l input fs))))"
  unfolding store_stream_def Let_def stat_size_def store_accepted_def staging_path_abs [OF assms]
    staging_parent_abs option.case split_beta
  by (rule refl)

text \<open>The part after the staging file has been opened.\<close>

definition store_opened :: "loc \<Rightarrow> nat \<Rightarrow> reader \<Rightarrow> fs \<Rightarrow> (store_error + nat) \<times> fs" where
  "store_opened l i input fs =
     (case copy_append i (fst input) (snd input) 0 fs of
        (Inl e, fs) \<Rightarrow> discard (abs_path (stg l)) (Inl (SIo e)) fs
      | (Inr n, fs) \<Rightarrow>
          (case fs_flush fs of
             (Inl e, fs) \<Rightarrow> (Inl (SIo e), fs)
           | (Inr _, fs) \<Rightarrow> finalize_link (abs_path (stg l)) (abs_path l) n fs))"

lemma store_opened_inv:
  assumes inv: "up_inv fs0 l fs" and i: "i \<in> upload_inodes fs0 l" "i < next_ino fs" "dent_at fs (stg l) = Some (DFile i)"
    and run: "store_opened l i input fs = (r, fs')"
  shows "up_inv fs0 l fs' \<and> (\<forall>n. r = Inr n \<longrightarrow> snd input = None \<and> n = length (concat (fst input)) \<and>
    published fs0 l (bytes_of fs i @ concat (fst input)) fs')"
proof -
  obtain r1 fs1 where 1: "copy_append i (fst input) (snd input) 0 fs = (r1, fs1)" by fastforce
  note f1 = up_copy [OF inv 1 i(1,2)]
  then have inv1: "up_inv fs0 l fs1" by simp
  show ?thesis
  proof (cases r1)
    case (Inl e)
    with 1 run have "discard (abs_path (stg l)) (Inl (SIo e)) fs1 = (r, fs')" by (simp add: store_opened_def)
    from up_discard [OF inv1 this] show ?thesis by simp
  next
    case (Inr n)
    obtain r2 fs2 where 2: "fs_flush fs1 = (r2, fs2)" by fastforce
    then obtain fl where fl: "fs2 = fs1\<lparr>faults := fl\<rparr>" by (blast dest: fs_flush_state)
    with inv1 have inv2: "up_inv fs0 l fs2" by simp
    show ?thesis
    proof (cases r2)
      case Inr2: (Inr v)
      with 1 2 Inr run have fin: "finalize_link (abs_path (stg l)) (abs_path l) n fs2 = (r, fs')"
        by (simp add: store_opened_def)
      have "dent_at fs2 (stg l) = Some (DFile i)" using f1 i(3) fl by simp
      from up_finalize [OF inv2 fin this] f1 Inr fl show ?thesis by simp
    qed (use 1 2 Inr run inv2 in \<open>auto simp: store_opened_def\<close>)
  qed
qed

lemma store_accepted_inv:
  assumes inv: "up_inv fs0 l fs" and run: "store_accepted l input fs = (r, fs')"
  shows "up_inv fs0 l fs' \<and> (\<forall>n. r = Inr n \<longrightarrow> snd input = None \<and> n = length (concat (fst input)) \<and>
    dent_at fs (stg l) \<noteq> Some DDir \<and> published fs0 l (staged fs l @ concat (fst input)) fs')"
proof -
  obtain r1 fs1 where 1: "fs_create_dir_all (abs_path (butlast l)) fs = (r1, fs1)" by fastforce
  note f1 = up_mkdirs [OF inv 1]
  then have inv1: "up_inv fs0 l fs1" by simp
  obtain r2 fs2 where 2: "fs_open_write False (abs_path (stg l)) fs1 = (r2, fs2)" by fastforce
  note f2 = up_open [OF inv1 2]
  show ?thesis
  proof (cases "\<exists>i. r1 = Inr () \<and> r2 = Inr i")
    case True
    then obtain i where i: "r1 = Inr ()" "r2 = Inr i" by blast
    with 1 2 run have op: "store_opened l i input fs2 = (r, fs')"
      by (simp add: store_accepted_def store_opened_def)
    have "dent_at fs1 (stg l) = dent_at fs (stg l)"
      using evolves_other [of "{}" "dirs_to (butlast l)" "{}" fs fs1] f1 stg_not_dir(1) by simp
    then have "bytes_of fs2 i = staged fs l" and "dent_at fs (stg l) \<noteq> Some DDir"
      using f2 i(2) evolves_bytes [of "{}" "dirs_to (butlast l)" "{}" fs fs1 i] f1 by (auto simp: staged_def)
    with store_opened_inv [OF _ _ _ _ op, of fs0] f2 i(2) show ?thesis by simp
  next
    case False
    with 1 2 run f1 f2 show ?thesis by (auto simp: store_accepted_def split: sum.splits)
  qed
qed

lemma store_stream_inv:
  assumes ok: "upload_ok fs l" and run: "store_stream (abs_path l) start_pos input fs = (r, fs')"
  shows "up_inv fs l fs' \<and> (\<forall>n. r = Inr n \<longrightarrow> snd input = None \<and> n = length (concat (fst input)) \<and>
    start_pos = length (staged fs l) \<and> published fs l (staged fs l @ concat (fst input)) fs')"
proof -
  note inv = up_inv_refl [OF ok]
  note e = up_inv_elims [OF inv]
  obtain r1 fs1 where 1: "fs_try_exists (abs_path l) fs = (r1, fs1)" by fastforce
  then obtain fl1 where fl1: "fs1 = fs\<lparr>faults := fl1\<rparr>" by (blast dest: fs_try_exists_state)
  with inv have inv1: "up_inv fs l fs1" by simp
  obtain st fs2 where 2: "fs_metadata (abs_path (stg l)) fs1 = (st, fs2)" by fastforce
  then obtain fl2 where fl2: "fs2 = fs1\<lparr>faults := fl2\<rparr>" by (blast dest: fs_metadata_state)
  with inv1 have inv2: "up_inv fs l fs2" by simp
  have staged: "staged fs1 l = staged fs l" "staged fs2 l = staged fs l"
    using fl1 fl2 by simp_all
  show ?thesis
  proof (cases "r1 = Inr False \<and> stat_size st = Inr start_pos")
    case True
    with run 1 2 have "store_accepted l input fs2 = (r, fs')"
      by (simp add: store_stream_abs [OF e(2)] classify_offset_def)
    from store_accepted_inv [OF inv2 this] stat_staging [OF 2 inv1] True staged fl1 fl2 show ?thesis by auto
  next
    case False
    consider "r1 \<noteq> Inr False" | "r1 = Inr False" "\<exists>x. stat_size st = Inl x"
      | n where "r1 = Inr False" "stat_size st = Inr n" "n \<noteq> start_pos"
      using False by (cases "stat_size st") auto
    then show ?thesis
    proof cases
      case refused: 1
      with run 1 inv1 show ?thesis
        by (auto simp: store_stream_abs [OF e(2)] split: sum.splits bool.splits)
    next
      case stat_failed: 2
      with run 1 2 inv2 show ?thesis by (auto simp: store_stream_abs [OF e(2)])
    next
      case 3
      with run 1 2 obtain x where "discard (abs_path (stg l)) (Inl x) fs2 = (r, fs')"
        by (auto simp: store_stream_abs [OF e(2)] classify_offset_def split: if_splits)
      from up_discard [OF inv2 this] show ?thesis by simp
    qed
  qed
qed

text \<open>The same for \<^verbatim>\<open>store_encrypted\<close>.\<close>

definition encrypt_accepted ::
    "('r, 'k, 'e, 's, 'd) age_lib \<Rightarrow> loc \<Rightarrow> 'r list \<Rightarrow> reader \<Rightarrow> fs \<Rightarrow> (store_error + nat) \<times> fs" where
  "encrypt_accepted age l recipients input fs =
     (case fs_create_dir_all (abs_path (butlast l)) fs of
        (Inl e, fs) \<Rightarrow> (Inl (SIo e), fs)
      | (Inr _, fs) \<Rightarrow>
          (case fs_open_write True (abs_path (stg l)) fs of
             (Inl e, fs) \<Rightarrow> (Inl (SIo (io_other (CIo e))), fs)
           | (Inr i, fs) \<Rightarrow>
               (case encrypt_stream age recipients input i fs of
                  (Inl e, fs) \<Rightarrow> (Inl (SIo (io_other e)), fs)
                | (Inr n, fs) \<Rightarrow> finalize_link (abs_path (stg l)) (abs_path l) n fs)))"

lemma store_encrypted_abs:
  assumes "l \<noteq> []"
  shows "store_encrypted age (abs_path l) recipients input fs =
     (case fs_try_exists (abs_path l) fs of (x, fs) \<Rightarrow>
        if x = Inr True then (Inl SFinalized, fs) else encrypt_accepted age l recipients input fs)"
proof -
  obtain x fs1 where "fs_try_exists (abs_path l) fs = (x, fs1)" by fastforce
  then show ?thesis
    unfolding store_encrypted_def Let_def encrypt_accepted_def staging_path_abs [OF assms]
      staging_parent_abs option.case
    by (cases x) (simp_all split: bool.splits)
qed

lemma encrypt_accepted_inv:
  assumes inv: "up_inv fs0 l fs" and run: "encrypt_accepted age l recipients input fs = (r, fs')"
  shows "up_inv fs0 l fs' \<and> (\<forall>n. r = Inr n \<longrightarrow> snd input = None \<and> n = length (concat (fst input)) \<and>
    (\<exists>e k. with_recipients age recipients = Inr e \<and> published fs0 l (age_ciphertext age e k (fst input)) fs'))"
proof -
  obtain r1 fs1 where 1: "fs_create_dir_all (abs_path (butlast l)) fs = (r1, fs1)" by fastforce
  then have inv1: "up_inv fs0 l fs1" by (simp add: up_mkdirs [OF inv])
  show ?thesis
  proof (cases r1)
    case (Inr u)
    obtain r2 fs2 where 2: "fs_open_write True (abs_path (stg l)) fs1 = (r2, fs2)" by fastforce
    note f2 = up_open [OF inv1 2]
    then have inv2: "up_inv fs0 l fs2" by simp
    show ?thesis
    proof (cases r2)
      case Inr2: (Inr i)
      with f2 have i: "i \<in> upload_inodes fs0 l" "i < next_ino fs2" "bytes_of fs2 i = []" by simp_all
      obtain r3 fs3 where 3: "encrypt_stream age recipients input i fs2 = (r3, fs3)" by fastforce
      note f3 = up_encrypt [OF inv2 3 i]
      then have inv3: "up_inv fs0 l fs3" by simp
      show ?thesis
      proof (cases r3)
        case Inr3: (Inr n)
        with 1 2 3 Inr Inr2 run
        have fin: "finalize_link (abs_path (stg l)) (abs_path l) n fs3 = (r, fs')"
          by (simp add: encrypt_accepted_def)
        have "dent_at fs3 (stg l) = Some (DFile i)" using f2 f3 Inr2 by simp
        from up_finalize [OF inv3 fin this] f3 Inr3 show ?thesis by fastforce
      qed (use 1 2 3 Inr Inr2 run inv3 in \<open>auto simp: encrypt_accepted_def\<close>)
    qed (use 1 2 Inr run inv2 in \<open>auto simp: encrypt_accepted_def\<close>)
  qed (use 1 run inv1 in \<open>auto simp: encrypt_accepted_def\<close>)
qed

lemma store_encrypted_inv:
  assumes ok: "upload_ok fs l" and run: "store_encrypted age (abs_path l) recipients input fs = (r, fs')"
  shows "up_inv fs l fs' \<and> (\<forall>n. r = Inr n \<longrightarrow> snd input = None \<and> n = length (concat (fst input)) \<and>
    (\<exists>e k. with_recipients age recipients = Inr e \<and> published fs l (age_ciphertext age e k (fst input)) fs'))"
proof -
  note inv = up_inv_refl [OF ok]
  obtain r1 fs1 where 1: "fs_try_exists (abs_path l) fs = (r1, fs1)" by fastforce
  then obtain fl1 where "fs1 = fs\<lparr>faults := fl1\<rparr>" by (blast dest: fs_try_exists_state)
  with inv have inv1: "up_inv fs l fs1" by simp
  from run 1
  have "(r, fs') = (if r1 = Inr True then (Inl SFinalized, fs1) else encrypt_accepted age l recipients input fs1)"
    unfolding store_encrypted_abs [OF up_inv_elims(2) [OF inv]] by simp
  with inv1 encrypt_accepted_inv [OF inv1, of age recipients input r fs'] show ?thesis
    by (cases "r1 = Inr True") simp_all
qed

section \<open>The contract of an upload\<close>

text \<open>
  Abstractly the archive is a map from locations to the bytes of regular files, and an upload is
  one atomic update of it: an existing name is refused; the offset has to continue what was staged,
  otherwise the staged part is dropped; a complete transfer replaces the staged part by the file.
\<close>

definition content :: "fs \<Rightarrow> loc \<Rightarrow> bytes option" where
  "content fs k = (case dent_at fs k of Some (DFile i) \<Rightarrow> Some (bytes_of fs i) | _ \<Rightarrow> None)"

definition spec_store ::
    "(loc \<Rightarrow> bytes option) \<Rightarrow> loc \<Rightarrow> nat \<Rightarrow> reader \<Rightarrow> (store_error + nat) \<times> (loc \<Rightarrow> bytes option)" where
  "spec_store C l start_pos input =
     (if C l \<noteq> None then (Inl SFinalized, C)
      else
        (let old = (case C (stg l) of None \<Rightarrow> [] | Some b \<Rightarrow> b); C' = C(stg l := None)
         in if start_pos < length old then (Inl SOverlap, C')
            else if length old < start_pos then (Inl SGap, C')
            else
              (case snd input of
                 Some e \<Rightarrow> (Inl (SIo e), C')
               | None \<Rightarrow> (Inr (length (concat (fst input))), C'(l \<mapsto> old @ concat (fst input))))))"

definition unaliased :: "fs \<Rightarrow> loc \<Rightarrow> bool" where
  "unaliased fs l \<longleftrightarrow> (\<forall>k i. dent_at fs l = Some (DFile i) \<longrightarrow> dent_at fs k = Some (DFile i) \<longrightarrow> k = l)"

text \<open>Nothing but regular files at the two names, and room for the directories above them.\<close>

definition upload_room :: "fs \<Rightarrow> loc \<Rightarrow> bool" where
  "upload_room fs l \<longleftrightarrow> fs_wf fs \<and> l \<noteq> [] \<and> room_for_dir fs (butlast l) \<and>
     (\<forall>k \<in> {l, stg l}. dent_at fs k = None \<or> (\<exists>i. dent_at fs k = Some (DFile i))) \<and>
     unaliased fs (stg l)"

lemma content_Some: "content fs k = Some b \<longleftrightarrow> (\<exists>i. dent_at fs k = Some (DFile i) \<and> b = bytes_of fs i)"
  by (auto simp: content_def split: option.splits dent.splits)

lemma content_faults [simp]: "content (fs\<lparr>faults := fl\<rparr>) = content fs" "content (fs\<lparr>draws := n\<rparr>) = content fs"
  by (auto simp: content_def fun_eq_iff split: option.splits dent.splits)

text \<open>A name holds the same file with the same bytes, or no file before and after.\<close>

definition same_file :: "fs \<Rightarrow> fs \<Rightarrow> loc \<Rightarrow> bool" where
  "same_file fs fs' k \<longleftrightarrow> content fs' k = content fs k \<and>
     (\<forall>i. dent_at fs' k = Some (DFile i) \<longleftrightarrow> dent_at fs k = Some (DFile i)) \<and>
     (dent_at fs k = Some DDir \<longrightarrow> dent_at fs' k = Some DDir)"

lemma same_file_trans: "same_file fs fs1 k \<Longrightarrow> same_file fs1 fs2 k \<Longrightarrow> same_file fs fs2 k"
  by (simp add: same_file_def)

lemma same_fileI:
  assumes "\<And>i. dent_at fs k = Some (DFile i) \<Longrightarrow> dent_at fs' k = Some (DFile i) \<and> bytes_of fs' i = bytes_of fs i"
    and "\<And>i. dent_at fs' k = Some (DFile i) \<Longrightarrow> dent_at fs k = Some (DFile i)"
    and "dent_at fs k = Some DDir \<Longrightarrow> dent_at fs' k = Some DDir"
  shows "same_file fs fs' k"
proof -
  have d: "dent_at fs' k = Some (DFile i) \<longleftrightarrow> dent_at fs k = Some (DFile i)" for i
    using assms(1,2) by blast
  moreover have "content fs' k = Some b \<longleftrightarrow> content fs k = Some b" for b
    unfolding content_Some d using assms(1) by metis
  ultimately show ?thesis using assms(3) by (simp add: same_file_def option_ext)
qed

lemma content_mkdirs: "evolves {} N {} fs fs' \<Longrightarrow> content fs' = content fs"
proof
  fix k
  assume ev: "evolves {} N {} fs fs'"
  have "dent_at fs' k = Some (DFile j) \<longleftrightarrow> dent_at fs k = Some (DFile j)" for j
    using evolves_file [OF ev] evolves_kept [OF ev] by blast
  moreover have "bytes_of fs' = bytes_of fs" using evolves_bytes [OF ev] by (simp add: fun_eq_iff)
  ultimately show "content fs' k = content fs k" by (intro option_ext) (simp add: content_Some)
qed

lemma content_write:
  assumes "dent_at fs s = Some (DFile i)" "unaliased fs s" "dent_at fs' = dent_at fs"
    and "\<And>j. j \<noteq> i \<Longrightarrow> bytes_of fs' j = bytes_of fs j"
  shows "content fs' = (content fs)(s \<mapsto> bytes_of fs' i)"
proof
  fix k
  show "content fs' k = ((content fs)(s \<mapsto> bytes_of fs' i)) k"
  proof (cases "k = s")
    case False
    then have "dent_at fs k \<noteq> Some (DFile i)" using assms(1,2) unfolding unaliased_def by blast
    then have "content fs' k = Some b \<longleftrightarrow> content fs k = Some b" for b
      unfolding content_Some assms(3) using assms(4) by metis
    with False show ?thesis by (simp add: option_ext)
  qed (simp add: content_def assms(1,3))
qed

lemma content_link:
  "dent_at fs s = Some (DFile i) \<Longrightarrow> l \<noteq> [] \<Longrightarrow>
    content (put_ent l (DFile i) fs) = (content fs)(l \<mapsto> bytes_of fs i)"
  by (auto simp: content_def fun_eq_iff split: option.splits dent.splits)

lemma content_del: "l \<noteq> [] \<Longrightarrow> content (del_ent l fs) = (content fs)(l := None)"
  by (auto simp: content_def fun_eq_iff split: option.splits dent.splits)

lemma content_new: 
  assumes "fs_wf fs" "l \<noteq> []"
  shows "content (new_file l fs) = (content fs)(l \<mapsto> [])"
proof -
  have "dent_at fs k \<noteq> Some (DFile (next_ino fs))" for k
    using fs_wf_inode [OF assms(1), of k "next_ino fs"] by auto
  with assms(2) show ?thesis by (auto simp: content_def fun_eq_iff split: option.splits dent.splits)
qed

lemma copy_append_ok:
  assumes "faults fs = []" "copy_append i cs err n fs = (r, fs')"
  shows "r = (case err of Some e \<Rightarrow> Inl e | None \<Rightarrow> Inr (n + length (concat cs))) \<and> faults fs' = [] \<and>
    dent_at fs' = dent_at fs \<and> cwd fs' = cwd fs \<and> bytes_of fs' i = bytes_of fs i @ concat cs \<and>
    (\<forall>j. j \<noteq> i \<longrightarrow> bytes_of fs' j = bytes_of fs j)"
  using assms
proof (induction cs arbitrary: n fs)
  case Nil
  then show ?case by (auto simp: fs_flush_def syscall_no_faults split: option.splits)
next
  case (Cons c cs)
  let ?fs = "put_inode i (bytes_of fs i @ c) fs"
  from Cons.prems have "faults ?fs = []" and "copy_append i cs err (n + length c) ?fs = (r, fs')"
    by (simp_all add: fs_append_def syscall_no_faults)
  from Cons.IH [OF this] show ?case by (auto simp: add.assoc split: option.splits)
qed

lemma upload_room_nolinks:
  assumes "upload_room fs l" "k \<in> {l, stg l}"
  shows "nolinks fs k"
  unfolding nolinks_def
proof (intro allI impI)
  fix m t
  assume "prefix m k"
  with assms have "m = k \<or> prefix m (butlast l)"
    by (cases k rule: rev_cases) (auto simp: upload_room_def stg_def)
  with assms show "dent_at fs m \<noteq> Some (DSym t)"
    by (fastforce simp: upload_room_def room_for_dir_def)
qed

lemma upload_room_ok: "upload_room fs l \<Longrightarrow> upload_ok fs l"
  using upload_room_nolinks [of fs l] by (simp add: upload_ok_def upload_room_def)

lemma lookup_room:
  assumes "upload_room fs l" "k \<in> {l, stg l}"
  shows "lookup fs (abs_path k) = (case dent_at fs k of Some d \<Rightarrow> Inr (k, d) | None \<Rightarrow> Inl ENotFound)"
proof (cases "dent_at fs k")
  case None
  have "room_for_dir fs k"
    unfolding room_for_dir_def
  proof (intro allI impI)
    fix m
    assume "prefix m k"
    with assms have "m = k \<or> prefix m (butlast l)"
      by (cases k rule: rev_cases) (auto simp: upload_room_def stg_def)
    with None assms show "dent_at fs m = None \<or> dent_at fs m = Some DDir"
      by (auto simp: upload_room_def room_for_dir_def)
  qed
  with None show ?thesis by (simp add: lookup_absent)
next
  case (Some d)
  with lookup_abs [of fs k] upload_room_nolinks [OF assms] assms(1) show ?thesis
    by (simp add: upload_room_def)
qed

lemma discard_content:
  assumes "faults fs = []" "fs_wf fs" "nolinks fs (stg l)" "\<And>d. dent_at fs (stg l) = Some d \<Longrightarrow> \<exists>i. d = DFile i"
  shows "\<exists>fs'. discard (abs_path (stg l)) x fs = (x, fs') \<and> content fs' = (content fs)(stg l := None)"
proof (cases "dent_at fs (stg l)")
  case None
  then have "content fs (stg l) = None" by (simp add: content_def)
  then have same: "(content fs)(stg l := None) = content fs" by auto
  from None entry_of_abs [OF assms(2,3) stg_simps(1)] have "snd (fs_remove_file (abs_path (stg l)) fs) = fs"
    by (auto simp: fs_remove_file_def syscall_no_faults [OF assms(1)] split: sum.splits if_splits)
  with same show ?thesis by (simp add: discard_def)
next
  case (Some d)
  with assms(4) obtain i where i: "dent_at fs (stg l) = Some (DFile i)" by blast
  then have "dent_at fs (butlast (stg l)) = Some DDir"
    using tree_wf_parent [OF fs_wf_tree [OF assms(2)], of "stg l"] by simp
  with entry_of_abs [OF assms(2,3) stg_simps(1)] have "entry_of fs (abs_path (stg l)) = Inr (stg l)"
    by simp
  with i have "fs_remove_file (abs_path (stg l)) fs = (Inr (), del_ent (stg l) fs)"
    by (simp add: fs_remove_file_def syscall_no_faults [OF assms(1)])
  then show ?thesis by (simp add: discard_def content_del)
qed

text \<open>What \<^verbatim>\<open>fs_open_write\<close> and \<^verbatim>\<open>finalize_link\<close> do when nothing fails.\<close>

lemma open_staging_ok:
  assumes "faults fs = []" "fs_wf fs" "nolinks fs (stg l)" "dent_at fs (butlast l) = Some DDir"
    and "dent_at fs (stg l) = None \<or> (\<exists>i. dent_at fs (stg l) = Some (DFile i))" "unaliased fs (stg l)"
  shows "\<exists>i fs'. fs_open_write False (abs_path (stg l)) fs = (Inr i, fs') \<and> faults fs' = [] \<and>
    dent_at fs' (stg l) = Some (DFile i) \<and> unaliased fs' (stg l) \<and> bytes_of fs' i = staged fs l \<and>
    content fs' = (content fs)(stg l \<mapsto> staged fs l)"
proof (cases "dent_at fs (stg l)")
  case None
  let ?fs = "new_file (stg l) fs"
  have "dent_at fs k \<noteq> Some (DFile (next_ino fs))" for k
    using fs_wf_inode [OF assms(2), of k "next_ino fs"] by auto
  then have "unaliased ?fs (stg l)" unfolding unaliased_def by auto
  moreover have "fs_open_write False (abs_path (stg l)) fs = (Inr (next_ino fs), ?fs)"
    using None locate_abs [OF assms(2,3) stg_simps(1)] assms(4)
    by (simp add: fs_open_write_def syscall_no_faults [OF assms(1)])
  ultimately show ?thesis
    using None assms(1) content_new [OF assms(2) stg_simps(1), of l] by (simp add: staged_def)
next
  case (Some d)
  with assms(5) obtain i where i: "dent_at fs (stg l) = Some (DFile i)" by auto
  then have "content fs (stg l) = Some (staged fs l)" by (simp add: content_def staged_def)
  then have "content fs = (content fs)(stg l \<mapsto> staged fs l)" by auto
  moreover have "fs_open_write False (abs_path (stg l)) fs = (Inr i, fs)"
    using i locate_abs [OF assms(2,3) stg_simps(1)] assms(4)
    by (simp add: fs_open_write_def syscall_no_faults [OF assms(1)])
  ultimately show ?thesis using i assms(1,6) by (simp add: staged_def)
qed

lemma finalize_link_ok:
  assumes "faults fs = []" "fs_wf fs" "l \<noteq> []" "nolinks fs l" "nolinks fs (stg l)"
    and i: "dent_at fs (stg l) = Some (DFile i)" and "dent_at fs l = None"
  shows "\<exists>fs'. finalize_link (abs_path (stg l)) (abs_path l) n fs = (Inr n, fs') \<and>
    content fs' = (content fs)(stg l := None, l \<mapsto> bytes_of fs i)"
proof -
  let ?fs1 = "put_ent l (DFile i) fs"
  have par: "dent_at fs (butlast l) = Some DDir"
    using i tree_wf_parent [OF fs_wf_tree [OF assms(2)], of "stg l"] by simp
  with entry_of_abs [OF assms(2,5) stg_simps(1)] entry_of_abs [OF assms(2,4,3)] i assms(7)
  have link: "fs_hard_link (abs_path (stg l)) (abs_path l) fs = (Inr (), ?fs1)"
    by (simp add: fs_hard_link_def syscall_no_faults [OF assms(1)])
  have wf1: "fs_wf ?fs1"
    using fs_wf_put_ent [OF assms(2,3) par assms(7), of "DFile i"] fs_wf_inode [OF assms(2) i] by simp
  have nl1: "nolinks ?fs1 (stg l)"
    using assms(3,5) by (auto simp: nolinks_def)
  have f: "faults ?fs1 = []" using assms(1) by simp
  have "\<exists>i. d = DFile i" if "dent_at ?fs1 (stg l) = Some d" for d
    using that i assms(3) by (auto split: if_splits)
  from discard_content [OF f wf1 nl1 this, of "Inr n :: store_error + nat"] obtain fs' where
    "discard (abs_path (stg l)) (Inr n :: store_error + nat) ?fs1 = (Inr n, fs')" "content fs' = (content ?fs1)(stg l := None)"
    by blast
  with link content_link [OF i assms(3)] assms(3) show ?thesis
    by (auto simp: finalize_link_def fun_upd_twist)
qed

lemma unaliased_mkdirs:
  assumes "unaliased fs k" "evolves {} N {} fs fs'" "k \<notin> N"
  shows "unaliased fs' k"
proof -
  have "dent_at fs' k = dent_at fs k" using evolves_other [OF assms(2)] assms(3) by simp
  with assms(1) evolves_file [OF assms(2)] show ?thesis unfolding unaliased_def by fastforce
qed

lemma mkdirs_ok:
  assumes room: "upload_room fs l" and ff: "faults fs = []"
  shows "\<exists>fs'. fs_create_dir_all (abs_path (butlast l)) fs = (Inr (), fs') \<and> faults fs' = [] \<and> up_inv fs l fs' \<and>
    dent_at fs' (butlast l) = Some DDir \<and> content fs' = content fs \<and> staged fs' l = staged fs l \<and>
    unaliased fs' (stg l) \<and> (\<forall>k \<in> {l, stg l}. dent_at fs' k = dent_at fs k)"
proof -
  from room have wf: "fs_wf fs" "room_for_dir fs (butlast l)" and ne: "l \<noteq> []" and ua: "unaliased fs (stg l)"
    by (simp_all add: upload_room_def)
  from fs_create_dir_all_ok [OF ff wf] obtain fs1 where
    1: "fs_create_dir_all (abs_path (butlast l)) fs = (Inr (), fs1)" and ff1: "faults fs1 = []" by blast
  from up_mkdirs [OF up_inv_refl [OF upload_room_ok [OF room]] 1] have inv: "up_inv fs l fs1"
    and ev: "evolves {} (dirs_to (butlast l)) {} fs fs1" and par: "dent_at fs1 (butlast l) = Some DDir" by simp_all
  have d: "\<forall>k \<in> {l, stg l}. dent_at fs1 k = dent_at fs k"
    using ne stg_not_dir [of l] evolves_other [OF ev] by auto
  then have "staged fs1 l = staged fs l"
    using evolves_bytes [OF ev] by (auto simp: staged_def split: option.splits dent.splits)
  with 1 ff1 inv par content_mkdirs [OF ev] unaliased_mkdirs [OF ua ev stg_not_dir(1)] d show ?thesis by blast
qed

text \<open>The input as far as it arrives is in the staging file, behind what was there.\<close>

lemma stage_input_ok:
  assumes inv: "up_inv fs0 l fs" and ff: "faults fs = []" and par: "dent_at fs (butlast l) = Some DDir"
    and st: "dent_at fs (stg l) = None \<or> (\<exists>i. dent_at fs (stg l) = Some (DFile i))"
    and ua: "unaliased fs (stg l)" and absent: "dent_at fs l = None"
  shows "\<exists>i fs1 fs2. fs_open_write False (abs_path (stg l)) fs = (Inr i, fs1) \<and>
    copy_append i (fst input) (snd input) 0 fs1 =
      (case snd input of Some e \<Rightarrow> Inl e | None \<Rightarrow> Inr (length (concat (fst input))), fs2) \<and>
    faults fs2 = [] \<and> up_inv fs0 l fs2 \<and> dent_at fs2 (stg l) = Some (DFile i) \<and> dent_at fs2 l = None \<and>
    bytes_of fs2 i = staged fs l @ concat (fst input) \<and>
    content fs2 = (content fs)(stg l \<mapsto> staged fs l @ concat (fst input))"
proof -
  note e = up_inv_elims [OF inv]
  from open_staging_ok [OF ff e(1,4) par st ua] obtain i fs1 where
    1: "fs_open_write False (abs_path (stg l)) fs = (Inr i, fs1)" "faults fs1 = []"
    "dent_at fs1 (stg l) = Some (DFile i)" "unaliased fs1 (stg l)" "bytes_of fs1 i = staged fs l"
    "content fs1 = (content fs)(stg l \<mapsto> staged fs l)" by blast
  from up_open [OF inv 1(1)] have inv1: "up_inv fs0 l fs1" "i \<in> upload_inodes fs0 l" "i < next_ino fs1" by simp_all
  have "evolves {} {stg l} UNIV fs fs1" using fs_open_write_frame [OF 1(1) e(1,4) stg_simps(1)] by simp
  from evolves_other [OF this, of l] e(2) absent have l: "dent_at fs1 l = None" by simp
  obtain r fs2 where 2: "copy_append i (fst input) (snd input) 0 fs1 = (r, fs2)" by fastforce
  from copy_append_ok [OF 1(2) 2] have
    r: "r = (case snd input of Some e \<Rightarrow> Inl e | None \<Rightarrow> Inr (length (concat (fst input))))"
    and f: "faults fs2 = []" "dent_at fs2 = dent_at fs1" "bytes_of fs2 i = bytes_of fs1 i @ concat (fst input)"
    and o: "\<And>j. j \<noteq> i \<Longrightarrow> bytes_of fs2 j = bytes_of fs1 j" by (auto split: option.splits)
  from content_write [OF 1(3,4) f(2) o] 1(5,6) f(3)
  have "content fs2 = (content fs)(stg l \<mapsto> staged fs l @ concat (fst input))" by simp
  with up_copy [OF inv1(1) 2 inv1(2,3)] 1(1,3,5) 2 r f l show ?thesis by auto
qed

lemma store_accepted_ok:
  assumes room: "upload_room fs l" and ff: "faults fs = []" and absent: "dent_at fs l = None"
    and run: "store_accepted l input fs = (r, fs')"
  shows "(r, content fs') =
    (case snd input of
       Some e \<Rightarrow> (Inl (SIo e), (content fs)(stg l := None))
     | None \<Rightarrow> (Inr (length (concat (fst input))),
         (content fs)(stg l := None, l \<mapsto> staged fs l @ concat (fst input))))"
proof -
  from room have st: "dent_at fs (stg l) = None \<or> (\<exists>i. dent_at fs (stg l) = Some (DFile i))"
    by (simp add: upload_room_def)
  from mkdirs_ok [OF room ff] obtain fs1 where 1: "fs_create_dir_all (abs_path (butlast l)) fs = (Inr (), fs1)"
    and m: "faults fs1 = []" "up_inv fs l fs1" "dent_at fs1 (butlast l) = Some DDir" "content fs1 = content fs"
    "staged fs1 l = staged fs l" "unaliased fs1 (stg l)" "dent_at fs1 l = dent_at fs l" "dent_at fs1 (stg l) = dent_at fs (stg l)"
    by auto
  from stage_input_ok [OF m(2,1,3) _ m(6), of input] st absent m(4,5,7,8) obtain i fs2 fs3 where
    2: "fs_open_write False (abs_path (stg l)) fs1 = (Inr i, fs2)"
    and 3: "copy_append i (fst input) (snd input) 0 fs2 =
      (case snd input of Some e \<Rightarrow> Inl e | None \<Rightarrow> Inr (length (concat (fst input))), fs3)"
    and c: "faults fs3 = []" "up_inv fs l fs3" "dent_at fs3 (stg l) = Some (DFile i)" "dent_at fs3 l = None"
    "bytes_of fs3 i = staged fs l @ concat (fst input)"
    "content fs3 = (content fs)(stg l \<mapsto> staged fs l @ concat (fst input))" by auto
  note e = up_inv_elims [OF c(2)]
  show ?thesis
  proof (cases "snd input")
    case (Some x)
    from discard_content [OF c(1) e(1,4), of "Inl (SIo x) :: store_error + nat"] c(3) obtain fs4 where
      "discard (abs_path (stg l)) (Inl (SIo x) :: store_error + nat) fs3 = (Inl (SIo x), fs4)"
      "content fs4 = (content fs3)(stg l := None)" by auto
    with run 1 2 3 Some c(6) show ?thesis by (simp add: store_accepted_def)
  next
    case None
    from finalize_link_ok [OF c(1) e(1,2,3,4) c(3,4)] obtain fs4 where
      "finalize_link (abs_path (stg l)) (abs_path l) (length (concat (fst input))) fs3 =
         (Inr (length (concat (fst input))), fs4)"
      "content fs4 = (content fs3)(stg l := None, l \<mapsto> bytes_of fs3 i)" by blast
    with run 1 2 3 None c(1,5,6) show ?thesis by (simp add: store_accepted_def fs_flush_def syscall_no_faults)
  qed
qed

lemma room_exists:
  assumes "upload_room fs l" "faults fs = []"
  shows "fs_try_exists (abs_path l) fs = (Inr (content fs l \<noteq> None), fs)"
proof -
  from assms(1) have "dent_at fs l = None \<or> (\<exists>i. dent_at fs l = Some (DFile i))" by (simp add: upload_room_def)
  with lookup_room [OF assms(1), of l] show ?thesis
    by (auto simp: fs_try_exists_def fs_metadata_def syscall_no_faults [OF assms(2)] content_def)
qed

lemma room_stat:
  assumes "upload_room fs l" "faults fs = []"
  shows "\<exists>st. fs_metadata (abs_path (stg l)) fs = (st, fs) \<and> stat_size st = Inr (length (staged fs l))"
proof -
  from assms(1) have "dent_at fs (stg l) = None \<or> (\<exists>i. dent_at fs (stg l) = Some (DFile i))"
    by (simp add: upload_room_def)
  with lookup_room [OF assms(1), of "stg l"] show ?thesis
    by (auto simp: fs_metadata_def syscall_no_faults [OF assms(2)] stat_size_def staged_def meta_of_def)
qed

text \<open>An upload from the start does not go on from a partial transfer; it discards it.\<close>

lemma restart_discards:
  assumes "upload_room fs l" "faults fs = []" "content fs l = None" "staged fs l \<noteq> []"
  shows "store_stream (abs_path l) 0 input fs = discard (abs_path (stg l)) (Inl SOverlap) fs"
proof -
  from assms(1) have "l \<noteq> []" by (simp add: upload_room_def)
  with room_exists [OF assms(1,2)] room_stat [OF assms(1,2)] assms(3,4) show ?thesis
    by (auto simp: store_stream_abs classify_offset_def)
qed

lemma upload_room_fewer:
  assumes "upload_room fs l" "fs_wf fs'" "evolves {stg l} {} {} fs fs'"
    and "dent_at fs' (stg l) = None \<or> dent_at fs' (stg l) = dent_at fs (stg l)"
  shows "upload_room fs' l"
proof -
  have k: "dent_at fs' k = dent_at fs k \<or> dent_at fs' k = None" for k
    using evolves_other [OF assms(3), of k] assms(4) by (cases "k = stg l") auto
  then have "room_for_dir fs' (butlast l)"
    using assms(1) unfolding upload_room_def room_for_dir_def by metis
  moreover have "unaliased fs' (stg l)"
    using assms(1) evolves_file [OF assms(3)] unfolding upload_room_def unaliased_def by blast
  moreover have "\<forall>m \<in> {l, stg l}. dent_at fs' m = None \<or> (\<exists>i. dent_at fs' m = Some (DFile i))"
    using assms(1) k [of l] k [of "stg l"] by (auto simp: upload_room_def)
  ultimately show ?thesis using assms(1,2) by (simp add: upload_room_def)
qed

lemma store_stream_ok:
  assumes room: "upload_room fs l" and ff: "faults fs = []"
    and run: "store_stream (abs_path l) start_pos input fs = (r, fs')"
  shows "(r, content fs') = spec_store (content fs) l start_pos input"
proof -
  from room have wf: "fs_wf fs" and ne: "l \<noteq> []" by (simp_all add: upload_room_def)
  from room have l: "dent_at fs l = None \<or> (\<exists>i. dent_at fs l = Some (DFile i))"
    and st: "dent_at fs (stg l) = None \<or> (\<exists>i. dent_at fs (stg l) = Some (DFile i))"
    by (simp_all add: upload_room_def)
  note ex = room_exists [OF room ff] and stat = room_stat [OF room ff]
  have old: "(case content fs (stg l) of None \<Rightarrow> [] | Some b \<Rightarrow> b) = staged fs l"
    using st by (auto simp: content_def staged_def)
  have disc: "\<exists>fs'. discard (abs_path (stg l)) x fs = (x, fs') \<and> content fs' = (content fs)(stg l := None)"
    for x :: "store_error + nat"
    using st upload_room_nolinks [OF room] by (intro discard_content [OF ff wf]) auto
  show ?thesis
  proof (cases "content fs l = None")
    case False
    with run ex ne show ?thesis by (auto simp: store_stream_abs spec_store_def)
  next
    case True
    with l have absent: "dent_at fs l = None" by (auto simp: content_def)
    consider "start_pos < length (staged fs l)" | "length (staged fs l) < start_pos"
      | "start_pos = length (staged fs l)" by linarith
    then show ?thesis
    proof cases
      case 1
      with run ex stat ne True old disc [of "Inl SOverlap"] show ?thesis
        by (auto simp: store_stream_abs spec_store_def classify_offset_def)
    next
      case 2
      with run ex stat ne True old disc [of "Inl SGap"] show ?thesis
        by (auto simp: store_stream_abs spec_store_def classify_offset_def)
    next
      case 3
      with run ex stat ne True have "store_accepted l input fs = (r, fs')"
        by (auto simp: store_stream_abs classify_offset_def)
      from store_accepted_ok [OF room ff absent this] True old 3 show ?thesis
        by (simp add: spec_store_def split: option.splits)
    qed
  qed
qed

section \<open>Sealed files\<close>

text \<open>
  Names that belong to the daemon: staging files, and connection tests inside a quarantine
  directory.  A file is sealed when its own name is not of that sort and the only scratch name that
  may still lead to its inode is its own staging name, left behind by an unlink that failed; with
  encryption on, not even that (an upload starts by truncating the staging file).
\<close>

definition scratch :: "loc \<Rightarrow> bool" where
  "scratch l \<longleftrightarrow> l \<noteq> [] \<and>
     (str_ends_with (last l) STAGING_SUFFIX \<or>
      is_reolink_test_file (last l) \<and> butlast l \<noteq> [] \<and> last (butlast l) = QUARANTINE_DIR)"

definition sealed :: "bool \<Rightarrow> fs \<Rightarrow> loc \<Rightarrow> nat \<Rightarrow> bytes \<Rightarrow> bool" where
  "sealed enc fs k i bs \<longleftrightarrow>
     k \<noteq> [] \<and> \<not> scratch k \<and> dent_at fs k = Some (DFile i) \<and> bytes_of fs i = bs \<and>
     (\<forall>k'. scratch k' \<longrightarrow> dent_at fs k' = Some (DFile i) \<longrightarrow> \<not> enc \<and> k' = stg k)"

lemma scratch_stg [simp]: "scratch (stg l)"
  by (simp add: scratch_def str_ends_with_def suffix_def)

lemma sealed_faults [simp]: "sealed enc (fs\<lparr>faults := fl\<rparr>) k i bs = sealed enc fs k i bs"
  by (simp add: sealed_def)

lemma sealed_evolves:
  assumes "sealed enc fs k i bs" "evolves R N I fs fs'" "i \<notin> I" "\<And>l. l \<in> R \<Longrightarrow> scratch l"
  shows "sealed enc fs' k i bs"
proof -
  have "dent_at fs' k = Some (DFile i)"
    using assms(1,4) by (intro evolves_kept [OF assms(2)]) (auto simp: sealed_def)
  moreover have "dent_at fs k' = Some (DFile i)" if "dent_at fs' k' = Some (DFile i)" for k'
    using evolves_file [OF assms(2) that] assms(3) by simp
  ultimately show ?thesis
    using assms(1) evolves_bytes [OF assms(2,3)] unfolding sealed_def by metis
qed

lemma sealed_not_staged:
  assumes "sealed enc fs k i bs" "fs_wf fs" "l \<noteq> []" "enc \<or> l \<noteq> k"
  shows "i \<notin> upload_inodes fs l"
proof -
  have "dent_at fs (stg l) \<noteq> Some (DFile i)"
    using assms(1,3,4) stg_inj [of l k] unfolding sealed_def by (metis scratch_stg)
  moreover have "i < next_ino fs"
    using assms(1) fs_wf_inode [OF assms(2), of k i] by (simp add: sealed_def)
  ultimately show ?thesis by (simp add: upload_inodes_def)
qed

lemma sealed_upload:
  assumes "sealed enc fs k i bs" "up_inv fs l fs'" "fs_wf fs" "enc \<or> l \<noteq> k"
  shows "sealed enc fs' k i bs"
  using up_inv_elims [OF assms(2)] sealed_not_staged [OF assms(1,3) _ assms(4)]
  by (intro sealed_evolves [OF assms(1)]) auto

lemma store_stream_existing:
  assumes "upload_ok fs l" "dent_at fs l \<noteq> None" "store_stream (abs_path l) n input fs = (r, fs')"
  shows "\<exists>fl e. fs' = fs\<lparr>faults := fl\<rparr> \<and> r = Inl e"
proof -
  from assms(1) have u: "fs_wf fs" "l \<noteq> []" "nolinks fs l" by (simp_all add: upload_ok_def)
  obtain r1 fs1 where 1: "fs_try_exists (abs_path l) fs = (r1, fs1)" by fastforce
  then obtain fl where "fs1 = fs\<lparr>faults := fl\<rparr>" by (blast dest: fs_try_exists_state)
  with fs_try_exists_Inr [OF _ u(1,3)] 1 assms(2,3) show ?thesis
    by (cases r1) (auto simp: store_stream_abs [OF u(2)] split: bool.splits)
qed

text \<open>No upload, to whatever name and with whatever failures, touches a sealed file.\<close>

lemma store_stream_sealed:
  assumes "upload_ok fs l" "sealed False fs k i bs" "store_stream (abs_path l) n input fs = (r, fs')"
  shows "sealed False fs' k i bs"
proof (cases "l = k")
  case True
  with assms(2) have "dent_at fs l \<noteq> None" by (simp add: sealed_def)
  from store_stream_existing [OF assms(1) this assms(3)] assms(2) show ?thesis by auto
next
  case False
  from store_stream_inv [OF assms(1,3)] have "up_inv fs l fs'" by simp
  from sealed_upload [OF assms(2) this] False assms(1) show ?thesis by (simp add: upload_ok_def)
qed

lemma store_encrypted_sealed:
  assumes "upload_ok fs l" "sealed True fs k i bs"
    "store_encrypted age (abs_path l) recipients input fs = (r, fs')"
  shows "sealed True fs' k i bs"
proof -
  from store_encrypted_inv [OF assms(1,3)] have "up_inv fs l fs'" by simp
  from sealed_upload [OF assms(2) this] assms(1) show ?thesis by (simp add: upload_ok_def)
qed

text \<open>A finished upload is sealed.\<close>

lemma published_sealed:
  assumes "up_inv fs l fs'" "fs_wf fs" "published fs l bs fs'" "\<not> scratch l" "unaliased fs (stg l)"
    and "enc \<Longrightarrow> dent_at fs' (stg l) = None"
  shows "\<exists>i. sealed enc fs' l i bs"
proof -
  note e = up_inv_elims [OF assms(1)]
  from assms(3) obtain i where i: "dent_at fs' l = Some (DFile i)" "i \<in> upload_inodes fs l"
    "bytes_of fs' i = bs" "dent_at fs l = None" by (auto simp: published_def)
  have "k' = stg l" if k': "scratch k'" "dent_at fs' k' = Some (DFile i)" for k'
  proof (rule ccontr)
    assume ne: "k' \<noteq> stg l"
    have "k' \<notin> dirs_to (butlast l)"
    proof
      assume "k' \<in> dirs_to (butlast l)"
      then obtain m where "butlast l = k' @ m" by (auto simp: prefix_def)
      then have "l = k' @ (m @ [last l])" using append_butlast_last_id [OF e(2)] by simp
      with tree_wf_prefix [OF fs_wf_tree [OF e(1)], of k' "m @ [last l]"] i(1) k'(2) show False by simp
    qed
    moreover have "k' \<noteq> l" using k'(1) assms(4) by auto
    ultimately have "dent_at fs k' = Some (DFile i)"
      using evolves_other [OF e(5), of k'] ne k'(2) by (simp add: upload_ents_def)
    with i(2) fs_wf_inode [OF assms(2), of k' i] assms(5) ne show False
      unfolding upload_inodes_def unaliased_def by fastforce
  qed
  with i e(2) assms(4,6) show ?thesis unfolding sealed_def by fastforce
qed

text \<open>After a finished upload all other files are as they were.\<close>

lemma published_content:
  assumes "up_inv fs l fs'" "fs_wf fs" "published fs l bs fs'" "unaliased fs (stg l)"
  shows "content fs' l = Some bs \<and> content fs' (stg l) \<in> {None, Some bs} \<and>
    (\<forall>k. k \<noteq> l \<longrightarrow> k \<noteq> stg l \<longrightarrow> content fs' k = content fs k)"
proof (intro conjI allI impI)
  note e = up_inv_elims [OF assms(1)]
  from assms(3) obtain i where i: "dent_at fs' l = Some (DFile i)" "bytes_of fs' i = bs"
    "dent_at fs' (stg l) = None \<or> dent_at fs' (stg l) = Some (DFile i)" by (auto simp: published_def)
  then show "content fs' l = Some bs" "content fs' (stg l) \<in> {None, Some bs}" by (auto simp: content_def)
  fix k
  assume k: "k \<noteq> l" "k \<noteq> stg l"
  have "dent_at fs' k = Some (DFile j) \<longleftrightarrow> dent_at fs k = Some (DFile j)" for j
  proof
    assume "dent_at fs k = Some (DFile j)"
    then show "dent_at fs' k = Some (DFile j)" using k by (intro evolves_kept [OF e(5)]) auto
  next
    assume reg: "dent_at fs' k = Some (DFile j)"
    show "dent_at fs k = Some (DFile j)"
    proof (cases "k \<in> dirs_to (butlast l)")
      case True
      then obtain m where "butlast l = k @ m" by (auto simp: prefix_def)
      then have "l = k @ (m @ [last l])" using append_butlast_last_id [OF e(2)] by simp
      with tree_wf_prefix [OF fs_wf_tree [OF e(1)], of k "m @ [last l]"] i(1) reg show ?thesis by simp
    next
      case False
      with evolves_other [OF e(5), of k] k reg show ?thesis by (simp add: upload_ents_def)
    qed
  qed
  moreover have "bytes_of fs' j = bytes_of fs j" if "dent_at fs k = Some (DFile j)" for j
  proof (rule evolves_bytes [OF e(5)])
    show "j \<notin> upload_inodes fs l"
      using that fs_wf_inode [OF assms(2) that] assms(4) k(2)
      unfolding upload_inodes_def unaliased_def by fastforce
  qed
  ultimately show "content fs' k = content fs k" by (intro option_ext) (auto simp: content_Some)
qed

end
