(* ===== verification/BTree_Map.thy ===== *)
theory BTree_Map
  imports Prelude "HOL-Library.List_Lexorder" "HOL-Library.Char_ord"
begin

text \<open>
  The ordered map \<^verbatim>\<open>std::collections::BTreeMap\<close>, which iterates in ascending key order, as
  an association list kept strictly sorted by key, and the contract the components rely on as
  the locale \<open>ordered_map\<close>.  \<^verbatim>\<open>BTreeSet<T>\<close> is \<^verbatim>\<open>BTreeMap<T, ()>\<close>, as in the standard
  library.  Keys are byte strings in the lexicographic order of \<^verbatim>\<open>String\<close>.
\<close>

type_synonym ('k, 'v) btree = "('k \<times> 'v) list"

fun bt_insert :: "'k::linorder \<Rightarrow> 'v \<Rightarrow> ('k, 'v) btree \<Rightarrow> ('k, 'v) btree" where
  "bt_insert k v [] = [(k, v)]"
| "bt_insert k v ((k', v') # m) =
     (if k < k' then (k, v) # (k', v') # m
      else if k = k' then (k, v) # m
      else (k', v') # bt_insert k v m)"

definition bt_get :: "('k, 'v) btree \<Rightarrow> 'k \<Rightarrow> 'v option" where
  "bt_get m = map_of m"

definition bt_keys :: "('k, 'v) btree \<Rightarrow> 'k list" where
  "bt_keys m = map fst m"

definition bt_sorted :: "('k::linorder, 'v) btree \<Rightarrow> bool" where
  "bt_sorted m = sorted_wrt (<) (map fst m)"

definition bt_of_list :: "('k::linorder \<times> 'v) list \<Rightarrow> ('k, 'v) btree" where
  "bt_of_list kvs = fold (\<lambda>(k, v). bt_insert k v) kvs []"

text \<open>The contract of an ordered map and what its clients derive from it.\<close>

locale ordered_map =
  fixes empty :: "'m"
    and insert :: "'k::linorder \<Rightarrow> 'v \<Rightarrow> 'm \<Rightarrow> 'm"
    and get :: "'m \<Rightarrow> 'k \<Rightarrow> 'v option"
    and keys :: "'m \<Rightarrow> 'k list"
    and invar :: "'m \<Rightarrow> bool"
  assumes invar_empty: "invar empty"
    and get_empty: "get empty = Map.empty"
    and invar_insert: "invar m \<Longrightarrow> invar (insert k v m)"
    and get_insert: "invar m \<Longrightarrow> get (insert k v m) = (get m)(k \<mapsto> v)"
    and keys_sorted: "invar m \<Longrightarrow> sorted_wrt (<) (keys m)"
    and keys_dom: "invar m \<Longrightarrow> set (keys m) = dom (get m)"
begin

lemma fold_insert:
  "invar m \<Longrightarrow> invar (fold (\<lambda>(k, v). insert k v) kvs m) \<and>
     get (fold (\<lambda>(k, v). insert k v) kvs m) = get m ++ map_of (rev kvs)"
proof (induction kvs arbitrary: m)
  case Nil
  then show ?case by simp
next
  case (Cons kv kvs)
  obtain k v where [simp]: "kv = (k, v)" by (cases kv)
  from Cons.prems have "invar (insert k v m)" by (rule invar_insert)
  from Cons.IH [OF this] Cons.prems show ?case
    by (auto simp: get_insert fun_eq_iff map_add_def split: option.splits)
qed

lemma get_of_list: "get (fold (\<lambda>(k, v). insert k v) kvs empty) = map_of (rev kvs)"
  using fold_insert [OF invar_empty, of kvs] by (simp add: get_empty)

lemma get_of_list_distinct:
  "distinct (map fst kvs) \<Longrightarrow> get (fold (\<lambda>(k, v). insert k v) kvs empty) = map_of kvs"
  by (simp add: get_of_list map_of_rev_distinct)

lemma invar_of_list: "invar (fold (\<lambda>(k, v). insert k v) kvs empty)"
  using fold_insert [OF invar_empty] by blast

lemma keys_of_list:
  "set (keys (fold (\<lambda>(k, v). insert k v) kvs empty)) = fst ` set kvs"
  by (simp add: keys_dom invar_of_list get_of_list dom_map_of_conv_image_fst)

lemma keys_unique: "invar m \<Longrightarrow> invar m' \<Longrightarrow> dom (get m) = dom (get m') \<Longrightarrow> keys m = keys m'"
  by (metis keys_dom keys_sorted strict_sorted_iff sorted_distinct_set_unique)

end

lemma set_bt_insert: "fst ` set (bt_insert k v m) = insert k (fst ` set m)"
  by (induction k v m rule: bt_insert.induct) auto

lemma bt_sorted_insert: "bt_sorted m \<Longrightarrow> bt_sorted (bt_insert k v m)"
proof (induction k v m rule: bt_insert.induct)
  case (2 k v k' v' m)
  have "set (map fst (bt_insert k v m)) = insert k (set (map fst m))"
    by (simp add: set_bt_insert)
  with 2 show ?case by (auto simp: bt_sorted_def)
qed (simp add: bt_sorted_def)

lemma bt_get_insert: "bt_sorted m \<Longrightarrow> bt_get (bt_insert k v m) = (bt_get m)(k \<mapsto> v)"
  by (induction k v m rule: bt_insert.induct) (auto simp: bt_get_def bt_sorted_def fun_eq_iff)

interpretation bt: ordered_map "[]" bt_insert bt_get bt_keys bt_sorted
proof unfold_locales
  fix m :: "('a::linorder, 'b) btree" and k v
  assume m: "bt_sorted m"
  from m show "bt_sorted (bt_insert k v m)" by (rule bt_sorted_insert)
  from m show "bt_get (bt_insert k v m) = (bt_get m)(k \<mapsto> v)" by (rule bt_get_insert)
  from m show "sorted_wrt (<) (bt_keys m)" by (simp add: bt_sorted_def bt_keys_def)
qed (simp_all add: bt_sorted_def bt_get_def bt_keys_def dom_map_of_conv_image_fst)

lemmas bt_of_list_facts =
  bt.get_of_list [folded bt_of_list_def] bt.invar_of_list [folded bt_of_list_def]
  bt.keys_of_list [folded bt_of_list_def] bt.get_of_list_distinct [folded bt_of_list_def]

end
