(* ===== verification/Paths.thy ===== *)
theory Paths
  imports Posix_FS BTree_Map
begin

text \<open>
  \<^verbatim>\<open>src/paths.rs\<close>: the mapping of virtual FTP paths to real paths, and the jail check.
  \<^verbatim>\<open>normalize\<close> rejects \<open>..\<close>, \<^verbatim>\<open>contained\<close> canonicalises what the request leads to and
  compares it with the canonical base, \<open>resolve\<close> is \<^verbatim>\<open>ScopeMap::resolve\<close>.
\<close>

datatype path_error = Traversal | PathNotFound | OutsideScope

record scope_map =
  roots :: "(string, path) btree"
  single :: "path option"

definition scope_single :: "path \<Rightarrow> scope_map" where
  "scope_single root = \<lparr>roots = [], single = Some root\<rparr>"

definition scope_multi :: "(string, path) btree \<Rightarrow> scope_map" where
  "scope_multi rs = \<lparr>roots = rs, single = None\<rparr>"

definition list_root :: "scope_map \<Rightarrow> string list" where
  "list_root m = bt_keys (roots m)"

text \<open>The loop of \<^verbatim>\<open>normalize\<close>; its second argument is the vector built so far.\<close>

fun normalize_loop :: "path \<Rightarrow> string list \<Rightarrow> path_error + string list" where
  "normalize_loop [] out = Inr out"
| "normalize_loop (c # cs) out =
     (case c of
        RootDir \<Rightarrow> normalize_loop cs out
      | CurDir \<Rightarrow> normalize_loop cs out
      | Normal s \<Rightarrow> normalize_loop cs (out @ [to_string_lossy s])
      | ParentDir \<Rightarrow> Inl Traversal
      | Prefix _ \<Rightarrow> Inl Traversal)"

definition normalize :: "path \<Rightarrow> path_error + string list" where
  "normalize virtual_path = normalize_loop virtual_path []"

definition check_within :: "path \<Rightarrow> path \<Rightarrow> path_error + path" where
  "check_within base_c resolved =
     (if path_starts_with resolved base_c then Inr resolved else Inl Traversal)"

function contained_loop :: "fs \<Rightarrow> path \<Rightarrow> path \<Rightarrow> path \<Rightarrow> path_error + path" where
  "contained_loop fs base_c ancestor tail =
     (case canonicalize fs ancestor of
        Inr canon \<Rightarrow> check_within base_c (path_join canon tail)
      | Inl _ \<Rightarrow>
          (case path_file_name ancestor of
             Some name \<Rightarrow>
               (let new_tail = [Normal name];
                    new_tail = (if tail \<noteq> [] then path_join new_tail tail else new_tail)
                in contained_loop fs base_c (path_pop ancestor) new_tail)
           | None \<Rightarrow> Inl PathNotFound))"
  by pat_completeness auto
termination
  by (relation "measure (\<lambda>(fs, b, a, t). length a)")
    (auto simp: path_pop_def path_parent_def path_file_name_Some split: option.splits)

declare contained_loop.simps [simp del]

definition contained :: "fs \<Rightarrow> path \<Rightarrow> path \<Rightarrow> path_error + path" where
  "contained fs base candidate =
     (case canonicalize fs base of
        Inl _ \<Rightarrow> Inl PathNotFound
      | Inr base_c \<Rightarrow>
          (case canonicalize fs candidate of
             Inr resolved \<Rightarrow> check_within base_c resolved
           | Inl _ \<Rightarrow> contained_loop fs base_c candidate []))"

text \<open>\<^verbatim>\<open>iter.fold(base.clone(), |acc, p| acc.join(p))\<close>.\<close>

definition join_all :: "path \<Rightarrow> string list \<Rightarrow> path" where
  "join_all base parts = foldl (\<lambda>acc p. path_join acc (path_new p)) base parts"

definition resolve :: "fs \<Rightarrow> scope_map \<Rightarrow> path \<Rightarrow> path_error + path" where
  "resolve fs m virtual_path =
     (case normalize virtual_path of
        Inl e \<Rightarrow> Inl e
      | Inr parts \<Rightarrow>
          (case single m of
             Some base \<Rightarrow> contained fs base (join_all base parts)
           | None \<Rightarrow>
               (case parts of
                  [] \<Rightarrow> Inl OutsideScope
                | cam # rest \<Rightarrow>
                    (case bt_get (roots m) cam of
                       None \<Rightarrow> Inl OutsideScope
                     | Some base \<Rightarrow> contained fs base (join_all base rest)))))"

text \<open>The base directory a request falls under and the names below it.\<close>

definition scope_target :: "scope_map \<Rightarrow> path \<Rightarrow> (path \<times> string list) option" where
  "scope_target m virtual_path =
     (case normalize virtual_path of
        Inl _ \<Rightarrow> None
      | Inr parts \<Rightarrow>
          (case single m of
             Some base \<Rightarrow> Some (base, parts)
           | None \<Rightarrow>
               (case parts of
                  [] \<Rightarrow> None
                | cam # rest \<Rightarrow> map_option (\<lambda>base. (base, rest)) (bt_get (roots m) cam))))"

section \<open>Normalisation\<close>

lemma normalize_loop_eq:
  "normalize_loop cs out =
     (if list_all (\<lambda>c. c \<noteq> ParentDir \<and> (\<forall>s. c \<noteq> Prefix s)) cs
      then Inr (out @ concat (map (\<lambda>c. case c of Normal s \<Rightarrow> [to_string_lossy s] | _ \<Rightarrow> []) cs)) else Inl Traversal)"
  by (induction cs out rule: normalize_loop.induct) (auto split: component.splits)

lemma normalize_plain:
  assumes "normalize (path_new v) = Inr parts"
  shows "list_all plain_name parts"
proof -
  have "parts = concat (map (\<lambda>c. case c of Normal s \<Rightarrow> [to_string_lossy s] | _ \<Rightarrow> []) (path_new v))"
    using assms by (simp add: normalize_def normalize_loop_eq split: if_splits)
  then show ?thesis
    by (auto simp: list_all_iff path_new_Normal plain_name_lossy split: component.splits)
qed

lemma join_all_plain: "list_all plain_name parts \<Longrightarrow> join_all base parts = base @ map Normal parts"
  by (induction parts arbitrary: base)
    (simp_all add: join_all_def path_new_plain path_join_Normal)

lemma resolve_eq:
  "resolve fs m v =
     (case scope_target m v of
        None \<Rightarrow> (case normalize v of Inl e \<Rightarrow> Inl e | Inr _ \<Rightarrow> Inl OutsideScope)
      | Some (base, rest) \<Rightarrow> contained fs base (join_all base rest))"
  by (auto simp: resolve_def scope_target_def split: sum.splits option.splits list.splits)

section \<open>Canonical paths\<close>

lemma lookup_result:
  assumes "fs_wf fs" "lookup fs p = Inr (l, d)"
  shows "dent_at fs l = Some d" "d = DDir \<or> (\<exists>i. d = DFile i)" "locate fs p = Inr (l, True)"
proof -
  from assms(2) show at: "dent_at fs l = Some d" and loc: "locate fs p = Inr (l, True)"
    by (auto simp: lookup_def split: sum.splits option.splits if_splits)
  with walk_result [OF fs_wf_tree [OF assms(1)] _ fs_wf_cwd [OF assms(1)], of _ p l True]
  show "d = DDir \<or> (\<exists>i. d = DFile i)" by (auto simp: locate_def)
qed

lemma no_sym_prefix:
  assumes "fs_wf fs" "dent_at fs l = Some d" "\<And>t. d \<noteq> DSym t" "prefix k l"
  shows "dent_at fs k \<noteq> Some (DSym t)"
proof (cases "k = l")
  case False
  with assms(4) obtain m where "l = k @ m" "m \<noteq> []" by (auto simp: prefix_def)
  with assms(2) tree_wf_prefix [OF fs_wf_tree [OF assms(1)], of k m] show ?thesis by simp
qed (use assms in simp)

text \<open>The canonical path of an object leads to that object.\<close>

lemma locate_abs_path:
  assumes "fs_wf fs" "dent_at fs l = Some d" "\<And>t. d \<noteq> DSym t"
  shows "locate fs (abs_path l) = Inr (l, True)"
proof (cases "l = []")
  case False
  have "dent_at fs (butlast l) = Some DDir"
    using tree_wf_parent [OF fs_wf_tree [OF assms(1)], of l] assms(2) by simp
  with walk_names [OF fs_wf_tree [OF assms(1)], of "[]" l MAXSYMLINKS] False assms no_sym_prefix
  show ?thesis by (auto simp: locate_def abs_path_def)
qed (simp add: locate_def abs_path_def)

lemma lookup_abs_path:
  "fs_wf fs \<Longrightarrow> dent_at fs l = Some d \<Longrightarrow> (\<And>t. d \<noteq> DSym t) \<Longrightarrow> lookup fs (abs_path l) = Inr (l, d)"
  by (simp add: lookup_def locate_abs_path)

lemma canonicalize_Inr:
  "canonicalize fs p = Inr q \<longleftrightarrow> (\<exists>l d. lookup fs p = Inr (l, d) \<and> q = abs_path l)"
  by (auto simp: canonicalize_def split: sum.splits)

lemma abs_path_prefix [simp]: "prefix (abs_path k) (abs_path l) \<longleftrightarrow> prefix k l"
proof
  assume "prefix (abs_path k) (abs_path l)"
  then obtain m where "map Normal l = map Normal k @ m" by (auto simp: abs_path_def prefix_def)
  then obtain k' l' where "l = k' @ l'" "map Normal k' = map Normal k"
    by (auto simp: map_eq_append_conv)
  then show "prefix k l" by (simp add: inj_map_eq_map inj_def)
qed (simp add: abs_path_def map_mono_prefix)

lemma abs_path_append: "abs_path (l @ m) = abs_path l @ map Normal m"
  by (simp add: abs_path_def)

section \<open>The jail\<close>

text \<open>The slow path: a non-empty tail of names is put behind the canonical ancestor.\<close>

lemma contained_loop_Inr:
  assumes "contained_loop fs base_c anc (map Normal ns) = Inr r"
  shows "\<exists>anc' ms l d. anc @ map Normal ns = anc' @ map Normal ms \<and> lookup fs anc' = Inr (l, d) \<and>
    r = abs_path l @ map Normal ms \<and> path_starts_with r base_c"
  using assms
proof (induction "length anc" arbitrary: anc ns rule: less_induct)
  case less
  show ?case
  proof (cases "canonicalize fs anc")
    case (Inr canon)
    then obtain l d where l: "lookup fs anc = Inr (l, d)" "canon = abs_path l"
      by (auto simp: canonicalize_Inr)
    from l have "path_join canon (map Normal ns) = abs_path l @ map Normal ns"
      by (cases ns) (simp_all add: path_join_def)
    with less.prems Inr l show ?thesis
      by (subst (asm) contained_loop.simps)
        (force simp: check_within_def split: if_splits)
  next
    case (Inl e)
    show ?thesis
    proof (cases "path_file_name anc")
      case None
      with less.prems Inl show ?thesis by (subst (asm) contained_loop.simps) simp
    next
      case (Some name)
      then have anc: "anc = butlast anc @ [Normal name]" "anc \<noteq> []"
        using append_butlast_last_id [of anc] by (auto simp: path_file_name_Some)
      then have pop: "path_pop anc = butlast anc" by (metis path_pop_snoc)
      from less.prems Inl Some
      have "contained_loop fs base_c (butlast anc) (map Normal (name # ns)) = Inr r"
        by (subst (asm) contained_loop.simps) 
          (cases ns; simp add: pop path_join_def Let_def)
      from less.hyps [OF _ this] anc show ?thesis by (metis append.assoc append_Cons append_Nil
            length_butlast length_greater_0_conv diff_less zero_less_one list.simps(9))
    qed
  qed
qed

text \<open>A granted request stays below the canonical base \<dots>\<close>

lemma contained_prefix:
  assumes "contained fs base cand = Inr r"
  shows "\<exists>b d. lookup fs base = Inr (b, d) \<and> prefix (abs_path b) r"
proof -
  from assms obtain b d where b: "lookup fs base = Inr (b, d)"
    by (auto simp: contained_def canonicalize_def split: sum.splits)
  then have "canonicalize fs base = Inr (abs_path b)" by (simp add: canonicalize_def)
  with assms have "path_starts_with r (abs_path b)"
    using contained_loop_Inr [of fs "abs_path b" cand "[]" r]
    by (auto simp: contained_def check_within_def split: sum.splits if_splits)
  with b show ?thesis by (auto simp: path_starts_with_def)
qed

text \<open>
  \<dots> and nothing outside can be reached through it: what the returned path leads to, links
  followed, is at that very location.
\<close>

lemma contained_loop_missing:
  assumes wf: "fs_wf fs" and cand: "lookup fs (anc @ map Normal ms) = Inl e"
    and limit: "locate fs (anc @ map Normal ms) \<noteq> Inl ELoop"
    and anc: "lookup fs anc = Inr (l, d)"
  shows "\<exists>e. lookup fs (abs_path l @ map Normal ms) = Inl e"
proof -
  let ?E = "dent_at fs"
  note tree = fs_wf_tree [OF wf] and cwd = fs_wf_cwd [OF wf]
  from lookup_result [OF wf anc] have l: "?E l = Some d" "d = DDir \<or> (\<exists>i. d = DFile i)"
    and loc: "walk ?E MAXSYMLINKS (cwd fs) anc = Inr (l, True)" by (auto simp: locate_def)
  from cand anc have ms: "ms \<noteq> []" by auto
  show ?thesis
  proof (cases "d = DDir")
    case True
    from walk_append [OF tree loc cwd] l True obtain m where m: "m \<le> MAXSYMLINKS"
      "locate fs (anc @ map Normal ms) = walk ?E m l (map Normal ms)" by (auto simp: locate_def)
    have "locate fs (abs_path l @ map Normal ms) = walk ?E MAXSYMLINKS l (map Normal ms)"
      using walk_through [OF tree, of "[]" l] l True by (simp add: locate_def abs_path_def)
    also have "\<dots> = locate fs (anc @ map Normal ms)"
      using walk_mono [OF m(2) [symmetric] limit m(1)] .
    finally show ?thesis using cand by (auto simp: lookup_def split: sum.splits)
  next
    case False
    then obtain i where "d = DFile i" using l(2) by auto
    with l have "l \<noteq> []" and "?E l = Some (DFile i)" by auto
    moreover from this have "?E (butlast l) = Some DDir"
      using tree_wf_parent [OF tree, of l] by simp
    moreover have "abs_path l @ map Normal ms =
        RootDir # map Normal (butlast l) @ Normal (last l) # map Normal ms"
      using \<open>l \<noteq> []\<close> append_butlast_last_id [of l] unfolding abs_path_def
      by (metis append_Cons append_Nil append.assoc list.simps(9) map_append)
    ultimately have "locate fs (abs_path l @ map Normal ms) = Inl ENotADirectory"
      using walk_through [OF tree, of "[]" "butlast l"] ms by (simp add: locate_def)
    then show ?thesis by (simp add: lookup_def)
  qed
qed

lemma contained_access:
  assumes wf: "fs_wf fs" and ok: "contained fs base cand = Inr r"
    and limit: "locate fs cand \<noteq> Inl ELoop" and acc: "lookup fs r = Inr (l, d)"
  shows "r = abs_path l"
proof (cases "lookup fs cand")
  case (Inr a)
  obtain k e where a: "a = (k, e)" by (cases a)
  with Inr ok have r: "r = abs_path k"
    by (auto simp: contained_def canonicalize_def check_within_def split: sum.splits if_splits)
  from lookup_result [OF wf Inr [unfolded a]] have "lookup fs (abs_path k) = Inr (k, e)"
    by (intro lookup_abs_path [OF wf]) auto
  with acc r show ?thesis by simp
next
  case (Inl e)
  with ok obtain base_c where "contained_loop fs base_c cand (map Normal []) = Inr r"
    by (auto simp: contained_def canonicalize_def split: sum.splits)
  from contained_loop_Inr [OF this] obtain anc ms k d' where
    c: "cand = anc @ map Normal ms" "lookup fs anc = Inr (k, d')" "r = abs_path k @ map Normal ms"
    by auto
  with contained_loop_missing [OF wf _ _ c(2), of ms e] Inl limit acc show ?thesis by auto
qed

section \<open>A jail without symbolic links\<close>

definition clean_jail :: "fs \<Rightarrow> path \<Rightarrow> loc \<Rightarrow> bool" where
  "clean_jail fs base b \<longleftrightarrow>
     lookup fs base = Inr (b, DDir) \<and>
     list_all (\<lambda>(l, d). prefix b l \<longrightarrow> (case d of DSym _ \<Rightarrow> False | _ \<Rightarrow> True)) (ents fs)"

lemma clean_jail_nosym:
  "clean_jail fs base b \<Longrightarrow> prefix b l \<Longrightarrow> dent_at fs l \<noteq> Some (DSym t)"
  by (cases "l = []") (force simp: clean_jail_def list_all_iff dest: dent_at_ents split: dent.splits)+

text \<open>Below a clean jail, a path leads to the location it spells or nowhere.\<close>

lemma locate_clean:
  assumes wf: "fs_wf fs" and clean: "clean_jail fs base b" and ps: "ps \<noteq> []"
  shows "if dent_at fs (b @ butlast ps) = Some DDir
         then locate fs (base @ map Normal ps) = Inr (b @ ps, dent_at fs (b @ ps) \<noteq> None)
         else \<exists>e. locate fs (base @ map Normal ps) = Inl e"
proof -
  let ?E = "dent_at fs"
  from clean have "lookup fs base = Inr (b, DDir)" by (simp add: clean_jail_def)
  from lookup_result [OF wf this] have b: "?E b = Some DDir"
    and loc: "walk ?E MAXSYMLINKS (cwd fs) base = Inr (b, True)" by (auto simp: locate_def)
  from walk_append [OF fs_wf_tree [OF wf] loc fs_wf_cwd [OF wf] b] obtain m where
    "locate fs (base @ map Normal ps) = walk ?E m b (map Normal ps)" by (auto simp: locate_def)
  with walk_names [OF fs_wf_tree [OF wf] b ps, of m] clean_jail_nosym [OF clean] show ?thesis
    by simp
qed

lemma clean_jail_abs:
  assumes "fs_wf fs" and "clean_jail fs base b"
  shows "clean_jail fs (abs_path b) b"
proof -
  from assms(2) have "lookup fs base = Inr (b, DDir)" by (simp add: clean_jail_def)
  from lookup_result [OF assms(1) this] lookup_abs_path [OF assms(1), of b DDir]
  have "lookup fs (abs_path b) = Inr (b, DDir)" by simp
  with assms(2) show ?thesis by (simp add: clean_jail_def)
qed

lemma lookup_clean:
  assumes "fs_wf fs" and "clean_jail fs base b" and "lookup fs (base @ map Normal ps) = Inr (l, d)"
  shows "l = b @ ps"
proof (cases "ps = []")
  case False
  from locate_clean [OF assms(1,2) False] lookup_result [OF assms(1,3)] show ?thesis
    by (auto split: if_splits)
qed (use assms in \<open>simp add: clean_jail_def\<close>)

lemma contained_loop_clean:
  assumes wf: "fs_wf fs" and clean: "clean_jail fs base b"
  shows "contained_loop fs (abs_path b) (base @ map Normal ps) (map Normal qs) =
    Inr (abs_path (b @ ps @ qs))"
proof (induction ps arbitrary: qs rule: rev_induct)
  case Nil
  from clean have "canonicalize fs base = Inr (abs_path b)"
    by (simp add: clean_jail_def canonicalize_def)
  then show ?case
    by (subst contained_loop.simps)
      (cases qs; simp add: path_join_def check_within_def path_starts_with_def abs_path_append)
next
  case (snoc x ps)
  let ?anc = "base @ map Normal (ps @ [x])"
  show ?case
  proof (cases "lookup fs ?anc")
    case (Inr a)
    then have "canonicalize fs ?anc = Inr (abs_path (b @ ps @ [x]))"
      using lookup_clean [OF wf clean, of "ps @ [x]"] by (cases a) (simp add: canonicalize_def)
    then show ?thesis
      by (subst contained_loop.simps)
        (cases qs; simp add: path_join_def check_within_def path_starts_with_def abs_path_append)
  next
    case (Inl e)
    then have e: "canonicalize fs ?anc = Inl e" by (simp add: canonicalize_def)
    have anc: "?anc = (base @ map Normal ps) @ [Normal x]" by simp
    have fn: "path_file_name ?anc = Some x" unfolding anc by (rule path_file_name_snoc)
    have pop: "path_pop ?anc = base @ map Normal ps" unfolding anc by (rule path_pop_snoc)
    have "contained_loop fs (abs_path b) ?anc (map Normal qs) =
        contained_loop fs (abs_path b) (base @ map Normal ps) (map Normal (x # qs))"
      unfolding contained_loop.simps [of fs "abs_path b" ?anc] e fn pop
      by (cases qs) (simp_all add: path_join_def Let_def)
    with snoc.IH [of "x # qs"] show ?thesis by simp
  qed
qed

lemma contained_clean:
  assumes wf: "fs_wf fs" and clean: "clean_jail fs base b"
  shows "contained fs base (base @ map Normal ps) = Inr (abs_path (b @ ps))"
proof (cases "lookup fs (base @ map Normal ps)")
  case (Inr a)
  then have "canonicalize fs (base @ map Normal ps) = Inr (abs_path (b @ ps))"
    using lookup_clean [OF wf clean] by (cases a) (simp add: canonicalize_def)
  with clean show ?thesis
    by (simp add: contained_def clean_jail_def canonicalize_def [of fs base] check_within_def
        path_starts_with_def)
next
  case (Inl e)
  with clean contained_loop_clean [OF wf clean, of ps "[]"] show ?thesis
    by (simp add: contained_def clean_jail_def canonicalize_def)
qed

text \<open>The names in a virtual path, and what a jail without links makes of it.\<close>

definition virtual_names :: "path \<Rightarrow> string list" where
  "virtual_names v = concat (map (\<lambda>c. case c of Normal s \<Rightarrow> [to_string_lossy s] | _ \<Rightarrow> []) v)"

lemma normalize_path_new:
  "normalize (path_new v) = (if ParentDir \<in> set (path_new v) then Inl Traversal else Inr (virtual_names (path_new v)))"
  using path_new_no_prefix [of _ v]
  by (auto simp: normalize_def normalize_loop_eq list_all_iff virtual_names_def)

lemma resolve_single_clean:
  assumes "fs_wf fs" and "clean_jail fs base b"
  shows "resolve fs (scope_single base) (path_new v) =
    (if ParentDir \<in> set (path_new v) then Inl Traversal
     else Inr (abs_path (b @ virtual_names (path_new v))))"
  using contained_clean [OF assms, of "virtual_names (path_new v)"] normalize_path_new [of v]
    normalize_plain [of v "virtual_names (path_new v)"]
  by (simp add: resolve_def scope_single_def join_all_plain)

lemma resolve_target_clean:
  assumes "fs_wf fs" "scope_target m (path_new v) = Some (base, names)" "clean_jail fs base b"
  shows "resolve fs m (path_new v) = Inr (abs_path (b @ names))"
proof -
  from assms(2) have "list_all plain_name names" using normalize_plain [of v]
    by (fastforce simp: scope_target_def split: sum.splits option.splits list.splits)
  with contained_clean [OF assms(1,3), of names] assms(2) show ?thesis
    by (simp add: resolve_eq join_all_plain)
qed

lemma resolve_multi_Inr:
  assumes "resolve fs (scope_multi rs) v = Inr r"
  shows "\<exists>cam rest base b d. normalize v = Inr (cam # rest) \<and> bt_get rs cam = Some base \<and>
    lookup fs base = Inr (b, d) \<and> path_starts_with r (abs_path b)"
proof -
  from assms obtain cam rest base where c: "normalize v = Inr (cam # rest)"
    "bt_get rs cam = Some base" "contained fs base (join_all base rest) = Inr r"
    by (auto simp: resolve_def scope_multi_def split: sum.splits list.splits option.splits)
  with contained_prefix [OF c(3)] show ?thesis by (auto simp: path_starts_with_def)
qed

section \<open>Properties\<close>



text \<open>
  What a request maps to: in a jail that holds no symbolic links, \<^verbatim>\<open>resolve\<close> for a single
  root (a camera's home, or the archive for scope \<open>all\<close>) rejects exactly the virtual paths with a
  \<open>..\<close> component, as a traversal, and maps every other one to the canonical base followed by the
  requested names, whether or not anything exists there.
\<close>

theorem resolve_single_maps:
  assumes "fs_wf fs" and "clean_jail fs base b"
  shows "resolve fs (scope_single base) (path_new v) =
    (if ParentDir \<in> set (path_new v) then Inl Traversal
     else Inr (abs_path (b @ virtual_names (path_new v))))"
  by (rule resolve_single_clean [OF assms])

theorem resolve_single_maps_witness:
  "clean_jail demo_fs (path_new ''/srv/cam'') [''srv'', ''cam''] \<and>
   resolve demo_fs (scope_single (path_new ''/srv/cam'')) (path_new ''/2026/new.mp4'') =
     Inr (abs_path [''srv'', ''cam'', ''2026'', ''new.mp4''])"
proof -
  have c: "clean_jail demo_fs (path_new ''/srv/cam'') [''srv'', ''cam'']" by code_simp
  have p: "path_new ''/2026/new.mp4'' = [RootDir, Normal ''2026'', Normal ''new.mp4'']" by code_simp
  show ?thesis using resolve_single_maps [OF demo_fs_wf c, of "''/2026/new.mp4''"] c
    by (simp add: p virtual_names_def)
qed

text \<open>
  A viewer restricted to named cameras sees only those: for a multi-root scope, a virtual
  path is granted only if its first name is one of the scope's cameras, and then only below that
  camera's directory; the virtual root and every other first name are outside the scope.
\<close>

theorem resolve_multi_scoped:
  assumes "resolve fs (scope_multi rs) v = Inr r"
  shows "\<exists>cam rest base b d. normalize v = Inr (cam # rest) \<and> bt_get rs cam = Some base \<and>
    cam \<in> set (list_root (scope_multi rs)) \<and> lookup fs base = Inr (b, d) \<and>
    path_starts_with r (abs_path b)"
proof -
  from resolve_multi_Inr [OF assms] obtain cam rest base b d where
    c: "normalize v = Inr (cam # rest)" "bt_get rs cam = Some base" "lookup fs base = Inr (b, d)"
    "path_starts_with r (abs_path b)" by blast
  moreover from c(2) have "cam \<in> set (list_root (scope_multi rs))"
    by (force simp: list_root_def scope_multi_def bt_keys_def bt_get_def dest: map_of_SomeD)
  ultimately show ?thesis by blast
qed

theorem resolve_multi_scoped_witness:
  "resolve demo_fs (scope_multi [(''cam'', path_new ''/srv/cam'')]) (path_new ''/cam/old.mp4'') =
     Inr (abs_path [''srv'', ''cam'', ''old.mp4'']) \<and>
   resolve demo_fs (scope_multi [(''cam'', path_new ''/srv/cam'')]) (path_new ''/door'') = Inl OutsideScope \<and>
   (\<exists>cam rest. normalize (path_new ''/cam/old.mp4'') = Inr (cam # rest))"
proof -
  let ?rs = "[(''cam'', path_new ''/srv/cam'')]"
  have r: "resolve demo_fs (scope_multi ?rs) (path_new ''/cam/old.mp4'') =
      Inr (abs_path [''srv'', ''cam'', ''old.mp4''])" by code_simp
  have d: "resolve demo_fs (scope_multi ?rs) (path_new ''/door'') = Inl OutsideScope" by code_simp
  from resolve_multi_scoped [OF r] r d show ?thesis by blast
qed

end
