(* ===== verification/Jail.thy ===== *)
theory Jail
  imports Paths FS_Frame
begin

text \<open>
  A jail without symbolic links under the file system calls: the paths that \<^verbatim>\<open>resolve\<close> returns
  in it satisfy what the frame lemmas of \<open>FS_Frame\<close> ask for, a path below the configured base
  behaves like the canonical one, and no call of the backend spoils the jail.
\<close>

lemma clean_jail_dir:
  assumes "fs_wf fs" "clean_jail fs base b"
  shows "lookup fs base = Inr (b, DDir)" "dent_at fs b = Some DDir"
  using assms lookup_result [OF assms(1), of base b DDir] by (auto simp: clean_jail_def)

lemma nolinks_clean:
  assumes wf: "fs_wf fs" and clean: "clean_jail fs base b"
  shows "nolinks fs (b @ ps)"
  unfolding nolinks_def
proof (intro allI impI)
  fix k t
  assume "prefix k (b @ ps)"
  then consider "prefix b k" | m where "b = k @ m" "m \<noteq> []"
    by (metis append_Nil2 prefix_append prefix_def prefix_order.refl prefix_prefix)
  then show "dent_at fs k \<noteq> Some (DSym t)"
  proof cases
    case 1
    then show ?thesis by (rule clean_jail_nosym [OF clean])
  next
    case 2
    with tree_wf_prefix [OF fs_wf_tree [OF wf], of k m] clean_jail_dir [OF wf clean] show ?thesis by simp
  qed
qed

lemma clean_jail_evolves:
  assumes "fs_wf fs" "fs_wf fs'" "evolves R N I fs fs'" "clean_jail fs base b"
  shows "clean_jail fs' base b"
proof -
  have "case d of DSym _ \<Rightarrow> False | _ \<Rightarrow> True" if "(l, d) \<in> set (ents fs')" "prefix b l" for l d
  proof (cases d)
    case (DSym t)
    with that(1) dent_at_mem [OF assms(2)] have "dent_at fs' l = Some (DSym t)" by simp
    with assms(3) have "dent_at fs l = Some (DSym t)" unfolding evolves_def by blast
    with clean_jail_nosym [OF assms(4) that(2), of t] show ?thesis by simp
  qed simp_all
  moreover have "lookup fs' base = Inr (b, DDir)"
    using lookup_dir_evolves [OF assms(1,3)] clean_jail_dir(1) [OF assms(1,4)] by simp
  ultimately show ?thesis by (auto simp: clean_jail_def list_all_iff)
qed

lemma clean_jail_faults [simp]: "clean_jail (fs\<lparr>faults := fl\<rparr>) base b = clean_jail fs base b"
  by (simp add: clean_jail_def)

section \<open>Paths below the base\<close>

lemma walk_names_fuel:
  assumes "\<And>k t. prefix k xs \<Longrightarrow> E (cur @ k) \<noteq> Some (DSym t)"
  shows "walk E n cur (map Normal xs) = walk E m cur (map Normal xs)"
  using assms
proof (induction xs arbitrary: cur)
  case (Cons x xs)
  have "E (cur @ [x]) \<noteq> Some (DSym t)" for t using Cons.prems [of "[x]"] by simp
  moreover have "walk E n (cur @ [x]) (map Normal xs) = walk E m (cur @ [x]) (map Normal xs)"
    using Cons.prems [of "x # _"] by (intro Cons.IH) simp
  ultimately show ?case by (auto split: option.splits dent.splits)
qed simp

lemma locate_below:
  assumes wf: "fs_wf fs" and clean: "clean_jail fs base b"
  shows "locate fs (base @ map Normal ps) = locate fs (abs_path (b @ ps))"
proof -
  let ?E = "dent_at fs"
  note b = clean_jail_dir [OF wf clean]
  from lookup_result [OF wf b(1)] have loc: "walk ?E MAXSYMLINKS (cwd fs) base = Inr (b, True)"
    by (auto simp: locate_def)
  from walk_append [OF fs_wf_tree [OF wf] loc fs_wf_cwd [OF wf] b(2)] obtain m where
    "locate fs (base @ map Normal ps) = walk ?E m b (map Normal ps)" by (auto simp: locate_def)
  also have "\<dots> = walk ?E MAXSYMLINKS b (map Normal ps)"
    using clean_jail_nosym [OF clean] by (intro walk_names_fuel) simp
  also have "\<dots> = locate fs (abs_path (b @ ps))"
    using walk_through [OF fs_wf_tree [OF wf], of "[]" b MAXSYMLINKS "map Normal ps"] b(2)
    by (simp add: locate_def abs_path_def)
  finally show ?thesis .
qed

lemma lookup_below:
  "fs_wf fs \<Longrightarrow> clean_jail fs base b \<Longrightarrow> lookup fs (base @ map Normal ps) = lookup fs (abs_path (b @ ps))"
  by (simp add: lookup_def locate_below)

lemma entry_of_below:
  assumes "fs_wf fs" "clean_jail fs base b" "ps \<noteq> []"
  shows "entry_of fs (base @ map Normal ps) = entry_of fs (abs_path (b @ ps))"
proof -
  have f: "path_file_name (base @ map Normal ps) = Some (last ps)"
    using assms(3) by (simp add: path_file_name_def last_map)
  have bl: "butlast (base @ map Normal ps) = base @ map Normal (butlast ps)"
    using assms(3) by (simp add: butlast_append map_butlast)
  have "butlast (abs_path (b @ ps)) = abs_path (b @ butlast ps)"
    using assms(3) by (simp add: abs_path_butlast butlast_append)
  moreover have "path_file_name (abs_path (b @ ps)) = Some (last ps)"
    using assms(3) by (simp add: path_file_name_abs)
  ultimately show ?thesis
    unfolding entry_of_def f bl by (simp add: lookup_below [OF assms(1,2)])
qed

lemma fs_open_write_below:
  assumes "fs_wf fs" "clean_jail fs base b"
  shows "fs_open_write trunc (base @ map Normal ps) fs = fs_open_write trunc (abs_path (b @ ps)) fs"
  using locate_below [OF assms, of ps]
  by (simp add: fs_open_write_def syscall_def split: list.splits option.splits)

lemma fs_mkdir_below:
  assumes "fs_wf fs" "clean_jail fs base b" "ps \<noteq> []"
  shows "fs_mkdir (base @ map Normal ps) fs = fs_mkdir (abs_path (b @ ps)) fs"
proof -
  have "path_file_name (base @ map Normal ps) = Some (last ps)"
    using assms(3) by (simp add: path_file_name_def last_map)
  with entry_of_below [OF assms] assms(3) show ?thesis
    by (simp add: fs_mkdir_def syscall_def path_file_name_abs split: list.splits option.splits)
qed

lemma fs_is_dir_below:
  assumes "fs_wf fs" "clean_jail fs base b"
  shows "fs_is_dir (base @ map Normal ps) fs = fs_is_dir (abs_path (b @ ps)) fs"
  using lookup_below [OF assms, of ps]
  by (simp add: fs_is_dir_def fs_metadata_def syscall_def split: list.splits option.splits)

text \<open>A directory directly below the base is created without touching its parents.\<close>

lemma fs_create_dir_all_below:
  assumes wf: "fs_wf fs" and clean: "clean_jail fs base b"
  shows "fs_create_dir_all (base @ [Normal x]) fs = fs_create_dir_all (abs_path (b @ [x])) fs"
proof -
  obtain r fs1 where mk: "fs_mkdir (abs_path (b @ [x])) fs = (r, fs1)" by fastforce
  have nl: "nolinks fs (b @ [x])" by (rule nolinks_clean [OF wf clean])
  from fs_mkdir_frame [OF mk wf nl, of "{}" "{}"] have f: "fs_wf fs1" "evolves {} {b @ [x]} {} fs fs1" by auto
  note clean1 = clean_jail_evolves [OF wf f clean]
  have "entry_of fs (abs_path (b @ [x])) = Inr (b @ [x])"
    using entry_of_abs [OF wf nl] clean_jail_dir [OF wf clean] by simp
  then have "r \<noteq> Inl ENotFound"
    using mk by (auto simp: fs_mkdir_def path_file_name_abs elim!: syscall_cases split: option.splits)
  moreover have "fs_mkdir (base @ [Normal x]) fs = (r, fs1)"
    using fs_mkdir_below [OF wf clean, of "[x]"] mk by simp
  moreover have "fs_is_dir (base @ [Normal x]) fs1 = fs_is_dir (abs_path (b @ [x])) fs1"
    using fs_is_dir_below [OF f(1) clean1, of "[x]"] by simp
  ultimately show ?thesis
    by (subst (1 2) fs_create_dir_all.simps) (simp add: mk split: sum.splits)
qed

end
