(* ===== verification/Config.thy ===== *)
theory Config
  imports Crypto BTree_Map
begin

text \<open>
  \<^verbatim>\<open>src/config.rs\<close>: the configuration as records, the custom deserialiser of \<^verbatim>\<open>Scope\<close>,
  \<^verbatim>\<open>parse_str\<close>, \<^verbatim>\<open>load\<close> and \<^verbatim>\<open>validate\<close>.  The TOML parser with the derived
  \<^verbatim>\<open>Deserialize\<close> code is a parameter \<open>toml\<close>: a function from the text, and the program's own
  deserialiser of scopes, to a configuration or an error message.
\<close>

datatype config_error =
  ReadErr string
| ParseErr string
| Invalid string

fun config_error_display :: "config_error \<Rightarrow> string" where
  "config_error_display (ReadErr e) = ''reading config: '' @ e"
| "config_error_display (ParseErr e) = ''parsing config: '' @ e"
| "config_error_display (Invalid e) = ''invalid config: '' @ e"

record encryption_cfg =
  recipients :: "string list"

record server_cfg =
  listen :: string
  port :: u16
  passive_ports :: "u16 \<times> u16"
  passive_host :: "string option"
  greeting :: "string option"
  tls_cert :: "path option"
  tls_key :: "path option"

record archive_cfg =
  root :: path
  retention_days :: u64

record lockout_cfg =
  max_attempts :: u32
  window_secs :: u64
  ban_secs :: u64

record limits_cfg =
  max_connections :: u32
  max_connections_per_ip :: u32
  new_conns_per_min_per_ip :: u32
  idle_timeout_secs :: u64
  min_transfer_rate_bytes_per_sec :: u64
  failed_login_lockout :: lockout_cfg
  max_connections_per_account :: "u32 option"

record camera_cfg =
  cam_name :: string
  cam_username :: "string option"
  upload_password_hash :: string
  cam_require_tls :: "bool option"

datatype scope = All | ScopeList "string list"

record viewer_cfg =
  viewer_name :: string
  viewer_password_hash :: string
  viewer_scope :: scope

record config =
  server :: server_cfg
  archive :: archive_cfg
  limits :: limits_cfg
  camera :: "camera_cfg list"
  group_map :: "(string, string list) btree"
  viewer :: "viewer_cfg list"
  encryption :: "encryption_cfg option"

text \<open>\<^verbatim>\<open>impl Deserialize for Scope\<close>, from the untagged helper enumeration.\<close>

datatype scope_repr = ReprStr string | ReprList "string list"

definition scope_deserialize :: "scope_repr \<Rightarrow> string + scope" where
  "scope_deserialize r =
     (case r of
        ReprStr s \<Rightarrow>
          if s = ''all'' then Inr All
          else Inl (''expected \"all\" or an array of strings, got \"'' @ s @ ''\"'')
      | ReprList v \<Rightarrow> Inr (ScopeList v))"

definition login :: "camera_cfg \<Rightarrow> string" where
  "login cam = (case cam_username cam of Some u \<Rightarrow> u | None \<Rightarrow> cam_name cam)"

type_synonym toml = "(scope_repr \<Rightarrow> string + scope) \<Rightarrow> string \<Rightarrow> string + config"

definition parse_str :: "toml \<Rightarrow> string \<Rightarrow> config_error + config" where
  "parse_str toml s =
     (case toml scope_deserialize s of Inl e \<Rightarrow> Inl (ParseErr e) | Inr c \<Rightarrow> Inr c)"

section \<open>Validation\<close>

text \<open>The loops of \<^verbatim>\<open>validate\<close>, in order; the sets are the \<^verbatim>\<open>BTreeSet\<close>s filled by the first.\<close>

fun check_cameras ::
    "camera_cfg list \<Rightarrow> string set \<Rightarrow> string set \<Rightarrow> config_error + string set \<times> string set" where
  "check_cameras [] names logins = Inr (names, logins)"
| "check_cameras (cam # cams) names logins =
     (if cam_name cam \<in> names then Inl (Invalid (''duplicate camera name '' @ cam_name cam))
      else if login cam \<in> logins then Inl (Invalid (''duplicate username '' @ login cam))
      else check_cameras cams (insert (cam_name cam) names) (insert (login cam) logins))"

fun check_members :: "string set \<Rightarrow> string \<Rightarrow> string list \<Rightarrow> config_error + unit" where
  "check_members names g [] = Inr ()"
| "check_members names g (m # ms) =
     (if m \<notin> names then Inl (Invalid (''group '' @ g @ '' references unknown camera '' @ m))
      else check_members names g ms)"

fun check_groups :: "string set \<Rightarrow> (string, string list) btree \<Rightarrow> config_error + unit" where
  "check_groups names [] = Inr ()"
| "check_groups names ((g, members) # gs) =
     (case check_members names g members of Inl e \<Rightarrow> Inl e | Inr _ \<Rightarrow> check_groups names gs)"

fun check_viewer_names :: "string set \<Rightarrow> viewer_cfg list \<Rightarrow> string set \<Rightarrow> config_error + unit" where
  "check_viewer_names logins [] seen = Inr ()"
| "check_viewer_names logins (v # vs) seen =
     (if viewer_name v \<in> seen then Inl (Invalid (''duplicate viewer name '' @ viewer_name v))
      else if viewer_name v \<in> logins then
        Inl (Invalid (''viewer name '' @ viewer_name v @ '' collides with a camera login''))
      else check_viewer_names logins vs (insert (viewer_name v) seen))"

fun check_items ::
    "string set \<Rightarrow> (string, string list) btree \<Rightarrow> string \<Rightarrow> string list \<Rightarrow> config_error + unit" where
  "check_items names groups v [] = Inr ()"
| "check_items names groups v (it # items) =
     (if it \<notin> names \<and> bt_get groups it = None
      then Inl (Invalid (''viewer '' @ v @ '' scope references unknown '' @ it))
      else check_items names groups v items)"

fun check_scopes ::
    "string set \<Rightarrow> (string, string list) btree \<Rightarrow> viewer_cfg list \<Rightarrow> config_error + unit" where
  "check_scopes names groups [] = Inr ()"
| "check_scopes names groups (v # vs) =
     (case viewer_scope v of
        All \<Rightarrow> check_scopes names groups vs
      | ScopeList items \<Rightarrow>
          (case check_items names groups (viewer_name v) items of
             Inl e \<Rightarrow> Inl e
           | Inr _ \<Rightarrow> check_scopes names groups vs))"

definition check_encryption ::
    "('r, 'k, 'e, 's, 'd) age_lib \<Rightarrow> encryption_cfg option \<Rightarrow> config_error + unit" where
  "check_encryption age enc =
     (case enc of
        None \<Rightarrow> Inr ()
      | Some enc \<Rightarrow>
          if recipients enc = [] then Inl (Invalid ''[encryption].recipients must be non-empty'')
          else
            (case parse_recipients age (recipients enc) of
               Inl e \<Rightarrow> Inl (Invalid (''[encryption]: '' @ crypto_error_display e))
             | Inr _ \<Rightarrow> Inr ()))"

definition validate :: "('r, 'k, 'e, 's, 'd) age_lib \<Rightarrow> config \<Rightarrow> config_error + unit" where
  "validate age c =
     (if fst (passive_ports (server c)) > snd (passive_ports (server c))
      then Inl (Invalid ''passive_ports must be ordered'')
      else
        (case check_cameras (camera c) {} {} of
           Inl e \<Rightarrow> Inl e
         | Inr (names, logins) \<Rightarrow>
             (case check_groups names (group_map c) of
                Inl e \<Rightarrow> Inl e
              | Inr _ \<Rightarrow>
                  (case check_viewer_names logins (viewer c) {} of
                     Inl e \<Rightarrow> Inl e
                   | Inr _ \<Rightarrow>
                       (case check_scopes names (group_map c) (viewer c) of
                          Inl e \<Rightarrow> Inl e
                        | Inr _ \<Rightarrow> check_encryption age (encryption c))))))"

definition load ::
    "('r, 'k, 'e, 's, 'd) age_lib \<Rightarrow> toml \<Rightarrow> path \<Rightarrow> fs \<Rightarrow> (config_error + config) \<times> fs" where
  "load age toml p fs =
     (case fs_read_to_string p fs of
        (Inl e, fs) \<Rightarrow> (Inl (ReadErr (io_display e)), fs)
      | (Inr s, fs) \<Rightarrow>
          (case parse_str toml s of
             Inl e \<Rightarrow> (Inl e, fs)
           | Inr c \<Rightarrow> (case validate age c of Inl e \<Rightarrow> (Inl e, fs) | Inr _ \<Rightarrow> (Inr c, fs))))"

section \<open>What a valid configuration is\<close>

definition camera_names :: "config \<Rightarrow> string set" where
  "camera_names c = cam_name ` set (camera c)"

definition valid_config :: "('r, 'k, 'e, 's, 'd) age_lib \<Rightarrow> config \<Rightarrow> bool" where
  "valid_config age c \<longleftrightarrow>
     fst (passive_ports (server c)) \<le> snd (passive_ports (server c)) \<and>
     distinct (map cam_name (camera c)) \<and> distinct (map login (camera c)) \<and>
     (\<forall>(g, ms) \<in> set (group_map c). set ms \<subseteq> camera_names c) \<and>
     distinct (map viewer_name (viewer c)) \<and>
     viewer_name ` set (viewer c) \<inter> login ` set (camera c) = {} \<and>
     (\<forall>v \<in> set (viewer c). \<forall>items. viewer_scope v = ScopeList items \<longrightarrow>
        set items \<subseteq> camera_names c \<union> fst ` set (group_map c)) \<and>
     (\<forall>enc. encryption c = Some enc \<longrightarrow>
        recipients enc \<noteq> [] \<and> (\<forall>s \<in> set (recipients enc). \<exists>r. recipient_from_str age (str_trim s) = Inr r))"

lemma check_cameras_Inr:
  "check_cameras cams names logins = Inr (N, L) \<longleftrightarrow>
     distinct (map cam_name cams) \<and> distinct (map login cams) \<and>
     names \<inter> cam_name ` set cams = {} \<and> logins \<inter> login ` set cams = {} \<and>
     N = names \<union> cam_name ` set cams \<and> L = logins \<union> login ` set cams"
  by (induction cams names logins rule: check_cameras.induct) auto

lemma check_members_Inr: "check_members names g ms = Inr () \<longleftrightarrow> set ms \<subseteq> names"
  by (induction ms) auto

lemma check_groups_Inr: "check_groups names gs = Inr () \<longleftrightarrow> (\<forall>(g, ms) \<in> set gs. set ms \<subseteq> names)"
  by (induction names gs rule: check_groups.induct)
    (auto simp: check_members_Inr case_sum_Inr_iff)

lemma check_viewer_names_Inr:
  "check_viewer_names logins vs seen = Inr () \<longleftrightarrow>
     distinct (map viewer_name vs) \<and> seen \<inter> viewer_name ` set vs = {} \<and> logins \<inter> viewer_name ` set vs = {}"
  by (induction logins vs seen rule: check_viewer_names.induct) auto

lemma check_items_Inr:
  "check_items names groups v items = Inr () \<longleftrightarrow> set items \<subseteq> names \<union> fst ` set groups"
  by (induction items) (auto simp: bt_get_def map_of_eq_None_iff)

lemma check_scopes_Inr:
  "check_scopes names groups vs = Inr () \<longleftrightarrow>
     (\<forall>v \<in> set vs. \<forall>items. viewer_scope v = ScopeList items \<longrightarrow> set items \<subseteq> names \<union> fst ` set groups)"
  by (induction vs) (auto simp: check_items_Inr case_sum_Inr_iff split: scope.splits)

lemma parse_recipients_Inr:
  "parse_recipients age strs = Inr rs \<longleftrightarrow>
     list_all2 (\<lambda>s r. recipient_from_str age (str_trim s) = Inr r) strs rs"
proof (induction strs arbitrary: rs)
  case (Cons s strs)
  then show ?case by (cases rs) (auto simp: case_sum_Inr_iff split: sum.splits)
qed auto

lemma parse_recipients_ok:
  "(\<exists>rs. parse_recipients age strs = Inr rs) \<longleftrightarrow>
     (\<forall>s \<in> set strs. \<exists>r. recipient_from_str age (str_trim s) = Inr r)"
  by (induction strs) (auto split: sum.splits)

lemma check_encryption_Inr:
  "check_encryption age enc = Inr () \<longleftrightarrow> (\<forall>e. enc = Some e \<longrightarrow> recipients e \<noteq> [] \<and>
     (\<forall>s \<in> set (recipients e). \<exists>r. recipient_from_str age (str_trim s) = Inr r))"
  unfolding parse_recipients_ok [symmetric]
  by (auto simp: check_encryption_def split: option.splits sum.splits)

lemma validate_Inr: "validate age c = Inr () \<longleftrightarrow> valid_config age c"
proof -
  have "validate age c = Inr () \<longleftrightarrow> \<not> fst (passive_ports (server c)) > snd (passive_ports (server c)) \<and>
    (\<exists>N L. check_cameras (camera c) {} {} = Inr (N, L) \<and> check_groups N (group_map c) = Inr () \<and>
      check_viewer_names L (viewer c) {} = Inr () \<and> check_scopes N (group_map c) (viewer c) = Inr () \<and>
      check_encryption age (encryption c) = Inr ())"
    by (auto simp: validate_def split: sum.splits)
  then show ?thesis
    by (auto simp: valid_config_def camera_names_def check_cameras_Inr check_groups_Inr
        check_viewer_names_Inr check_scopes_Inr check_encryption_Inr not_less)
qed

section \<open>Examples\<close>

text \<open>A configuration with two cameras, a group and two viewers.\<close>

definition demo_camera :: "string \<Rightarrow> string option \<Rightarrow> camera_cfg" where
  "demo_camera n u = \<lparr>cam_name = n, cam_username = u, upload_password_hash = ''hash-'' @ n, cam_require_tls = None\<rparr>"

definition demo_config :: config where
  "demo_config =
     \<lparr>server = \<lparr>listen = ''0.0.0.0'', port = 21, passive_ports = (50000, 50100), passive_host = None,
        greeting = None, tls_cert = None, tls_key = None\<rparr>,
      archive = \<lparr>root = path_new ''/srv'', retention_days = 30\<rparr>,
      limits = \<lparr>max_connections = 256, max_connections_per_ip = 8, new_conns_per_min_per_ip = 30,
        idle_timeout_secs = 120, min_transfer_rate_bytes_per_sec = 1024,
        failed_login_lockout = \<lparr>max_attempts = 5, window_secs = 300, ban_secs = 900\<rparr>,
        max_connections_per_account = Some 2\<rparr>,
      camera = [demo_camera ''cam'' (Some ''u-cam''), demo_camera ''door'' None],
      group_map = [(''outdoor'', [''door''])],
      viewer = [\<lparr>viewer_name = ''admin'', viewer_password_hash = ''h1'', viewer_scope = All\<rparr>,
        \<lparr>viewer_name = ''patio'', viewer_password_hash = ''h2'', viewer_scope = ScopeList [''outdoor'', ''cam'']\<rparr>],
      encryption = None\<rparr>"

lemma demo_config_valid: "valid_config age demo_config"
  by (simp add: valid_config_def demo_config_def demo_camera_def camera_names_def login_def)

section \<open>Properties\<close>

text \<open>
  (C35) A configuration file is accepted exactly when it can be read as UTF-8, parses to that
  configuration, and the passive ports are ordered, camera names, camera logins and viewer names
  are each unique, no viewer is named like a camera login, every group member is a camera, every
  item of a viewer's scope is a camera or a group, and an encryption section has at least one
  recipient and only parseable ones (\<open>valid_config\<close>).
\<close>

theorem load_accepts:
  "load age toml p fs = (Inr c, fs') \<longleftrightarrow>
     (\<exists>s. fs_read_to_string p fs = (Inr s, fs') \<and> toml scope_deserialize s = Inr c \<and> valid_config age c)"
  unfolding validate_Inr [symmetric]
  by (auto simp: load_def parse_str_def split: prod.splits sum.splits)

end
