(* ===== verification/Account.thy ===== *)
theory Account
  imports Config Paths
begin

text \<open>
  \<^verbatim>\<open>src/account.rs\<close>: the accounts of a configuration, keyed by login name.
\<close>

datatype role =
  Uploader (home: path)
| Viewer (scope: scope_map)

record account =
  username :: string
  password_hash :: string
  role :: role
  require_tls :: bool

record accounts =
  by_login :: "(string, account) btree"

definition accounts_get :: "accounts \<Rightarrow> string \<Rightarrow> account option" where
  "accounts_get a l = bt_get (by_login a) l"

text \<open>The two loops of \<^verbatim>\<open>expand_scope\<close>: the names, groups expanded, then the directory of each.\<close>

fun scope_names :: "(string, string list) btree \<Rightarrow> string list \<Rightarrow> (string, unit) btree \<Rightarrow> (string, unit) btree" where
  "scope_names groups [] names = names"
| "scope_names groups (it # items) names =
     (case bt_get groups it of
        Some members \<Rightarrow> scope_names groups items (fold (\<lambda>m. bt_insert m ()) members names)
      | None \<Rightarrow> scope_names groups items (bt_insert it () names))"

definition expand_scope :: "config \<Rightarrow> scope \<Rightarrow> scope_map" where
  "expand_scope cfg sc =
     (let r = root (archive cfg)
      in case sc of
           All \<Rightarrow> scope_single r
         | ScopeList items \<Rightarrow>
             (let names = scope_names (group_map cfg) items []
              in scope_multi (fold (\<lambda>n. bt_insert n (path_join r (path_new n))) (bt_keys names) [])))"

definition camera_account :: "config \<Rightarrow> camera_cfg \<Rightarrow> account" where
  "camera_account cfg cam =
     \<lparr>username = login cam, password_hash = upload_password_hash cam,
      role = Uploader (path_join (root (archive cfg)) (path_new (cam_name cam))),
      require_tls = (case cam_require_tls cam of Some b \<Rightarrow> b | None \<Rightarrow> False)\<rparr>"

definition viewer_account :: "config \<Rightarrow> viewer_cfg \<Rightarrow> account" where
  "viewer_account cfg v =
     \<lparr>username = viewer_name v, password_hash = viewer_password_hash v,
      role = Viewer (expand_scope cfg (viewer_scope v)), require_tls = False\<rparr>"

definition build :: "config \<Rightarrow> accounts" where
  "build cfg =
     \<lparr>by_login =
        fold (\<lambda>v. bt_insert (viewer_name v) (viewer_account cfg v)) (viewer cfg)
          (fold (\<lambda>cam. bt_insert (login cam) (camera_account cfg cam)) (camera cfg) [])\<rparr>"

section \<open>Lookups\<close>

text \<open>A loop of insertions is the insertion of a list of pairs.\<close>

lemma fold_bt_insert:
  "bt_sorted m \<Longrightarrow> bt_sorted (fold (\<lambda>x. bt_insert (f x) (g x)) xs m) \<and>
     bt_get (fold (\<lambda>x. bt_insert (f x) (g x)) xs m) = bt_get m ++ map_of (rev (map (\<lambda>x. (f x, g x)) xs))"
  using bt.fold_insert [of m "map (\<lambda>x. (f x, g x)) xs"] by (simp add: fold_map comp_def)

lemma bt_sorted_Nil [simp]: "bt_sorted []"
  by (rule bt.invar_empty)

lemma build_get:
  "accounts_get (build cfg) =
     map_of (rev (map (\<lambda>c. (login c, camera_account cfg c)) (camera cfg))) ++
     map_of (rev (map (\<lambda>v. (viewer_name v, viewer_account cfg v)) (viewer cfg)))"
proof -
  let ?cams = "fold (\<lambda>cam. bt_insert (login cam) (camera_account cfg cam)) (camera cfg) []"
  have c: "bt_sorted ?cams"
    "bt_get ?cams = map_of (rev (map (\<lambda>c. (login c, camera_account cfg c)) (camera cfg)))"
    using fold_bt_insert [of "[]" login "camera_account cfg" "camera cfg"]
    by (simp_all add: bt.get_empty)
  have "accounts_get (build cfg) =
      bt_get (fold (\<lambda>v. bt_insert (viewer_name v) (viewer_account cfg v)) (viewer cfg) ?cams)"
    by (simp add: fun_eq_iff accounts_get_def build_def)
  with fold_bt_insert [OF c(1), of viewer_name "viewer_account cfg" "viewer cfg"] c(2)
  show ?thesis by simp
qed

lemma map_of_rev_pairs:
  assumes "distinct (map f xs)"
  shows "map_of (rev (map (\<lambda>x. (f x, g x)) xs)) k = Some v \<longleftrightarrow> (\<exists>x \<in> set xs. f x = k \<and> v = g x)"
proof -
  have "distinct (map fst (map (\<lambda>x. (f x, g x)) xs))" using assms by (simp add: comp_def)
  from map_of_rev_distinct [OF this] map_of_eq_Some_iff [OF this] show ?thesis by auto
qed

lemma map_of_rev_pairs_None: "map_of (rev (map (\<lambda>x. (f x, g x)) xs)) k = None \<longleftrightarrow> k \<notin> f ` set xs"
  by (force simp: map_of_eq_None_iff image_image)

text \<open>With unique logins every account is found under its own name.\<close>

lemma build_accounts:
  assumes "valid_config age cfg"
  shows "accounts_get (build cfg) l = Some a \<longleftrightarrow>
    (\<exists>cam \<in> set (camera cfg). login cam = l \<and> a = camera_account cfg cam) \<or>
    (\<exists>v \<in> set (viewer cfg). viewer_name v = l \<and> a = viewer_account cfg v)"
proof -
  from assms have d: "distinct (map login (camera cfg))" "distinct (map viewer_name (viewer cfg))"
    "viewer_name ` set (viewer cfg) \<inter> login ` set (camera cfg) = {}" by (simp_all add: valid_config_def)
  show ?thesis
    unfolding build_get map_add_Some_iff map_of_rev_pairs [OF d(1)] map_of_rev_pairs [OF d(2)]
      map_of_rev_pairs_None
    using d(3) by auto
qed

section \<open>Scopes\<close>

definition scope_cameras :: "config \<Rightarrow> string list \<Rightarrow> string set" where
  "scope_cameras cfg items =
     (\<Union>it \<in> set items. case bt_get (group_map cfg) it of Some ms \<Rightarrow> set ms | None \<Rightarrow> {it})"

lemma scope_names_facts:
  "bt_sorted names \<Longrightarrow> bt_sorted (scope_names groups items names) \<and>
     set (bt_keys (scope_names groups items names)) = set (bt_keys names) \<union>
       (\<Union>it \<in> set items. case bt_get groups it of Some ms \<Rightarrow> set ms | None \<Rightarrow> {it})"
proof (induction items arbitrary: names)
  case (Cons it items)
  have k: "set (bt_keys (fold (\<lambda>m. bt_insert m ()) ms names)) = set (bt_keys names) \<union> set ms \<and>
      bt_sorted (fold (\<lambda>m. bt_insert m ()) ms names)" for ms
    using fold_bt_insert [OF Cons.prems, of "\<lambda>m. m" "\<lambda>_. ()" ms] bt.keys_dom [OF Cons.prems]
    by (auto simp: bt.keys_dom dom_map_of_conv_image_fst image_image)
  from k [of "[it]"] have "set (bt_keys (bt_insert it () names)) = insert it (set (bt_keys names))"
    "bt_sorted (bt_insert it () names)" by simp_all
  with k Cons.IH show ?case by (auto split: option.splits)
qed simp

lemma expand_scope_list:
  "expand_scope cfg (ScopeList items) =
     scope_multi (roots (expand_scope cfg (ScopeList items)))" and
  expand_scope_get:
  "bt_get (roots (expand_scope cfg (ScopeList items))) n =
     (if n \<in> scope_cameras cfg items then Some (path_join (root (archive cfg)) (path_new n)) else None)" and
  expand_scope_roots:
  "set (list_root (expand_scope cfg (ScopeList items))) = scope_cameras cfg items \<and>
   sorted_wrt (<) (list_root (expand_scope cfg (ScopeList items)))"
proof -
  let ?names = "scope_names (group_map cfg) items []"
  let ?g = "\<lambda>n. path_join (root (archive cfg)) (path_new n)"
  have n: "set (bt_keys ?names) = scope_cameras cfg items" "bt_sorted ?names"
    using scope_names_facts [of "[]" "group_map cfg" items] by (simp_all add: scope_cameras_def bt_keys_def)
  have r: "roots (expand_scope cfg (ScopeList items)) = fold (\<lambda>n. bt_insert n (?g n)) (bt_keys ?names) []"
    by (simp add: expand_scope_def Let_def scope_multi_def)
  have f: "bt_sorted (roots (expand_scope cfg (ScopeList items)))"
    "bt_get (roots (expand_scope cfg (ScopeList items))) = map_of (rev (map (\<lambda>n. (n, ?g n)) (bt_keys ?names)))"
    unfolding r using fold_bt_insert [of "[]" "\<lambda>n. n" ?g "bt_keys ?names"] by (simp_all add: bt.get_empty)
  show "expand_scope cfg (ScopeList items) = scope_multi (roots (expand_scope cfg (ScopeList items)))"
    by (simp add: expand_scope_def Let_def scope_multi_def)
  have "distinct (map (\<lambda>n. n) (bt_keys ?names))"
    using bt.keys_sorted [OF n(2)] by (simp add: strict_sorted_iff)
  then have "map_of (rev (map (\<lambda>n. (n, ?g n)) (bt_keys ?names))) n =
      (if n \<in> scope_cameras cfg items then Some (?g n) else None)"
    using map_of_rev_pairs [of "\<lambda>n. n" _ ?g n] n(1) by (intro option_ext) auto
  then show "bt_get (roots (expand_scope cfg (ScopeList items))) n =
      (if n \<in> scope_cameras cfg items then Some (?g n) else None)"
    unfolding f(2) .
  have "dom (bt_get (roots (expand_scope cfg (ScopeList items)))) = scope_cameras cfg items"
    unfolding f(2) by (simp add: dom_map_of_conv_image_fst image_image n(1))
  then show "set (list_root (expand_scope cfg (ScopeList items))) = scope_cameras cfg items \<and>
     sorted_wrt (<) (list_root (expand_scope cfg (ScopeList items)))"
    unfolding list_root_def bt.keys_dom [OF f(1)] using bt.keys_sorted [OF f(1)] by simp
qed

lemma scope_cameras_valid:
  assumes "valid_config age cfg" "v \<in> set (viewer cfg)" "viewer_scope v = ScopeList items"
  shows "scope_cameras cfg items \<subseteq> camera_names cfg"
proof
  fix n
  assume "n \<in> scope_cameras cfg items"
  then obtain it where it: "it \<in> set items"
    "n \<in> (case bt_get (group_map cfg) it of Some ms \<Rightarrow> set ms | None \<Rightarrow> {it})"
    by (auto simp: scope_cameras_def)
  show "n \<in> camera_names cfg"
  proof (cases "bt_get (group_map cfg) it")
    case None
    from assms have "set items \<subseteq> camera_names cfg \<union> fst ` set (group_map cfg)"
      unfolding valid_config_def by blast
    with None it have "n = it" "it \<in> camera_names cfg \<union> fst ` set (group_map cfg)" by auto
    with None show ?thesis by (auto simp: bt_get_def map_of_eq_None_iff)
  next
    case (Some ms)
    then have "(it, ms) \<in> set (group_map cfg)" by (simp add: bt_get_def map_of_SomeD)
    with assms(1) have "set ms \<subseteq> camera_names cfg" unfolding valid_config_def by blast
    with Some it show ?thesis by auto
  qed
qed

section \<open>Properties\<close>

text \<open>
  (C33) The account table of a validated configuration holds exactly one account per camera and
  per viewer, each under its own login: no account shadows another, a camera logs in as an
  uploader whose home is its directory under the archive root, and a viewer as a viewer of the
  scope it was given.
\<close>

theorem build_exact:
  assumes "validate age cfg = Inr ()"
  shows "accounts_get (build cfg) l = Some a \<longleftrightarrow>
    (\<exists>cam \<in> set (camera cfg). l = login cam \<and>
       a = \<lparr>username = l, password_hash = upload_password_hash cam,
            role = Uploader (path_join (root (archive cfg)) (path_new (cam_name cam))),
            require_tls = (cam_require_tls cam = Some True)\<rparr>) \<or>
    (\<exists>v \<in> set (viewer cfg). l = viewer_name v \<and>
       a = \<lparr>username = l, password_hash = viewer_password_hash v,
            role = Viewer (expand_scope cfg (viewer_scope v)), require_tls = False\<rparr>)"
proof -
  have valid: "valid_config age cfg" using assms by (simp add: validate_Inr)
  have cam: "camera_account cfg cam = \<lparr>username = login cam, password_hash = upload_password_hash cam,
      role = Uploader (path_join (root (archive cfg)) (path_new (cam_name cam))),
      require_tls = (cam_require_tls cam = Some True)\<rparr>" for cam
    by (cases "cam_require_tls cam") (simp_all add: camera_account_def)
  show ?thesis
    unfolding build_accounts [OF valid] cam viewer_account_def
    by (intro arg_cong2 [where f = "(\<or>)"] bex_cong refl) auto
qed

theorem build_exact_witness:
  "accounts_get (build demo_config) ''u-cam'' = Some (camera_account demo_config (demo_camera ''cam'' (Some ''u-cam'')))"
proof -
  have "validate age demo_config = Inr ()" for age :: "(nat, nat, nat, nat, nat) age_lib"
    using demo_config_valid by (simp add: validate_Inr)
  from build_exact [OF this, of "''u-cam''"] show ?thesis
    by (simp add: demo_config_def demo_camera_def login_def camera_account_def)
qed

text \<open>
  (C34) A viewer with a list scope is confined to configured cameras: whatever path the scope
  grants lies, symbolic links resolved, below the directory of a camera that is named in the list
  or is a member of a group named in the list.
\<close>

theorem viewer_confined_to_cameras:
  assumes "validate age cfg = Inr ()" and "v \<in> set (viewer cfg)" and "viewer_scope v = ScopeList items"
    and "resolve fs (expand_scope cfg (viewer_scope v)) p = Inr r"
  shows "\<exists>cam b d. cam \<in> camera_names cfg \<and>
    (cam \<in> set items \<or> (\<exists>g \<in> set items. \<exists>ms. bt_get (group_map cfg) g = Some ms \<and> cam \<in> set ms)) \<and>
    lookup fs (path_join (root (archive cfg)) (path_new cam)) = Inr (b, d) \<and>
    path_starts_with r (abs_path b)"
proof -
  let ?m = "expand_scope cfg (ScopeList items)"
  have valid: "valid_config age cfg" using assms(1) by (simp add: validate_Inr)
  from assms(3,4) have "resolve fs (scope_multi (roots ?m)) p = Inr r"
    using expand_scope_list [of cfg items] by simp
  from resolve_multi_Inr [OF this] obtain cam rest base b d where
    c: "bt_get (roots ?m) cam = Some base" "lookup fs base = Inr (b, d)" "path_starts_with r (abs_path b)"
    by blast
  then have cam: "cam \<in> scope_cameras cfg items" "base = path_join (root (archive cfg)) (path_new cam)"
    by (auto simp: expand_scope_get split: if_splits)
  then have "cam \<in> set items \<or> (\<exists>g \<in> set items. \<exists>ms. bt_get (group_map cfg) g = Some ms \<and> cam \<in> set ms)"
    by (auto simp: scope_cameras_def split: option.splits)
  with c cam scope_cameras_valid [OF valid assms(2,3)] show ?thesis by blast
qed

theorem viewer_confined_to_cameras_witness:
  "\<exists>cam b d. cam \<in> camera_names demo_config \<and>
    (cam \<in> {''outdoor'', ''cam''} \<or> cam = ''door'') \<and>
    lookup demo_fs (path_join (root (archive demo_config)) (path_new cam)) = Inr (b, d) \<and>
    path_starts_with (abs_path [''srv'', ''cam'', ''old.mp4'']) (abs_path b)"
proof -
  let ?v = "\<lparr>viewer_name = ''patio'', viewer_password_hash = ''h2'', viewer_scope = ScopeList [''outdoor'', ''cam'']\<rparr>"
  have 1: "validate age demo_config = Inr ()" for age :: "(nat, nat, nat, nat, nat) age_lib"
    using demo_config_valid by (simp add: validate_Inr)
  have 2: "?v \<in> set (viewer demo_config)" by (simp add: demo_config_def)
  have 3: "resolve demo_fs (expand_scope demo_config (viewer_scope ?v)) (path_new ''/cam/old.mp4'') =
      Inr (abs_path [''srv'', ''cam'', ''old.mp4''])" by code_simp
  have g: "bt_get (group_map demo_config) x = (if x = ''outdoor'' then Some [''door''] else None)" for x
    by (simp add: demo_config_def bt_get_def)
  from viewer_confined_to_cameras [OF 1 2 _ 3, of "[''outdoor'', ''cam'']"] show ?thesis
    by (auto simp: g split: if_splits)
qed

end
