(* ===== verification/Hashing.thy ===== *)
theory Hashing
  imports Prelude
begin

text \<open>
  \<^verbatim>\<open>src/hashing.rs\<close>: password hashing.  The \<^verbatim>\<open>argon2\<close> and \<^verbatim>\<open>password_hash\<close> crates are the
  parameter \<open>argon2_lib\<close>; \<open>argon2_correct\<close> is what theorems assume of them: a password verifies
  against its own hash, under whatever salt.
\<close>

datatype algorithm = Argon2id
datatype version = V0x13

record argon2_params =
  p_algorithm :: algorithm
  p_version :: version
  m_cost :: u32
  t_cost :: u32
  p_cost :: u32

record 'p argon2_lib =
  lib_hash_password :: "argon2_params \<Rightarrow> bytes \<Rightarrow> string \<Rightarrow> string + string"
  lib_password_hash_new :: "string \<Rightarrow> string + 'p"
  lib_verify_password :: "argon2_params \<Rightarrow> bytes \<Rightarrow> 'p \<Rightarrow> string + unit"

datatype hash_error = HashFailed string | HashParse string

fun hash_error_display :: "hash_error \<Rightarrow> string" where
  "hash_error_display (HashFailed e) = ''password hashing failed: '' @ e"
| "hash_error_display (HashParse e) = ''invalid password hash: '' @ e"

definition hasher :: argon2_params where
  "hasher = \<lparr>p_algorithm = Argon2id, p_version = V0x13, m_cost = 19456, t_cost = 2, p_cost = 1\<rparr>"

text \<open>The random salt is an argument.\<close>

definition hash_password :: "'p argon2_lib \<Rightarrow> string \<Rightarrow> string \<Rightarrow> hash_error + string" where
  "hash_password lib salt plain =
     (case lib_hash_password lib hasher plain salt of
        Inl e \<Rightarrow> Inl (HashFailed e)
      | Inr phc \<Rightarrow> Inr phc)"

definition verify_password :: "'p argon2_lib \<Rightarrow> string \<Rightarrow> string \<Rightarrow> hash_error + bool" where
  "verify_password lib plain phc =
     (case lib_password_hash_new lib phc of
        Inl e \<Rightarrow> Inl (HashParse e)
      | Inr parsed \<Rightarrow>
          Inr (case lib_verify_password lib hasher plain parsed of Inr _ \<Rightarrow> True | Inl _ \<Rightarrow> False))"

definition argon2_correct :: "'p argon2_lib \<Rightarrow> bool" where
  "argon2_correct lib \<longleftrightarrow>
     (\<forall>ps plain salt phc. lib_hash_password lib ps plain salt = Inr phc \<longrightarrow>
        (\<exists>parsed. lib_password_hash_new lib phc = Inr parsed \<and> lib_verify_password lib ps plain parsed = Inr ()))"

lemma verify_own_hash:
  assumes "argon2_correct lib" "hash_password lib salt plain = Inr phc"
  shows "verify_password lib plain phc = Inr True"
proof -
  from assms(2) have "lib_hash_password lib hasher plain salt = Inr phc"
    by (simp add: hash_password_def split: sum.splits)
  with assms(1) obtain parsed where "lib_password_hash_new lib phc = Inr parsed"
    "lib_verify_password lib hasher plain parsed = Inr ()" unfolding argon2_correct_def by blast
  then show ?thesis by (simp add: verify_password_def)
qed

text \<open>A library for examples: the hash is the password and salt in the clear.\<close>

definition toy_argon2 :: "string argon2_lib" where
  "toy_argon2 =
     \<lparr>lib_hash_password = (\<lambda>ps plain salt. Inr (''$argon2id$'' @ plain)),
      lib_password_hash_new =
        (\<lambda>s. if str_starts_with s ''$argon2id$'' then Inr (drop 10 s) else Inl ''missing field''),
      lib_verify_password = (\<lambda>ps plain p. if plain = p then Inr () else Inl ''invalid password'')\<rparr>"

lemma toy_argon2_correct: "argon2_correct toy_argon2"
  by (simp add: argon2_correct_def toy_argon2_def str_starts_with_def)

end
