(* ===== verification/Auth.thy ===== *)
theory Auth
  imports Account Hashing Limits
begin

text \<open>
  \<^verbatim>\<open>src/auth.rs\<close>: the credential check, the TLS requirement, the connection caps as the last
  gate of a login, and the lookup of the user behind a principal.  The account table is the value
  the \<^verbatim>\<open>ArcSwap\<close> holds when the call loads it; the session tracker is passed as state.
\<close>

datatype channel_encryption_state = Plaintext | Tls

record credentials =
  password :: "string option"
  command_channel_security :: channel_encryption_state

record principal =
  principal_name :: string

datatype authentication_error = BadPassword | AuthErr string

datatype user_detail_error = UserNotFound string

definition check_credentials :: "'p argon2_lib \<Rightarrow> accounts \<Rightarrow> string \<Rightarrow> string \<Rightarrow> account option" where
  "check_credentials lib accts l pw =
     (case accounts_get accts l of
        None \<Rightarrow> None
      | Some acct \<Rightarrow>
          (case verify_password lib pw (password_hash acct) of
             Inr True \<Rightarrow> Some acct
           | _ \<Rightarrow> None))"

definition channel_is_secure :: "channel_encryption_state \<Rightarrow> bool" where
  "channel_is_secure state = (case state of Tls \<Rightarrow> True | _ \<Rightarrow> False)"

record reo_user =
  user_login :: string
  user_role :: role
  user_require_tls :: bool

definition reo_user_display :: "reo_user \<Rightarrow> string" where
  "reo_user_display u = user_login u"

definition reo_user_home :: "reo_user \<Rightarrow> path option" where
  "reo_user_home u = (case user_role u of Uploader h \<Rightarrow> Some h | Viewer _ \<Rightarrow> None)"

definition authenticate ::
    "'p argon2_lib \<Rightarrow> accounts \<Rightarrow> nat \<Rightarrow> string \<Rightarrow> credentials \<Rightarrow> session_state \<Rightarrow>
     (authentication_error + principal) \<times> session_state" where
  "authenticate lib accts now name creds sess =
     (let pw = (case password creds of Some p \<Rightarrow> p | None \<Rightarrow> [])
      in case check_credentials lib accts name pw of
           Some acct \<Rightarrow>
             if require_tls acct \<and> \<not> channel_is_secure (command_channel_security creds)
             then (Inl (AuthErr ''TLS required for this account''), sess)
             else
               (case try_admit now name sess of
                  (False, sess) \<Rightarrow> (Inl (AuthErr ''connection limit reached''), sess)
                | (True, sess) \<Rightarrow> (Inr \<lparr>principal_name = name\<rparr>, sess))
         | None \<Rightarrow> (Inl BadPassword, sess))"

definition provide_user_detail :: "accounts \<Rightarrow> principal \<Rightarrow> user_detail_error + reo_user" where
  "provide_user_detail accts p =
     (case accounts_get accts (principal_name p) of
        Some a \<Rightarrow> Inr \<lparr>user_login = username a, user_role = role a, user_require_tls = require_tls a\<rparr>
      | None \<Rightarrow> Inl (UserNotFound (principal_name p)))"

section \<open>The gate\<close>

lemma check_credentials_Some:
  "check_credentials lib accts l pw = Some a \<longleftrightarrow>
     accounts_get accts l = Some a \<and> verify_password lib pw (password_hash a) = Inr True"
  by (auto simp: check_credentials_def split: option.splits sum.splits bool.splits)

lemma try_admit_refused: "try_admit now l s = (False, s') \<Longrightarrow> s' = s"
  by (simp add: try_admit_eq split: if_splits)

text \<open>What the credentials must satisfy before the caps are consulted.\<close>

definition credentials_ok :: "'p argon2_lib \<Rightarrow> accounts \<Rightarrow> string \<Rightarrow> credentials \<Rightarrow> bool" where
  "credentials_ok lib accts name creds \<longleftrightarrow>
     (\<exists>a. accounts_get accts name = Some a \<and>
        verify_password lib (case password creds of Some p \<Rightarrow> p | None \<Rightarrow> []) (password_hash a) = Inr True \<and>
        (require_tls a \<longrightarrow> command_channel_security creds = Tls))"

lemma authenticate_cases:
  "authenticate lib accts now name creds sess =
     (if credentials_ok lib accts name creds then
        (if fst (try_admit now name sess) then (Inr \<lparr>principal_name = name\<rparr>, snd (try_admit now name sess))
         else (Inl (AuthErr ''connection limit reached''), sess))
      else
        (Inl (if check_credentials lib accts name (case password creds of Some p \<Rightarrow> p | None \<Rightarrow> []) = None
              then BadPassword else AuthErr ''TLS required for this account''), sess))"
proof (cases "check_credentials lib accts name (case password creds of Some p \<Rightarrow> p | None \<Rightarrow> [])")
  case None
  then have "\<not> credentials_ok lib accts name creds"
    unfolding credentials_ok_def check_credentials_Some [symmetric]
    by (metis check_credentials_Some option.distinct(1))
  with None show ?thesis by (simp add: authenticate_def Let_def)
next
  case (Some a)
  then have ok: "credentials_ok lib accts name creds \<longleftrightarrow> \<not> (require_tls a \<and> \<not> channel_is_secure (command_channel_security creds))"
    by (auto simp: credentials_ok_def check_credentials_Some channel_is_secure_def
        split: channel_encryption_state.splits)
  obtain b s where t: "try_admit now name sess = (b, s)" by fastforce
  with try_admit_refused [of now name sess s] Some ok show ?thesis
    by (cases b) (auto simp: authenticate_def Let_def)
qed

section \<open>Properties\<close>

text \<open>
  (C31) A login succeeds exactly when the account exists, its password verifies (a missing
  password counts as the empty one), the control channel is encrypted if the account requires it,
  and both connection caps have room; it then holds one more slot of that account, stamped with
  the time, and a refused login of any kind leaves the session tracker as it was.
\<close>

theorem authenticate_exact:
  "authenticate lib accts now name creds sess =
     (if credentials_ok lib accts name creds \<and> \<not> at_capacity name sess
      then (Inr \<lparr>principal_name = name\<rparr>, on_login now name sess)
      else (Inl (if check_credentials lib accts name (case password creds of Some p \<Rightarrow> p | None \<Rightarrow> []) = None
                 then BadPassword
                 else if credentials_ok lib accts name creds then AuthErr ''connection limit reached''
                 else AuthErr ''TLS required for this account''), sess))"
proof -
  have "check_credentials lib accts name (case password creds of Some p \<Rightarrow> p | None \<Rightarrow> []) \<noteq> None"
    if "credentials_ok lib accts name creds"
    using that unfolding credentials_ok_def by (metis check_credentials_Some option.distinct(1))
  then show ?thesis
    by (auto simp: authenticate_cases try_admit_eq)
qed

text \<open>
  (C32) Account set-up and login fit together: a camera whose configured hash was made by
  \<^verbatim>\<open>hash_password\<close> from a password logs in with that password over TLS whenever the caps have
  room, and the session is that of an uploader jailed in the camera's directory.
\<close>

theorem registered_camera_logs_in:
  assumes "argon2_correct lib" and "validate age cfg = Inr ()" and "cam \<in> set (camera cfg)"
    and "hash_password lib salt pw = Inr (upload_password_hash cam)"
    and "\<not> at_capacity (login cam) sess"
  shows "fst (authenticate lib (build cfg) now (login cam) \<lparr>password = Some pw, command_channel_security = Tls\<rparr> sess) =
      Inr \<lparr>principal_name = login cam\<rparr> \<and>
    provide_user_detail (build cfg) \<lparr>principal_name = login cam\<rparr> =
      Inr \<lparr>user_login = login cam, user_role = Uploader (path_join (root (archive cfg)) (path_new (cam_name cam))),
           user_require_tls = (cam_require_tls cam = Some True)\<rparr>"
proof -
  have valid: "valid_config age cfg" using assms(2) by (simp add: validate_Inr)
  have acct: "accounts_get (build cfg) (login cam) = Some (camera_account cfg cam)"
    using build_accounts [OF valid] assms(3) by auto
  have "verify_password lib pw (password_hash (camera_account cfg cam)) = Inr True"
    using verify_own_hash [OF assms(1,4)] by (simp add: camera_account_def)
  with acct have "credentials_ok lib (build cfg) (login cam) \<lparr>password = Some pw, command_channel_security = Tls\<rparr>"
    by (simp add: credentials_ok_def)
  moreover have "fst (try_admit now (login cam) sess)"
    using assms(5) by (simp add: try_admit_eq)
  ultimately show ?thesis
    using acct by (cases "cam_require_tls cam")
      (simp_all add: authenticate_cases provide_user_detail_def camera_account_def)
qed

definition demo_hash_config :: config where
  "demo_hash_config = demo_config\<lparr>camera := [(demo_camera ''cam'' None)\<lparr>upload_password_hash := ''$argon2id$pw''\<rparr>],
     group_map := [], viewer := []\<rparr>"

theorem registered_camera_logs_in_witness:
  "fst (authenticate toy_argon2 (build demo_hash_config) 0 ''cam''
     \<lparr>password = Some ''pw'', command_channel_security = Tls\<rparr> (tracker_new 1 None)) =
     Inr \<lparr>principal_name = ''cam''\<rparr>"
proof -
  let ?cam = "(demo_camera ''cam'' None)\<lparr>upload_password_hash := ''$argon2id$pw''\<rparr>"
  have v: "validate age demo_hash_config = Inr ()" for age :: "(nat, nat, nat, nat, nat) age_lib"
    by (simp add: validate_Inr valid_config_def demo_hash_config_def demo_config_def demo_camera_def camera_names_def login_def)
  have c: "?cam \<in> set (camera demo_hash_config)" by (simp add: demo_hash_config_def)
  have h: "hash_password toy_argon2 [] ''pw'' = Inr (upload_password_hash ?cam)"
    by (simp add: hash_password_def toy_argon2_def)
  have l: "login ?cam = ''cam''" by (simp add: login_def demo_camera_def)
  have "\<not> at_capacity (login ?cam) (tracker_new 1 None)" unfolding l by code_simp
  from registered_camera_logs_in [OF toy_argon2_correct v c h this, of 0] show ?thesis by (simp add: l)
qed

end
