(* ===== verification/Backend.thy ===== *)
theory Backend
  imports Store Jail Auth
begin

text \<open>
  \<^verbatim>\<open>src/backend.rs\<close>: the storage backend that libunftp calls for every FTP command.  Each method
  of \<^verbatim>\<open>impl StorageBackend<ReoUser> for ReoBackend\<close> is a definition here; the recipients the
  backend holds are its first arguments, the file system is threaded through.  \<^verbatim>\<open>Error::from\<close> of
  an I/O error is the symbolic \<open>FromIo\<close>: the mapping to FTP reply codes is libunftp's.
\<close>

datatype op =
  OpGet
| OpPut
| OpList
| OpMetadata
| OpCwd
| OpMkd
| OpDel
| OpRmd
| OpRename

definition capability_allowed :: "role \<Rightarrow> op \<Rightarrow> bool" where
  "capability_allowed r p =
     (case r of
        Uploader _ \<Rightarrow> p \<in> {OpPut, OpMkd, OpList, OpMetadata, OpCwd}
      | Viewer _ \<Rightarrow> p \<in> {OpGet, OpList, OpMetadata, OpCwd})"

definition user_view :: "reo_user \<Rightarrow> scope_map" where
  "user_view u = (case user_role u of Uploader h \<Rightarrow> scope_single h | Viewer sc \<Rightarrow> sc)"

datatype error_kind =
  PermissionDenied
| PermanentFileNotAvailable
| PermanentDirectoryNotAvailable
| FileNameNotAllowedError
| LocalError

datatype storage_error =
  Kind error_kind
| KindMsg error_kind string
| FromIo io_kind

fun path_err_to_storage :: "path_error \<Rightarrow> storage_error" where
  "path_err_to_storage Traversal = Kind PermissionDenied"
| "path_err_to_storage OutsideScope = Kind PermissionDenied"
| "path_err_to_storage PathNotFound = Kind PermanentFileNotAvailable"

fun store_error_to_storage :: "store_error \<Rightarrow> storage_error" where
  "store_error_to_storage SOverlap = KindMsg FileNameNotAllowedError (store_error_display SOverlap)"
| "store_error_to_storage SGap = KindMsg FileNameNotAllowedError (store_error_display SGap)"
| "store_error_to_storage SFinalized = KindMsg PermanentFileNotAvailable (store_error_display SFinalized)"
| "store_error_to_storage (SIo e) = FromIo e"

definition io_or :: "error_kind \<Rightarrow> io_kind \<Rightarrow> storage_error" where
  "io_or k e = (if e = ENotFound then Kind k else FromIo e)"

section \<open>Metadata\<close>

datatype meta = Real file_meta | SynthDir

fun meta_len :: "meta \<Rightarrow> nat" where
  "meta_len (Real m) = m_len m"
| "meta_len SynthDir = 0"

fun meta_is_dir :: "meta \<Rightarrow> bool" where
  "meta_is_dir (Real m) = m_is_dir m"
| "meta_is_dir SynthDir = True"

fun meta_is_file :: "meta \<Rightarrow> bool" where
  "meta_is_file (Real m) = m_is_file m"
| "meta_is_file SynthDir = False"

fun meta_is_symlink :: "meta \<Rightarrow> bool" where
  "meta_is_symlink (Real m) = m_is_symlink m"
| "meta_is_symlink SynthDir = False"

text \<open>\<^verbatim>\<open>std::fs::Metadata::modified\<close> always has an answer on Unix; the epoch is time 0.\<close>

fun meta_modified :: "meta \<Rightarrow> storage_error + nat" where
  "meta_modified (Real m) = Inr (m_modified m)"
| "meta_modified SynthDir = Inr 0"

fun meta_gid :: "meta \<Rightarrow> u32" where
  "meta_gid (Real m) = m_gid m"
| "meta_gid SynthDir = 0"

fun meta_uid :: "meta \<Rightarrow> u32" where
  "meta_uid (Real m) = m_uid m"
| "meta_uid SynthDir = 0"

section \<open>The methods\<close>

definition is_single_scope :: "scope_map \<Rightarrow> bool" where
  "is_single_scope sc = (list_root sc = [])"

definition is_root :: "path \<Rightarrow> bool" where
  "is_root virt = (virt = path_new ''/'' \<or> virt = path_new [])"

definition metadata :: "reo_user \<Rightarrow> path \<Rightarrow> fs \<Rightarrow> (storage_error + meta) \<times> fs" where
  "metadata u p fs =
     (if \<not> capability_allowed (user_role u) OpMetadata then (Inl (Kind PermissionDenied), fs)
      else
        (case resolve fs (user_view u) p of
           Inl e \<Rightarrow> (Inl (path_err_to_storage e), fs)
         | Inr real \<Rightarrow>
             (case fs_metadata real fs of
                (Inl e, fs) \<Rightarrow> (Inl (io_or PermanentFileNotAvailable e), fs)
              | (Inr m, fs) \<Rightarrow> (Inr (Real m), fs))))"

definition hidden_name :: "string \<Rightarrow> bool" where
  "hidden_name name =
     (let name_str = to_string_lossy name
      in str_ends_with name_str STAGING_SUFFIX \<or> name_str = QUARANTINE_DIR)"

lemma hidden_name_iff: "hidden_name x \<longleftrightarrow> str_ends_with x STAGING_SUFFIX \<or> x = QUARANTINE_DIR"
  using suffix_lossy [of STAGING_SUFFIX x] lossy_ascii_iff [of QUARANTINE_DIR x]
  by (simp add: hidden_name_def str_ends_with_def STAGING_SUFFIX_def QUARANTINE_DIR_def)

fun list_loop ::
    "loc \<Rightarrow> string list \<Rightarrow> (string \<times> meta) list \<Rightarrow> fs \<Rightarrow> (storage_error + (string \<times> meta) list) \<times> fs" where
  "list_loop dir [] entries fs =
     (case fs_next_entry fs of (Inl e, fs) \<Rightarrow> (Inl (FromIo e), fs) | (Inr _, fs) \<Rightarrow> (Inr entries, fs))"
| "list_loop dir (name # names) entries fs =
     (case fs_next_entry fs of
        (Inl e, fs) \<Rightarrow> (Inl (FromIo e), fs)
      | (Inr _, fs) \<Rightarrow>
          if hidden_name name then list_loop dir names entries fs
          else
            (case fs_entry_metadata (dir @ [name]) fs of
               (Inl _, fs) \<Rightarrow> list_loop dir names entries fs
             | (Inr m, fs) \<Rightarrow> list_loop dir names (entries @ [(name, Real m)]) fs))"

definition list_dir :: "reo_user \<Rightarrow> path \<Rightarrow> fs \<Rightarrow> (storage_error + (string \<times> meta) list) \<times> fs" where
  "list_dir u virt fs =
     (if \<not> capability_allowed (user_role u) OpList then (Inl (Kind PermissionDenied), fs)
      else if (case user_role u of
                 Viewer sc \<Rightarrow> is_root virt \<and> list_root sc \<noteq> [] \<and> \<not> is_single_scope sc
               | Uploader _ \<Rightarrow> False)
      then (Inr (map (\<lambda>name. (name, SynthDir)) (list_root (user_view u))), fs)
      else
        (case resolve fs (user_view u) virt of
           Inl e \<Rightarrow> (Inl (path_err_to_storage e), fs)
         | Inr real \<Rightarrow>
             (case fs_read_dir real fs of
                (Inl e, fs) \<Rightarrow> (Inl (io_or PermanentDirectoryNotAvailable e), fs)
              | (Inr (dir, names), fs) \<Rightarrow> list_loop dir names [] fs)))"

definition get :: "reo_user \<Rightarrow> path \<Rightarrow> u64 \<Rightarrow> fs \<Rightarrow> (storage_error + opened) \<times> fs" where
  "get u p start_pos fs =
     (if \<not> capability_allowed (user_role u) OpGet then (Inl (Kind PermissionDenied), fs)
      else
        (case resolve fs (user_view u) p of
           Inl e \<Rightarrow> (Inl (path_err_to_storage e), fs)
         | Inr real \<Rightarrow>
             (case fs_open_read real fs of
                (Inl e, fs) \<Rightarrow> (Inl (io_or PermanentFileNotAvailable e), fs)
              | (Inr file, fs) \<Rightarrow>
                  if start_pos > 0 then
                    (case fs_seek start_pos file fs of
                       (Inl e, fs) \<Rightarrow> (Inl (FromIo e), fs)
                     | (Inr file, fs) \<Rightarrow> (Inr file, fs))
                  else (Inr file, fs))))"

text \<open>\<^verbatim>\<open>tokio::io::copy\<close> into a file opened for plain writing.\<close>

fun copy_write :: "nat \<times> nat \<Rightarrow> bytes list \<Rightarrow> io_kind option \<Rightarrow> nat \<Rightarrow> nat io" where
  "copy_write fd [] err n fs =
     (case err of
        Some e \<Rightarrow> (Inl e, fs)
      | None \<Rightarrow> (case fs_flush fs of (Inl e, fs) \<Rightarrow> (Inl e, fs) | (Inr _, fs) \<Rightarrow> (Inr n, fs)))"
| "copy_write fd (c # cs) err n fs =
     (case write_all fd c fs of
        (Inl e, fs) \<Rightarrow> (Inl e, fs)
      | (Inr fd', fs) \<Rightarrow> copy_write fd' cs err (n + length c) fs)"

text \<open>The first branch of \<^verbatim>\<open>put\<close>: a connection test of the camera is kept apart, overwritten.\<close>

definition put_quarantine :: "path \<Rightarrow> string \<Rightarrow> reader \<Rightarrow> fs \<Rightarrow> (storage_error + nat) \<times> fs" where
  "put_quarantine h filename input fs =
     (let quarantine_dir = path_join h (path_new QUARANTINE_DIR)
      in case fs_create_dir_all quarantine_dir fs of
           (Inl e, fs) \<Rightarrow> (Inl (FromIo e), fs)
         | (Inr _, fs) \<Rightarrow>
             (case fs_open_write True (path_join quarantine_dir (path_new filename)) fs of
                (Inl e, fs) \<Rightarrow> (Inl (FromIo e), fs)
              | (Inr i, fs) \<Rightarrow>
                  (case copy_write (i, 0) (fst input) (snd input) 0 fs of
                     (Inl e, fs) \<Rightarrow> (Inl (FromIo e), fs)
                   | (Inr n, fs) \<Rightarrow> (Inr n, fs))))"

text \<open>\<^verbatim>\<open>file_name()\<close> with \<^verbatim>\<open>to_string_lossy\<close>: the name an upload goes by.\<close>

definition lossy_file_name :: "path \<Rightarrow> string option" where
  "lossy_file_name virt = map_option to_string_lossy (path_file_name virt)"

definition store_result :: "(store_error + nat) \<times> fs \<Rightarrow> (storage_error + nat) \<times> fs" where
  "store_result r = (case fst r of Inl e \<Rightarrow> Inl (store_error_to_storage e) | Inr n \<Rightarrow> Inr n, snd r)"

definition put ::
    "('r, 'k, 'e, 's, 'd) age_lib \<Rightarrow> 'r list option \<Rightarrow> reo_user \<Rightarrow> reader \<Rightarrow> path \<Rightarrow> nat \<Rightarrow> fs \<Rightarrow>
     (storage_error + nat) \<times> fs" where
  "put age recips u input virt start_pos fs =
     (if \<not> capability_allowed (user_role u) OpPut then (Inl (Kind PermissionDenied), fs)
      else
        (case user_role u of
           Viewer _ \<Rightarrow> (Inl (Kind PermissionDenied), fs)
         | Uploader h \<Rightarrow>
             (case lossy_file_name virt of
                None \<Rightarrow> (Inl (Kind FileNameNotAllowedError), fs)
              | Some filename \<Rightarrow>
                  if is_reolink_test_file filename then put_quarantine h filename input fs
                  else
                    (case resolve fs (user_view u) virt of
                       Inl e \<Rightarrow> (Inl (path_err_to_storage e), fs)
                     | Inr resolved \<Rightarrow>
                         (case recips of
                            Some rs \<Rightarrow>
                              if start_pos \<noteq> 0 then (Inl (Kind PermissionDenied), fs)
                              else store_result (store_encrypted age (age_suffix resolved) rs input fs)
                          | None \<Rightarrow> store_result (store_stream resolved start_pos input fs))))))"

definition del :: "reo_user \<Rightarrow> path \<Rightarrow> fs \<Rightarrow> (storage_error + unit) \<times> fs" where
  "del u p fs = (Inl (Kind PermissionDenied), fs)"

definition mkd :: "reo_user \<Rightarrow> path \<Rightarrow> fs \<Rightarrow> (storage_error + unit) \<times> fs" where
  "mkd u p fs =
     (if \<not> capability_allowed (user_role u) OpMkd then (Inl (Kind PermissionDenied), fs)
      else
        (case resolve fs (user_view u) p of
           Inl e \<Rightarrow> (Inl (path_err_to_storage e), fs)
         | Inr real \<Rightarrow>
             (case fs_create_dir_all real fs of
                (Inl e, fs) \<Rightarrow> (Inl (FromIo e), fs)
              | (Inr _, fs) \<Rightarrow> (Inr (), fs))))"

definition rename :: "reo_user \<Rightarrow> path \<Rightarrow> path \<Rightarrow> fs \<Rightarrow> (storage_error + unit) \<times> fs" where
  "rename u p q fs = (Inl (Kind PermissionDenied), fs)"

definition rmd :: "reo_user \<Rightarrow> path \<Rightarrow> fs \<Rightarrow> (storage_error + unit) \<times> fs" where
  "rmd u p fs = (Inl (Kind PermissionDenied), fs)"

definition cwd_check :: "reo_user \<Rightarrow> path \<Rightarrow> fs \<Rightarrow> (storage_error + unit) \<times> fs" where
  "cwd_check u virt fs =
     (if \<not> capability_allowed (user_role u) OpCwd then (Inl (Kind PermissionDenied), fs)
      else if (case user_role u of Viewer sc \<Rightarrow> is_root virt \<and> \<not> is_single_scope sc | Uploader _ \<Rightarrow> False)
      then (Inr (), fs)
      else
        (case resolve fs (user_view u) virt of
           Inl e \<Rightarrow> (Inl (path_err_to_storage e), fs)
         | Inr real \<Rightarrow>
             (case fs_metadata real fs of
                (Inl e, fs) \<Rightarrow> (Inl (io_or PermanentDirectoryNotAvailable e), fs)
              | (Inr m, fs) \<Rightarrow>
                  (if m_is_dir m then Inr () else Inl (Kind PermanentDirectoryNotAvailable), fs))))"

text \<open>
  \<^verbatim>\<open>impl StorageBackend<DefaultUser>\<close>: the implementation that only satisfies a type bound
  answers every command in the same way.
\<close>

definition default_user_stub :: "op \<Rightarrow> fs \<Rightarrow> (storage_error + 'a) \<times> fs" where
  "default_user_stub p fs = (Inl (Kind PermissionDenied), fs)"

section \<open>Requests\<close>

text \<open>The FTP commands of a session as libunftp hands them to the backend.\<close>

datatype request =
  RMetadata string
| RList string
| RGet string u64
| RPut reader string nat
| RDel string
| RMkd string
| RRename string string
| RRmd string
| RCwd string

fun perform ::
    "('r, 'k, 'e, 's, 'd) age_lib \<Rightarrow> 'r list option \<Rightarrow> reo_user \<times> request \<Rightarrow> fs \<Rightarrow> fs" where
  "perform age recips (u, RMetadata p) fs = snd (metadata u (path_new p) fs)"
| "perform age recips (u, RList p) fs = snd (list_dir u (path_new p) fs)"
| "perform age recips (u, RGet p n) fs = snd (get u (path_new p) n fs)"
| "perform age recips (u, RPut rd p n) fs = snd (put age recips u rd (path_new p) n fs)"
| "perform age recips (u, RDel p) fs = snd (del u (path_new p) fs)"
| "perform age recips (u, RMkd p) fs = snd (mkd u (path_new p) fs)"
| "perform age recips (u, RRename p q) fs = snd (rename u (path_new p) (path_new q) fs)"
| "perform age recips (u, RRmd p) fs = snd (rmd u (path_new p) fs)"
| "perform age recips (u, RCwd p) fs = snd (cwd_check u (path_new p) fs)"

section \<open>Requests that only read\<close>

lemma list_loop_state: "list_loop dir names es fs = (r, fs') \<Longrightarrow> \<exists>fl. fs' = fs\<lparr>faults := fl\<rparr>"
proof (induction dir names es fs arbitrary: r fs' rule: list_loop.induct)
  case (1 dir es fs)
  then show ?case by (auto split: prod.splits sum.splits dest!: fs_next_entry_state)
next
  case (2 dir name names es fs)
  obtain r1 fs1 where 1: "fs_next_entry fs = (r1, fs1)" by fastforce
  then obtain fl1 where fl1: "fs1 = fs\<lparr>faults := fl1\<rparr>" by (blast dest: fs_next_entry_state)
  obtain r2 fs2 where 2: "fs_entry_metadata (dir @ [name]) fs1 = (r2, fs2)" by fastforce
  then obtain fl2 where fl2: "fs2 = fs1\<lparr>faults := fl2\<rparr>" by (blast dest: fs_entry_metadata_state)
  show ?case
  proof (cases r1)
    case (Inl e)
    with "2.prems" 1 fl1 show ?thesis by auto
  next
    case (Inr u)
    show ?thesis
    proof (cases "hidden_name name")
      case True
      with "2.prems" 1 Inr have "list_loop dir names es fs1 = (r, fs')" by simp
      with "2.IH"(1) [OF 1 [symmetric] Inr True] fl1 show ?thesis by fastforce
    next
      case False
      show ?thesis
      proof (cases r2)
        case Inl2: (Inl e)
        with "2.prems" 1 2 Inr False have "list_loop dir names es fs2 = (r, fs')" by simp
        with "2.IH"(2) [OF 1 [symmetric] Inr False 2 [symmetric] Inl2] fl1 fl2 show ?thesis by fastforce
      next
        case Inr2: (Inr mt)
        with "2.prems" 1 2 Inr False have "list_loop dir names (es @ [(name, Real mt)]) fs2 = (r, fs')" by simp
        with "2.IH"(3) [OF 1 [symmetric] Inr False 2 [symmetric] Inr2] fl1 fl2 show ?thesis by fastforce
      qed
    qed
  qed
qed

lemma metadata_state: "\<exists>fl. snd (metadata u p fs) = fs\<lparr>faults := fl\<rparr>"
  by (auto simp: metadata_def split: sum.splits prod.splits dest!: read_only_calls intro: exI [of _ "faults fs"])

lemma get_state: "\<exists>fl. snd (get u p n fs) = fs\<lparr>faults := fl\<rparr>"
  by (auto simp: get_def split: sum.splits prod.splits dest!: read_only_calls intro: exI [of _ "faults fs"])

lemma cwd_check_state: "\<exists>fl. snd (cwd_check u p fs) = fs\<lparr>faults := fl\<rparr>"
  by (auto simp: cwd_check_def split: sum.splits prod.splits role.splits dest!: read_only_calls
      intro: exI [of _ "faults fs"])

lemma list_dir_state: "\<exists>fl. snd (list_dir u p fs) = fs\<lparr>faults := fl\<rparr>"
proof -
  have "\<exists>fl'. snd (list_loop d ns [] (fs\<lparr>faults := fl\<rparr>)) = fs\<lparr>faults := fl'\<rparr>" for d ns fl
    using list_loop_state [OF prod.collapse [symmetric], of d ns "[]" "fs\<lparr>faults := fl\<rparr>"] by simp
  then show ?thesis
    by (auto simp: list_dir_def split: sum.splits prod.splits role.splits
      dest!: fs_read_dir_state intro: exI [of _ "faults fs"])
qed

lemma fs_faults_id: "\<exists>fl. fs = fs\<lparr>faults := fl\<rparr>"
  by (rule exI [of _ "faults fs"]) simp

text \<open>A viewer's requests, and every request other than \<^verbatim>\<open>put\<close> and \<^verbatim>\<open>mkd\<close>, only read.\<close>

lemma perform_read_only:
  assumes "(\<exists>sc. user_role u = Viewer sc) \<or> (\<forall>rd p n. q \<noteq> RPut rd p n) \<and> (\<forall>p. q \<noteq> RMkd p)"
  shows "\<exists>fl. perform age recips (u, q) fs = fs\<lparr>faults := fl\<rparr>"
proof (cases q)
  case (RPut rd p n)
  with assms have "put age recips u rd (path_new p) n fs = (Inl (Kind PermissionDenied), fs)"
    by (auto simp: put_def capability_allowed_def)
  with RPut fs_faults_id [of fs] show ?thesis by simp
next
  case (RMkd p)
  with assms have "mkd u (path_new p) fs = (Inl (Kind PermissionDenied), fs)"
    by (auto simp: mkd_def capability_allowed_def)
  with RMkd fs_faults_id [of fs] show ?thesis by simp
qed (use metadata_state get_state cwd_check_state list_dir_state fs_faults_id [of fs] in
    \<open>auto simp: del_def rename_def rmd_def\<close>)

section \<open>Uploads\<close>

definition upload_loc :: "'r list option \<Rightarrow> loc \<Rightarrow> path \<Rightarrow> loc" where
  "upload_loc recips b virt =
     (let l = b @ virtual_names virt
      in case recips of None \<Rightarrow> l | Some _ \<Rightarrow> butlast l @ [last l @ ''.age''])"

lemma virtual_names_last:
  "lossy_file_name v = Some f \<Longrightarrow> virtual_names v \<noteq> [] \<and> last (virtual_names v) = f"
  by (cases v rule: rev_cases)
    (auto simp: lossy_file_name_def path_file_name_def virtual_names_def split: component.splits)

lemma age_suffix_abs: "l \<noteq> [] \<Longrightarrow> age_suffix (abs_path l) = abs_path (butlast l @ [last l @ ''.age''])"
  by (cases l rule: rev_cases) (simp_all add: age_suffix_def abs_path_snoc path_push_os_snoc)

lemma put_uploader:
  assumes "fs_wf fs" "user_role u = Uploader h" "clean_jail fs h b"
    and "lossy_file_name (path_new v) = Some f" "\<not> is_reolink_test_file f"
  shows "put age recips u input (path_new v) n fs =
    (if ParentDir \<in> set (path_new v) then (Inl (Kind PermissionDenied), fs)
     else case recips of
       None \<Rightarrow> store_result (store_stream (abs_path (upload_loc recips b (path_new v))) n input fs)
     | Some rs \<Rightarrow>
         if n \<noteq> 0 then (Inl (Kind PermissionDenied), fs)
         else store_result (store_encrypted age (abs_path (upload_loc recips b (path_new v))) rs input fs))"
proof -
  have "b @ virtual_names (path_new v) \<noteq> []" using virtual_names_last [OF assms(4)] by simp
  from age_suffix_abs [OF this] assms(2,4,5) resolve_single_clean [OF assms(1,3), of v] show ?thesis
    by (auto simp: put_def capability_allowed_def user_view_def upload_loc_def Let_def split: option.splits)
qed

lemma upload_loc_ok:
  assumes "fs_wf fs" "clean_jail fs h b" "lossy_file_name (path_new v) = Some f"
  shows "upload_ok fs (upload_loc recips b (path_new v))"
    and "prefix b (upload_loc recips b (path_new v))"
    and "upload_loc recips b (path_new v) \<noteq> b"
proof -
  from virtual_names_last [OF assms(3)] obtain ps x where v: "virtual_names (path_new v) = ps @ [x]"
    by (cases "virtual_names (path_new v)" rule: rev_cases) auto
  then obtain y where l: "upload_loc recips b (path_new v) = b @ ps @ [y]"
    by (cases recips) (auto simp: upload_loc_def Let_def butlast_append)
  then have "stg (upload_loc recips b (path_new v)) = b @ ps @ [y @ STAGING_SUFFIX]"
    by (simp add: stg_def butlast_append)
  with l show "upload_ok fs (upload_loc recips b (path_new v))"
    using nolinks_clean [OF assms(1,2)] assms(1) by (simp add: upload_ok_def)
  from l show "prefix b (upload_loc recips b (path_new v))" "upload_loc recips b (path_new v) \<noteq> b"
    by simp_all
qed

lemma plain_QUARANTINE_DIR: "plain_name QUARANTINE_DIR"
  by (simp add: plain_name_def QUARANTINE_DIR_def)

lemma file_name_plain:
  assumes "lossy_file_name (path_new v) = Some f"
  shows "plain_name f"
proof -
  from assms obtain g where "Normal g \<in> set (path_new v)" "f = to_string_lossy g"
    by (auto simp: lossy_file_name_def path_file_name_Some) (metis last_in_set)
  then show ?thesis by (simp add: plain_name_lossy path_new_Normal)
qed

lemma copy_write_frame:
  assumes "copy_write (i, off) cs err n fs = (r, fs')" "fs_wf fs" "i \<in> I" "i < next_ino fs"
    and "off = length (bytes_of fs i)"
  shows "fs_wf fs' \<and> evolves R N I fs fs' \<and> dent_at fs' = dent_at fs \<and>
    (\<forall>m. r = Inr m \<longrightarrow> err = None \<and> m = n + length (concat cs) \<and>
       bytes_of fs' i = bytes_of fs i @ concat cs)"
  using assms
proof (induction cs arbitrary: off n fs)
  case Nil
  then show ?case
    by (cases "fs_flush fs") (auto split: option.splits sum.splits dest!: fs_flush_state)
next
  case (Cons c cs)
  obtain r1 fs1 where 1: "write_all (i, off) c fs = (r1, fs1)" by fastforce
  note f = write_all_frame [OF 1 Cons.prems(2-5), of R N]
  show ?case
  proof (cases r1)
    case (Inl e)
    with Cons.prems(1) 1 f show ?thesis by auto
  next
    case (Inr fd)
    with f have fd: "r1 = Inr (i, off + length c)" "bytes_of fs1 i = bytes_of fs i @ c" by auto
    with Cons.prems(1) 1 have eq: "copy_write (i, off + length c) cs err (n + length c) fs1 = (r, fs')" by simp
    from f fd Cons.prems(4,5) have g: "fs_wf fs1" "i < next_ino fs1" "off + length c = length (bytes_of fs1 i)"
      by simp_all
    from f have e: "evolves R N I fs fs1" "dent_at fs1 = dent_at fs" by simp_all
    from Cons.IH [OF eq g(1) Cons.prems(3) g(2,3)] fd(2) e(2) show ?thesis
      by (simp add: add.assoc evolves_trans [OF e(1)])
  qed
qed

text \<open>The calls of a connection test, and its whole: it touches its own file in the quarantine directory.\<close>

lemma quarantine_paths:
  assumes "plain_name f"
  shows "path_join h (path_new QUARANTINE_DIR) = h @ [Normal QUARANTINE_DIR]"
    and "path_join (path_join h (path_new QUARANTINE_DIR)) (path_new f) = h @ map Normal [QUARANTINE_DIR, f]"
  by (simp_all add: path_new_plain [OF plain_QUARANTINE_DIR] path_new_plain [OF assms] path_join_Normal)

lemma quarantine_mkdir_frame:
  assumes wf: "fs_wf fs" and clean: "clean_jail fs h b" and f: "plain_name f"
    and run: "fs_create_dir_all (path_join h (path_new QUARANTINE_DIR)) fs = (r, fs')"
  shows "fs_wf fs' \<and> evolves {} (dirs_to (b @ [QUARANTINE_DIR])) {} fs fs'"
proof -
  from run have "fs_create_dir_all (abs_path (b @ [QUARANTINE_DIR])) fs = (r, fs')"
    by (simp add: quarantine_paths(1) [OF f] fs_create_dir_all_below [OF wf clean])
  from fs_create_dir_all_frame [OF this wf nolinks_clean [OF wf clean], of "{}" "{}"] show ?thesis by simp
qed

lemma quarantine_open_frame:
  assumes wf: "fs_wf fs" and clean: "clean_jail fs h b" and f: "plain_name f"
    and run: "fs_open_write True (path_join (path_join h (path_new QUARANTINE_DIR)) (path_new f)) fs = (r, fs')"
  defines "dest \<equiv> b @ [QUARANTINE_DIR, f]"
  defines "I \<equiv> {i. dent_at fs dest = Some (DFile i)} \<union> {i. next_ino fs \<le> i}"
  shows "fs_wf fs' \<and> evolves {} {dest} I fs fs' \<and>
    (\<forall>i. r = Inr i \<longrightarrow> dent_at fs' dest = Some (DFile i) \<and> i \<in> I \<and> i < next_ino fs' \<and> bytes_of fs' i = [])"
proof -
  from run have "fs_open_write True (abs_path dest) fs = (r, fs')"
    by (simp only: quarantine_paths(2) [OF f] fs_open_write_below [OF wf clean] dest_def)
  from fs_open_write_frame [OF this wf, of I "{}"] nolinks_clean [OF wf clean] show ?thesis
    by (simp add: dest_def I_def)
qed

lemma put_quarantine_frame:
  assumes wf: "fs_wf fs" and clean: "clean_jail fs h b" and f: "plain_name f"
    and run: "put_quarantine h f input fs = (r, fs')"
  defines "dest \<equiv> b @ [QUARANTINE_DIR, f]"
  shows "fs_wf fs' \<and> evolves {} (insert dest (dirs_to (b @ [QUARANTINE_DIR])))
      ({i. dent_at fs dest = Some (DFile i)} \<union> {i. next_ino fs \<le> i}) fs fs' \<and>
    (\<forall>n. r = Inr n \<longrightarrow> (\<exists>i. dent_at fs' dest = Some (DFile i) \<and> bytes_of fs' i = concat (fst input)))"
proof -
  let ?N = "insert dest (dirs_to (b @ [QUARANTINE_DIR]))"
  let ?I = "{i. dent_at fs dest = Some (DFile i)} \<union> {i. next_ino fs \<le> i}"
  let ?q = "path_join h (path_new QUARANTINE_DIR)"
  obtain r1 fs1 where 1: "fs_create_dir_all ?q fs = (r1, fs1)" by fastforce
  from quarantine_mkdir_frame [OF wf clean f 1]
  have f1: "fs_wf fs1" and e1: "evolves {} (dirs_to (b @ [QUARANTINE_DIR])) {} fs fs1" by simp_all
  then have e1': "evolves {} ?N ?I fs fs1" by (rule_tac evolves_mono [OF e1]) auto
  obtain r2 fs2 where 2: "fs_open_write True (path_join ?q (path_new f)) fs1 = (r2, fs2)" by fastforce
  note f2 = quarantine_open_frame [OF f1 clean_jail_evolves [OF wf f1 e1 clean] f 2, folded dest_def]
  have sub: "{i. dent_at fs1 dest = Some (DFile i)} \<union> {i. next_ino fs1 \<le> i} \<subseteq> ?I"
    using evolves_file [OF e1, of dest] evolves_next [OF e1] by auto
  then have "evolves {} ?N ?I fs1 fs2" by (intro evolves_mono [OF conjunct1 [OF conjunct2 [OF f2]]]) auto
  then have e2: "evolves {} ?N ?I fs fs2" by (rule evolves_trans [OF e1'])
  show ?thesis
  proof (cases "\<exists>i. r1 = Inr () \<and> r2 = Inr i")
    case True
    then obtain i where i: "r1 = Inr ()" "r2 = Inr i" by blast
    obtain r3 fs3 where 3: "copy_write (i, 0) (fst input) (snd input) 0 fs2 = (r3, fs3)" by fastforce
    from f2 i sub have g: "fs_wf fs2" "i \<in> ?I" "i < next_ino fs2" "0 = length (bytes_of fs2 i)"
      "dent_at fs2 dest = Some (DFile i)" by auto
    note f3 = copy_write_frame [OF 3 g(1-4), of "{}" ?N]
    have "fs' = fs3" "r = (case r3 of Inl e \<Rightarrow> Inl (FromIo e) | Inr n \<Rightarrow> Inr n)"
      using run 1 2 3 i unfolding put_quarantine_def Let_def by (auto split: sum.splits)
    with f3 g(4,5) evolves_trans [OF e2] show ?thesis by (auto split: sum.splits)
  next
    case False
    with run 1 2 f1 f2 e1' e2 show ?thesis
      unfolding put_quarantine_def Let_def by (auto split: sum.splits)
  qed
qed

section \<open>The effect of a request\<close>

text \<open>
  What an uploader with the jail \<open>b\<close> can do to the file system: remove scratch names below
  \<open>b\<close>, create names below \<open>b\<close>, and write to new files and to files that have a scratch name
  below \<open>b\<close>.
\<close>

definition uploader_effect :: "loc \<Rightarrow> fs \<Rightarrow> fs \<Rightarrow> bool" where
  "uploader_effect b fs fs' \<longleftrightarrow> fs_wf fs' \<and>
     (\<exists>R N I. evolves R N I fs fs' \<and> (\<forall>l \<in> R. scratch l \<and> prefix b l) \<and>
        (\<forall>l \<in> N. prefix b l \<or> prefix l b) \<and>
        (\<forall>i \<in> I. next_ino fs \<le> i \<or> (\<exists>l. scratch l \<and> prefix b l \<and> dent_at fs l = Some (DFile i))))"

lemma uploader_effect_faults [simp]: "fs_wf fs \<Longrightarrow> uploader_effect b fs (fs\<lparr>faults := fl\<rparr>)"
  unfolding uploader_effect_def by (auto intro!: exI [of _ "{}"])

lemma uploader_effect_refl: "fs_wf fs \<Longrightarrow> uploader_effect b fs fs"
  using uploader_effect_faults [of fs b "faults fs"] by simp

lemma prefix_of_common: "prefix k l \<Longrightarrow> prefix b l \<Longrightarrow> prefix b k \<or> prefix k b"
  using prefix_same_cases by blast

lemma up_inv_effect:
  assumes "up_inv fs l fs'" "fs_wf fs" "prefix b l" "l \<noteq> b"
  shows "uploader_effect b fs fs'"
proof -
  note e = up_inv_elims [OF assms(1)]
  from assms(3,4) obtain m x where l: "l = b @ m @ [x]"
    by (metis append_Nil2 prefixE rev_exhaust)
  then have st: "prefix b (stg l)" by (simp add: stg_def butlast_append)
  have "prefix b k \<or> prefix k b" if "k \<in> upload_ents l" for k
    using that st assms(3) prefix_of_common [of k l b] prefix_order.trans [OF _ prefixeq_butlast, of k l]
    by (auto simp: upload_ents_def)
  moreover have "next_ino fs \<le> i \<or> (\<exists>k. scratch k \<and> prefix b k \<and> dent_at fs k = Some (DFile i))"
    if "i \<in> upload_inodes fs l" for i
    using that st scratch_stg [of l] by (auto simp: upload_inodes_def)
  ultimately show ?thesis
    unfolding uploader_effect_def using e(1,5) st scratch_stg [of l] by blast
qed

lemma put_effect:
  assumes wf: "fs_wf fs" and u: "user_role u = Uploader h" and clean: "clean_jail fs h b"
  shows "uploader_effect b fs (snd (put age recips u input (path_new v) n fs))"
proof (cases "lossy_file_name (path_new v)")
  case None
  with u uploader_effect_refl [OF wf] show ?thesis by (simp add: put_def capability_allowed_def)
next
  case (Some f)
  note ok = upload_loc_ok [OF wf clean Some, of recips]
  show ?thesis
  proof (cases "is_reolink_test_file f")
    case True
    let ?dest = "b @ [QUARANTINE_DIR, f]"
    obtain r fs' where run: "put_quarantine h f input fs = (r, fs')" by fastforce
    with u Some True have eq: "snd (put age recips u input (path_new v) n fs) = fs'"
      by (simp add: put_def capability_allowed_def)
    have sc: "scratch ?dest" using True by (simp add: scratch_def butlast_append)
    note q = put_quarantine_frame [OF wf clean file_name_plain [OF Some] run]
    have "prefix b k \<or> prefix k b" if "k \<in> insert ?dest (dirs_to (b @ [QUARANTINE_DIR]))" for k
      using that prefix_of_common [of k "b @ [QUARANTINE_DIR]" b] by auto
    moreover have "next_ino fs \<le> i \<or> (\<exists>l. scratch l \<and> prefix b l \<and> dent_at fs l = Some (DFile i))"
      if "i \<in> {i. dent_at fs ?dest = Some (DFile i)} \<union> {i. next_ino fs \<le> i}" for i
      using that sc by auto
    ultimately show ?thesis unfolding eq uploader_effect_def using q by blast
  next
    case False
    define l where "l = upload_loc recips b (path_new v)"
    note ok = ok [folded l_def]
    have res: "uploader_effect b fs (snd (store_result x))" if "up_inv fs l (snd x)" for x
      using up_inv_effect [OF that wf ok(2,3)] by (simp add: store_result_def)
    have "up_inv fs l (snd (store_stream (abs_path l) n input fs))"
      using store_stream_inv [OF ok(1) prod.collapse [symmetric]] by blast
    moreover have "up_inv fs l (snd (store_encrypted age (abs_path l) rs input fs))" for rs
      using store_encrypted_inv [OF ok(1) prod.collapse [symmetric]] by blast
    ultimately show ?thesis
      unfolding put_uploader [OF wf u clean Some False] l_def [symmetric]
      using res uploader_effect_refl [OF wf] by (simp split: option.splits)
  qed
qed

lemma mkd_effect:
  assumes wf: "fs_wf fs" and u: "user_role u = Uploader h" and clean: "clean_jail fs h b"
  shows "fs_wf (snd (mkd u (path_new v) fs)) \<and>
    evolves {} (dirs_to (b @ virtual_names (path_new v))) {} fs (snd (mkd u (path_new v) fs))"
proof -
  let ?l = "b @ virtual_names (path_new v)"
  obtain r fs' where run: "fs_create_dir_all (abs_path ?l) fs = (r, fs')" by fastforce
  from fs_create_dir_all_frame [OF run wf nolinks_clean [OF wf clean], of "{}" "{}"] run wf u
    resolve_single_clean [OF wf clean, of v] show ?thesis
    by (cases r) (simp_all add: mkd_def capability_allowed_def user_view_def)
qed

lemma mkd_uploader_effect:
  assumes "fs_wf fs" "user_role u = Uploader h" "clean_jail fs h b"
  shows "uploader_effect b fs (snd (mkd u (path_new v) fs))"
proof -
  have "prefix b k \<or> prefix k b" if "k \<in> dirs_to (b @ virtual_names (path_new v))" for k
    using that prefix_of_common [of k "b @ virtual_names (path_new v)" b] by simp
  with mkd_effect [OF assms, of v] show ?thesis unfolding uploader_effect_def by blast
qed

lemma perform_effect:
  assumes "fs_wf fs" "user_role u = Uploader h" "clean_jail fs h b"
  shows "uploader_effect b fs (perform age recips (u, q) fs)"
proof (cases "(\<exists>rd p n. q = RPut rd p n) \<or> (\<exists>p. q = RMkd p)")
  case True
  with put_effect [OF assms] mkd_uploader_effect [OF assms] show ?thesis by auto
next
  case False
  with perform_read_only [of u q age recips fs] uploader_effect_faults [OF assms(1)] show ?thesis by auto
qed

section \<open>Sealed files under requests\<close>

lemma quarantine_not_staging:
  assumes "sealed enc fs k i bs" "is_reolink_test_file f"
  shows "dent_at fs (b @ [QUARANTINE_DIR, f]) \<noteq> Some (DFile i)"
proof
  let ?dest = "b @ [QUARANTINE_DIR, f]"
  assume "dent_at fs ?dest = Some (DFile i)"
  moreover have "scratch ?dest" using assms(2) by (simp add: scratch_def butlast_append)
  ultimately have st: "?dest = stg k" using assms(1) unfolding sealed_def by blast
  then have "butlast ?dest = butlast k" "last ?dest = last k @ STAGING_SUFFIX" by simp_all
  then have "butlast k = b @ [QUARANTINE_DIR]" "f = last k @ STAGING_SUFFIX" by (simp_all add: butlast_append)
  with test_file_staging assms(2) have "scratch k"
    by (cases "k = []") (auto simp: scratch_def)
  with assms(1) show False by (simp add: sealed_def)
qed

lemma put_sealed:
  assumes wf: "fs_wf fs" and u: "user_role u = Uploader h" and clean: "clean_jail fs h b"
    and sealed: "sealed (recips \<noteq> None) fs k i bs"
  shows "sealed (recips \<noteq> None) (snd (put age recips u input (path_new v) n fs)) k i bs"
proof (cases "lossy_file_name (path_new v)")
  case None
  with u sealed show ?thesis by (simp add: put_def capability_allowed_def)
next
  case (Some f)
  show ?thesis
  proof (cases "is_reolink_test_file f")
    case True
    obtain r fs' where run: "put_quarantine h f input fs = (r, fs')" by fastforce
    with u Some True have eq: "snd (put age recips u input (path_new v) n fs) = fs'"
      by (simp add: put_def capability_allowed_def)
    have "i < next_ino fs" using sealed fs_wf_inode [OF wf, of k i] by (simp add: sealed_def)
    with quarantine_not_staging [OF sealed True, of b] put_quarantine_frame [OF wf clean file_name_plain [OF Some] run]
    show ?thesis unfolding eq by (intro sealed_evolves [OF sealed]) auto
  next
    case False
    define l where "l = upload_loc recips b (path_new v)"
    note ok = upload_loc_ok(1) [OF wf clean Some, of recips, folded l_def]
    have "sealed False (snd (store_stream (abs_path l) n input fs)) k i bs" if "recips = None"
      using store_stream_sealed [OF ok _ prod.collapse [symmetric]] sealed that by simp
    moreover have "sealed True (snd (store_encrypted age (abs_path l) rs input fs)) k i bs" if "recips \<noteq> None" for rs
      using store_encrypted_sealed [OF ok _ prod.collapse [symmetric]] sealed that by simp
    ultimately show ?thesis
      unfolding put_uploader [OF wf u clean Some False] l_def [symmetric]
      using sealed by (auto simp: store_result_def split: option.splits)
  qed
qed

lemma perform_sealed:
  assumes "fs_wf fs" "\<And>h. user_role u = Uploader h \<Longrightarrow> \<exists>b. clean_jail fs h b"
    and sealed: "sealed (recips \<noteq> None) fs k i bs"
  shows "sealed (recips \<noteq> None) (perform age recips (u, q) fs) k i bs"
proof (cases "(\<exists>sc. user_role u = Viewer sc) \<or> (\<forall>rd p n. q \<noteq> RPut rd p n) \<and> (\<forall>p. q \<noteq> RMkd p)")
  case True
  with perform_read_only [OF True, of age recips fs] sealed show ?thesis by auto
next
  case False
  then obtain h b where u: "user_role u = Uploader h" and clean: "clean_jail fs h b"
    using assms(2) by (cases "user_role u") auto
  show ?thesis
  proof (cases q)
    case (RMkd p)
    from mkd_effect [OF assms(1) u clean, of p]
    have "sealed (recips \<noteq> None) (snd (mkd u (path_new p) fs)) k i bs"
      by (intro sealed_evolves [OF sealed]) auto
    with RMkd show ?thesis by simp
  qed (use put_sealed [OF assms(1) u clean sealed] False in auto)
qed

section \<open>Any number of requests of any number of sessions\<close>

text \<open>The file system is sound and the home of every uploader is a jail without links.\<close>

definition archive_ok :: "reo_user set \<Rightarrow> fs \<Rightarrow> bool" where
  "archive_ok U fs \<longleftrightarrow> fs_wf fs \<and>
     (\<forall>u \<in> U. \<forall>h. user_role u = Uploader h \<longrightarrow> (\<exists>b. clean_jail fs h b))"

lemma perform_evolves:
  assumes "fs_wf fs" "\<And>h. user_role u = Uploader h \<Longrightarrow> \<exists>b. clean_jail fs h b"
  shows "\<exists>R N I. fs_wf (perform age recips (u, q) fs) \<and> evolves R N I fs (perform age recips (u, q) fs)"
proof (cases "user_role u")
  case (Uploader h)
  with assms(2) obtain b where "clean_jail fs h b" by blast
  from perform_effect [OF assms(1) Uploader this, of age recips q] show ?thesis
    unfolding uploader_effect_def by blast
next
  case (Viewer sc)
  with perform_read_only [of u q age recips fs] obtain fl where
    "perform age recips (u, q) fs = fs\<lparr>faults := fl\<rparr>" by auto
  with assms(1) show ?thesis by simp
qed

lemma archive_ok_perform:
  assumes "archive_ok U fs" "u \<in> U"
  shows "archive_ok U (perform age recips (u, q) fs)"
proof -
  from assms have wf: "fs_wf fs" and c: "\<And>v h. v \<in> U \<Longrightarrow> user_role v = Uploader h \<Longrightarrow> \<exists>b. clean_jail fs h b"
    by (auto simp: archive_ok_def)
  from perform_evolves [OF wf c [OF assms(2)], where age = age and recips = recips and q = q] obtain R N I where
    e: "fs_wf (perform age recips (u, q) fs)" "evolves R N I fs (perform age recips (u, q) fs)" by blast
  with c clean_jail_evolves [OF wf e] show ?thesis unfolding archive_ok_def by blast
qed

interpretation archive_run: run_system "perform age recips" "\<lambda>(u, q). u \<in> U"
    "\<lambda>fs. archive_ok U fs \<and> sealed (recips \<noteq> None) fs k i bs"
  for age :: "('r, 'k, 'e, 's, 'd) age_lib" and recips U k i bs
proof unfold_locales
  fix fs and e :: "reo_user \<times> request"
  assume inv: "archive_ok U fs \<and> sealed (recips \<noteq> None) fs k i bs" and ok: "case e of (u, q) \<Rightarrow> u \<in> U"
  obtain u q where e: "e = (u, q)" by (cases e)
  with ok inv have "u \<in> U" "fs_wf fs" "\<And>h. user_role u = Uploader h \<Longrightarrow> \<exists>b. clean_jail fs h b"
    by (auto simp: archive_ok_def)
  with inv archive_ok_perform [of U fs u age recips q] perform_sealed [of fs u recips k i bs age q]
  show "archive_ok U (perform age recips e fs) \<and> sealed (recips \<noteq> None) (perform age recips e fs) k i bs"
    by (simp add: e)
qed

end
