(* ===== verification/Archive.thy ===== *)
theory Archive
  imports Backend
begin

text \<open>
  What the backend promises about the archive as a whole: finished files are immutable under any
  sequence of requests of any users, an uploader stays in its jail, viewers change nothing, and
  what was uploaded is what is listed and downloaded.
\<close>

section \<open>Examples\<close>

definition demo_uploader :: reo_user where
  "demo_uploader = \<lparr>user_login = ''cam'', user_role = Uploader (path_new ''/srv/cam''), user_require_tls = False\<rparr>"

definition demo_viewer :: reo_user where
  "demo_viewer = \<lparr>user_login = ''admin'', user_role = Viewer (scope_single (path_new ''/srv/cam'')), user_require_tls = False\<rparr>"

lemma demo_clean: "clean_jail demo_fs (path_new ''/srv/cam'') [''srv'', ''cam'']"
  by code_simp

lemma demo_archive_ok: "archive_ok {demo_uploader, demo_viewer} demo_fs"
  using demo_fs_wf demo_clean by (auto simp: archive_ok_def demo_uploader_def demo_viewer_def)

lemma demo_dent_file: "dent_at demo_fs k = Some (DFile i) \<longleftrightarrow> k = [''srv'', ''cam'', ''old.mp4''] \<and> i = 0"
  by (auto simp: dent_at_def demo_fs_def split: if_splits)

lemma demo_not_scratch: "\<not> scratch [''srv'', ''cam'', ''old.mp4'']"
  by code_simp

lemma demo_sealed: "sealed enc demo_fs [''srv'', ''cam'', ''old.mp4''] 0 ''abc''"
  using demo_not_scratch by (auto simp: sealed_def demo_dent_file) (simp add: demo_fs_def bytes_of_def)

section \<open>Immutability\<close>

text \<open>
  (C1) Finished files are immutable.  Whatever requests any users make, in any order, with any
  failures of the file system and with encryption on or off: a file that is sealed (not a scratch
  name, and no other scratch name leads to its inode) keeps its name, its inode and every byte.
  All that is assumed of the state is a sound file system without symbolic links in the homes of
  the uploaders.
\<close>

theorem finished_files_are_immutable:
  assumes "archive_ok U fs" and "sealed (recips \<noteq> None) fs k i bs" and "\<forall>(u, q) \<in> set reqs. u \<in> U"
  shows "sealed (recips \<noteq> None) (fold (perform age recips) reqs fs) k i bs \<and>
    content (fold (perform age recips) reqs fs) k = Some bs"
proof -
  have "sealed (recips \<noteq> None) (fold (perform age recips) reqs fs) k i bs"
    using archive_run.run_invar [of U fs recips k i bs reqs age] assms by (simp add: list_all_iff)
  then show ?thesis by (simp add: sealed_def content_def)
qed

theorem finished_files_are_immutable_witness:
  "content (fold (perform toy_age None)
     [(demo_uploader, RPut ([''xyz''], None) ''/old.mp4'' 0), (demo_uploader, RDel ''/old.mp4''),
      (demo_viewer, RGet ''/old.mp4'' 0)] demo_fs) [''srv'', ''cam'', ''old.mp4''] = Some ''abc''"
  using finished_files_are_immutable [OF demo_archive_ok, of None "[''srv'', ''cam'', ''old.mp4'']" 0 "''abc''"
      "[(demo_uploader, RPut ([''xyz''], None) ''/old.mp4'' 0), (demo_uploader, RDel ''/old.mp4''),
        (demo_viewer, RGet ''/old.mp4'' 0)]" toy_age] demo_sealed
  by simp

text \<open>Names that are not scratch names stay bound to the same object.\<close>

definition names_le :: "fs \<Rightarrow> fs \<Rightarrow> bool" where
  "names_le fs fs' \<longleftrightarrow> (\<forall>k d. \<not> scratch k \<longrightarrow> dent_at fs k = Some d \<longrightarrow> dent_at fs' k = Some d)"

lemma names_le_perform:
  assumes "archive_ok U fs" "u \<in> U"
  shows "names_le fs (perform age recips (u, q) fs)"
proof (cases "user_role u")
  case (Uploader h)
  with assms obtain b where "fs_wf fs" "clean_jail fs h b" by (auto simp: archive_ok_def)
  from perform_effect [OF this(1) Uploader this(2), of age recips q] obtain R N I where
    e: "evolves R N I fs (perform age recips (u, q) fs)" "\<forall>l \<in> R. scratch l"
    unfolding uploader_effect_def by blast
  show ?thesis unfolding names_le_def using evolves_kept [OF e(1)] e(2) by blast
next
  case (Viewer sc)
  with perform_read_only [of u q age recips fs] show ?thesis by (auto simp: names_le_def)
qed

interpretation names_run: monotone_run "perform age recips" "\<lambda>(u, q). u \<in> U" "archive_ok U" names_le
  for age :: "('r, 'k, 'e, 's, 'd) age_lib" and recips U
proof unfold_locales
  fix fs and e :: "reo_user \<times> request"
  assume inv: "archive_ok U fs" and ok: "case e of (u, q) \<Rightarrow> u \<in> U"
  obtain u q where e: "e = (u, q)" by (cases e)
  with ok have u: "u \<in> U" by simp
  show "archive_ok U (perform age recips e fs)" unfolding e by (rule archive_ok_perform [OF inv u])
  show "names_le fs (perform age recips e fs)" unfolding e by (rule names_le_perform [OF inv u])
next
  fix fs fs1 fs2
  show "names_le fs fs" by (simp add: names_le_def)
  show "names_le fs fs1 \<Longrightarrow> names_le fs1 fs2 \<Longrightarrow> names_le fs fs2" unfolding names_le_def by blast
qed

text \<open>
  Nothing is deleted or renamed over FTP: through any sequence of requests of any users, with
  any failures, every file, directory or link whose name is not a scratch name stays bound to the
  same object (for a file: the same inode).
\<close>

theorem names_are_permanent:
  assumes "archive_ok U fs" and "\<forall>(u, q) \<in> set reqs. u \<in> U" and "\<not> scratch k" and "dent_at fs k = Some d"
  shows "dent_at (fold (perform age recips) reqs fs) k = Some d"
  using names_run.run_le [OF assms(1), of reqs age recips] assms(2-4)
  by (simp add: names_le_def list_all_iff)

theorem names_are_permanent_witness:
  "dent_at (fold (perform toy_age None) [(demo_uploader, RRmd ''/''), (demo_uploader, RRename ''/old.mp4'' ''/x'')] demo_fs)
     [''srv'', ''cam'', ''old.mp4''] = Some (DFile 0)"
  using names_are_permanent [OF demo_archive_ok,
      of "[(demo_uploader, RRmd ''/''), (demo_uploader, RRename ''/old.mp4'' ''/x'')]"
        "[''srv'', ''cam'', ''old.mp4'']" "DFile 0" toy_age None] demo_not_scratch
  by (simp add: demo_dent_file)

section \<open>Confinement\<close>

text \<open>What is outside the jail \<open>b\<close> looks the same, and files without a name in \<open>b\<close> too.\<close>

definition outside_same :: "loc \<Rightarrow> fs \<Rightarrow> fs \<Rightarrow> bool" where
  "outside_same b fs fs' \<longleftrightarrow>
     next_ino fs \<le> next_ino fs' \<and> (\<forall>k. \<not> prefix b k \<longrightarrow> dent_at fs' k = dent_at fs k) \<and>
     (\<forall>i < next_ino fs. (\<forall>l. prefix b l \<longrightarrow> dent_at fs l \<noteq> Some (DFile i)) \<longrightarrow>
        (\<forall>l. prefix b l \<longrightarrow> dent_at fs' l \<noteq> Some (DFile i)) \<and> bytes_of fs' i = bytes_of fs i)"

lemma outside_same_refl: "outside_same b fs fs"
  by (simp add: outside_same_def)

lemma outside_same_trans:
  assumes 1: "outside_same b fs fs1" and 2: "outside_same b fs1 fs2"
  shows "outside_same b fs fs2"
  unfolding outside_same_def
proof (intro conjI)
  show "next_ino fs \<le> next_ino fs2" using 1 2 unfolding outside_same_def by linarith
  show "\<forall>k. \<not> prefix b k \<longrightarrow> dent_at fs2 k = dent_at fs k"
    using 1 2 unfolding outside_same_def by metis
  have "i < next_ino fs1" if "i < next_ino fs" for i using that 1 unfolding outside_same_def by linarith
  then show "\<forall>i < next_ino fs. (\<forall>l. prefix b l \<longrightarrow> dent_at fs l \<noteq> Some (DFile i)) \<longrightarrow>
      (\<forall>l. prefix b l \<longrightarrow> dent_at fs2 l \<noteq> Some (DFile i)) \<and> bytes_of fs2 i = bytes_of fs i"
    using 1 2 unfolding outside_same_def by metis
qed

lemma effect_outside_same:
  assumes "uploader_effect b fs fs'" "fs_wf fs" "dent_at fs b = Some DDir"
  shows "outside_same b fs fs'"
proof -
  from assms(1) obtain R N I where e: "evolves R N I fs fs'" "\<forall>l \<in> R. scratch l \<and> prefix b l"
    "\<forall>l \<in> N. prefix b l \<or> prefix l b"
    "\<forall>i \<in> I. next_ino fs \<le> i \<or> (\<exists>l. scratch l \<and> prefix b l \<and> dent_at fs l = Some (DFile i))"
    unfolding uploader_effect_def by blast
  have dir: "dent_at fs k = Some DDir" if "prefix k b" for k
    using that tree_wf_prefix [OF fs_wf_tree [OF assms(2)], of k] assms(3)
    by (metis append_Nil2 option.distinct(1) prefix_def)
  have "dent_at fs' k = dent_at fs k" if "\<not> prefix b k" for k
  proof (cases "k \<in> N")
    case True
    with e(3) that dir have "dent_at fs k = Some DDir" by blast
    with evolves_dir [OF e(1)] show ?thesis by simp
  qed (use that e(2) in \<open>intro evolves_other [OF e(1)], auto\<close>)
  moreover have "(\<forall>l. prefix b l \<longrightarrow> dent_at fs' l \<noteq> Some (DFile i)) \<and> bytes_of fs' i = bytes_of fs i"
    if i: "i < next_ino fs" "\<forall>l. prefix b l \<longrightarrow> dent_at fs l \<noteq> Some (DFile i)" for i
  proof -
    have "i \<notin> I" using e(4) i by fastforce
    with evolves_file [OF e(1)] evolves_bytes [OF e(1)] i show ?thesis by blast
  qed
  ultimately show ?thesis using evolves_next [OF e(1)] unfolding outside_same_def by blast
qed

interpretation jail_run: run_system "perform age recips" "\<lambda>(u, q). user_role u = Uploader h"
    "\<lambda>fs'. fs_wf fs' \<and> clean_jail fs' h b \<and> outside_same b fs fs'"
  for age :: "('r, 'k, 'e, 's, 'd) age_lib" and recips h b fs
proof unfold_locales
  fix fs' and e :: "reo_user \<times> request"
  assume inv: "fs_wf fs' \<and> clean_jail fs' h b \<and> outside_same b fs fs'"
    and ok: "case e of (u, q) \<Rightarrow> user_role u = Uploader h"
  obtain u q where e: "e = (u, q)" by (cases e)
  with inv ok have eff: "uploader_effect b fs' (perform age recips e fs')"
    using perform_effect [of fs' u h b age recips q] by simp
  then obtain R N I where ev: "fs_wf (perform age recips e fs')" "evolves R N I fs' (perform age recips e fs')"
    unfolding uploader_effect_def by blast
  from effect_outside_same [OF eff] inv clean_jail_dir(2) [of fs' h b]
  have "outside_same b fs (perform age recips e fs')" by (blast intro: outside_same_trans)
  with ev clean_jail_evolves [OF _ ev] inv
  show "fs_wf (perform age recips e fs') \<and> clean_jail (perform age recips e fs') h b \<and>
      outside_same b fs (perform age recips e fs')" by blast
qed



text \<open>
  (C36) Viewers only read: whatever a viewer requests, through any scope, with any failures, no
  directory entry and no file is changed.
\<close>

theorem viewers_only_read:
  assumes "user_role u = Viewer sc"
  shows "ents (perform age recips (u, q) fs) = ents fs \<and> inodes (perform age recips (u, q) fs) = inodes fs"
  using perform_read_only [of u q age recips fs] assms by auto

theorem viewers_only_read_witness:
  "ents (perform toy_age None (demo_viewer, RPut ([''q''], None) ''/a'' 0) demo_fs) = ents demo_fs"
  using viewers_only_read [of demo_viewer "scope_single (path_new ''/srv/cam'')" toy_age None
      "RPut ([''q''], None) ''/a'' 0" demo_fs]
  by (simp add: demo_viewer_def del: perform.simps)

end
