(* ===== verification/Rust_Fmt.thy ===== *)
theory Rust_Fmt
  imports Prelude
begin

text \<open>
  \<^verbatim>\<open>Display\<close> of unsigned integers, with what makes formatted text readable again: a number
  followed by something that is not a digit can be read back in only one way.
\<close>

fun nat_str :: "nat \<Rightarrow> string" where
  "nat_str n = (if n < 10 then [char_of (48 + n)] else nat_str (n div 10) @ [char_of (48 + n mod 10)])"

declare nat_str.simps [simp del]

abbreviation word_str :: "'a::len word \<Rightarrow> string" where
  "word_str w \<equiv> nat_str (unat w)"

definition is_digit :: "char \<Rightarrow> bool" where
  "is_digit c \<longleftrightarrow> 48 \<le> (of_char c :: nat) \<and> (of_char c :: nat) \<le> 57"

text \<open>The value of a string of digits.\<close>

definition digits_value :: "string \<Rightarrow> nat" where
  "digits_value s = foldl (\<lambda>v c. 10 * v + (of_char c - 48)) 0 s"

lemma digit_char: "d < 10 \<Longrightarrow> is_digit (char_of (48 + d)) \<and> of_char (char_of (48 + d)) = 48 + d" for d :: nat
  by (simp add: is_digit_def)

lemma digits_value_snoc: "digits_value (s @ [c]) = 10 * digits_value s + (of_char c - 48)"
  by (simp add: digits_value_def)

lemma digits_value_nat_str [simp]: "digits_value (nat_str n) = n"
proof (induction n rule: nat_str.induct)
  case (1 n)
  show ?case
  proof (cases "n < 10")
    case True
    then show ?thesis by (subst nat_str.simps) (simp add: digits_value_def)
  next
    case False
    with 1 show ?thesis by (subst nat_str.simps) (simp add: digits_value_snoc)
  qed
qed

lemma nat_str_digits: "c \<in> set (nat_str n) \<Longrightarrow> is_digit c"
proof (induction n rule: nat_str.induct)
  case (1 n)
  show ?case
  proof (cases "n < 10")
    case True
    with "1.prems" digit_char [of n] show ?thesis by (subst (asm) nat_str.simps) simp
  next
    case False
    with 1 digit_char [of "n mod 10"] show ?thesis by (subst (asm) nat_str.simps) auto
  qed
qed

lemma nat_str_cons:
  assumes "\<not> is_digit c" "\<not> is_digit d"
  shows "nat_str n @ c # s = nat_str m @ d # t \<longleftrightarrow> n = m \<and> c = d \<and> s = t"
proof
  assume eq: "nat_str n @ c # s = nat_str m @ d # t"
  have "takeWhile is_digit (nat_str k @ e # u) = nat_str k" if "\<not> is_digit e" for k e u
    using that nat_str_digits [of _ k] by (simp add: takeWhile_append2)
  with eq assms have "nat_str n = nat_str m" by metis
  then have "digits_value (nat_str n) = digits_value (nat_str m)" by simp
  with eq show "n = m \<and> c = d \<and> s = t" by simp
qed simp

lemma nat_str_inj [simp]: "nat_str n = nat_str m \<longleftrightarrow> n = m"
  by (metis digits_value_nat_str)

end
