(* ===== verification/Server.thy ===== *)
theory Server
  imports Archive Rust_Fmt
begin

text \<open>
  \<^verbatim>\<open>src/server.rs\<close>: the settings handed to the FTP library, the creation of the camera homes, the
  configuration reload, the start of the daemon with its two background tasks, and the privilege
  drop.  The FTP library is not part of the sources: its builder is a parameter that turns the
  settings into a server or an error message.  An \<^verbatim>\<open>anyhow::Error\<close> is the chain of its messages,
  the outermost context first.
\<close>

type_synonym anyhow = "string list"

datatype failed_logins_block = UserAndIP

record 'r unftp_settings =
  set_recipients :: "'r list option"
  set_passive_ports :: "u16 \<times> u16"
  set_idle_timeout :: u64
  set_failed_logins :: "u32 \<times> u64 \<times> failed_logins_block"
  set_passive_host :: "string option"
  set_greeting :: "string option"
  set_ftps :: "(path \<times> path) option"

text \<open>The builder calls of \<^verbatim>\<open>build_server\<close>; the shared tables are those of the daemon state below.\<close>

definition builder_settings :: "config \<Rightarrow> 'r list option \<Rightarrow> 'r unftp_settings" where
  "builder_settings cfg recips =
     (let lk = failed_login_lockout (limits cfg)
      in \<lparr>set_recipients = recips,
          set_passive_ports = passive_ports (server cfg),
          set_idle_timeout = idle_timeout_secs (limits cfg),
          set_failed_logins = (max_attempts lk, window_secs lk, UserAndIP),
          set_passive_host = passive_host (server cfg),
          set_greeting = greeting (server cfg),
          set_ftps =
            (case (tls_cert (server cfg), tls_key (server cfg)) of
               (Some cert, Some key) \<Rightarrow> Some (cert, key)
             | _ \<Rightarrow> None)\<rparr>)"

definition build_server ::
    "('r, 'k, 'e, 's, 'd) age_lib \<Rightarrow> ('r unftp_settings \<Rightarrow> string + 'srv) \<Rightarrow> config \<Rightarrow> anyhow + 'srv" where
  "build_server age unftp_build cfg =
     (case (case encryption cfg of
              Some enc \<Rightarrow>
                (case parse_recipients age (recipients enc) of
                   Inl e \<Rightarrow> Inl [''encryption recipients: '' @ crypto_error_display e]
                 | Inr rs \<Rightarrow> Inr (Some rs))
            | None \<Rightarrow> Inr None) of
        Inl e \<Rightarrow> Inl e
      | Inr recips \<Rightarrow>
          (case unftp_build (builder_settings cfg recips) of
             Inl e \<Rightarrow> Inl [''libunftp ServerBuilder::build failed'', e]
           | Inr srv \<Rightarrow> Inr srv))"

definition home_dir :: "config \<Rightarrow> camera_cfg \<Rightarrow> path" where
  "home_dir cfg cam = path_join (root (archive cfg)) (path_new (cam_name cam))"

fun ensure_dirs :: "path list \<Rightarrow> unit io" where
  "ensure_dirs [] fs = (Inr (), fs)"
| "ensure_dirs (p # ps) fs =
     (case fs_create_dir_all p fs of
        (Inl e, fs) \<Rightarrow> (Inl e, fs)
      | (Inr _, fs) \<Rightarrow> ensure_dirs ps fs)"

definition ensure_home_dirs :: "config \<Rightarrow> unit io" where
  "ensure_home_dirs cfg = ensure_dirs (map (home_dir cfg) (camera cfg))"

text \<open>The running daemon: the swappable account table, the tracker, and the file system.\<close>

record daemon =
  d_accounts :: accounts
  d_tracker :: session_state
  d_fs :: fs

definition reload_config ::
    "('r, 'k, 'e, 's, 'd) age_lib \<Rightarrow> toml \<Rightarrow> path \<Rightarrow> daemon \<Rightarrow> (anyhow + unit) \<times> daemon" where
  "reload_config age toml p d =
     (case load age toml p (d_fs d) of
        (Inl e, fs) \<Rightarrow> (Inl [''reload: '' @ config_error_display e], d\<lparr>d_fs := fs\<rparr>)
      | (Inr cfg, fs) \<Rightarrow>
          (case ensure_home_dirs cfg fs of
             (Inl e, fs) \<Rightarrow> (Inl [''reload: ensure_home_dirs: '' @ io_display e], d\<lparr>d_fs := fs\<rparr>)
           | (Inr _, fs) \<Rightarrow>
               (Inr (),
                d\<lparr>d_fs := fs, d_accounts := build cfg,
                  d_tracker := set_limits (max_connections (limits cfg))
                    (max_connections_per_account (limits cfg)) (d_tracker d)\<rparr>)))"

text \<open>
  \<^verbatim>\<open>run\<close> up to \<^verbatim>\<open>listen\<close>: the daemon state, the server, and the address it listens on.  The two tasks
  it spawns are the events \<open>on_sighup\<close> and \<open>on_tick\<close>.
\<close>

definition run_start ::
    "('r, 'k, 'e, 's, 'd) age_lib \<Rightarrow> ('r unftp_settings \<Rightarrow> string + 'srv) \<Rightarrow> config \<Rightarrow> fs \<Rightarrow>
     (anyhow + daemon \<times> 'srv \<times> string) \<times> fs" where
  "run_start age unftp_build cfg fs =
     (case ensure_home_dirs cfg fs of
        (Inl e, fs) \<Rightarrow> (Inl [''failed to create camera home directories'', io_display e], fs)
      | (Inr _, fs) \<Rightarrow>
          (let d = \<lparr>d_accounts = build cfg,
                    d_tracker = tracker_new (max_connections (limits cfg)) (max_connections_per_account (limits cfg)),
                    d_fs = fs\<rparr>
           in case build_server age unftp_build cfg of
                Inl e \<Rightarrow> (Inl e, fs)
              | Inr srv \<Rightarrow> (Inr (d, srv, listen (server cfg) @ '':'' @ word_str (port (server cfg))), fs)))"

text \<open>The SIGHUP task: a failed reload is logged and otherwise ignored.\<close>

definition on_sighup :: "('r, 'k, 'e, 's, 'd) age_lib \<Rightarrow> toml \<Rightarrow> path \<Rightarrow> daemon \<Rightarrow> daemon" where
  "on_sighup age toml p d = snd (reload_config age toml p d)"

text \<open>The reaper task; the tracker's clock counts seconds.\<close>

definition on_tick :: "nat \<Rightarrow> daemon \<Rightarrow> daemon" where
  "on_tick now d = d\<lparr>d_tracker := snd (reap now (unat SESSION_TTL_SECS) (d_tracker d))\<rparr>"

section \<open>Privileges\<close>

record user_ids =
  uid :: u32
  gid :: u32

text \<open>The user database of the operating system is a parameter.\<close>

definition resolve_user :: "(string \<Rightarrow> string + (u32 \<times> u32) option) \<Rightarrow> string \<Rightarrow> string + user_ids" where
  "resolve_user passwd name =
     (case passwd name of
        Inr (Some (u, g)) \<Rightarrow> Inr \<lparr>uid = u, gid = g\<rparr>
      | Inr None \<Rightarrow> Inl (''user '' @ [CHR 0x27] @ name @ [CHR 0x27] @ '' not found'')
      | Inl e \<Rightarrow> Inl (''os error looking up user '' @ [CHR 0x27] @ name @ [CHR 0x27] @ '': '' @ e))"

text \<open>
  \<^verbatim>\<open>setgid\<close> and \<^verbatim>\<open>setuid\<close> of POSIX for the identity of the process: allowed to the superuser, who
  loses that power with \<^verbatim>\<open>setuid\<close>, and to others only for the identity they have.
\<close>

definition os_setgid :: "u32 \<Rightarrow> user_ids \<Rightarrow> string + user_ids" where
  "os_setgid g p = (if uid p = 0 \<or> g = gid p then Inr (p\<lparr>gid := g\<rparr>) else Inl ''EPERM: Operation not permitted'')"

definition os_setuid :: "u32 \<Rightarrow> user_ids \<Rightarrow> string + user_ids" where
  "os_setuid u p = (if uid p = 0 \<or> u = uid p then Inr (p\<lparr>uid := u\<rparr>) else Inl ''EPERM: Operation not permitted'')"

definition drop_privileges ::
    "(string \<Rightarrow> string + (u32 \<times> u32) option) \<Rightarrow> string \<Rightarrow> user_ids \<Rightarrow> (string + unit) \<times> user_ids" where
  "drop_privileges passwd name p =
     (case resolve_user passwd name of
        Inl e \<Rightarrow> (Inl e, p)
      | Inr ids \<Rightarrow>
          (case os_setgid (gid ids) p of
             Inl e \<Rightarrow> (Inl (''setgid to '' @ word_str (gid ids) @ '' failed: '' @ e), p)
           | Inr p \<Rightarrow>
               (case os_setuid (uid ids) p of
                  Inl e \<Rightarrow> (Inl (''setuid to '' @ word_str (uid ids) @ '' failed: '' @ e), p)
                | Inr p \<Rightarrow> (Inr (), p))))"

text \<open>
  The privilege drop of the superuser to a known user takes over both the group and the user of
  that user; with an unknown user it fails and changes nothing.
\<close>

theorem drop_privileges_complete:
  "(\<forall>u g. passwd name = Inr (Some (u, g)) \<longrightarrow>
      drop_privileges passwd name \<lparr>uid = 0, gid = g0\<rparr> = (Inr (), \<lparr>uid = u, gid = g\<rparr>)) \<and>
   ((\<nexists>x. passwd name = Inr (Some x)) \<longrightarrow>
      (\<exists>e. drop_privileges passwd name p = (Inl e, p)))"
  by (auto simp: drop_privileges_def resolve_user_def os_setgid_def os_setuid_def split: sum.splits option.splits)

theorem drop_privileges_complete_witness:
  "drop_privileges (\<lambda>n. Inr (if n = ''reoftpd'' then Some (990, 991) else None)) ''reoftpd'' \<lparr>uid = 0, gid = 0\<rparr> =
     (Inr (), \<lparr>uid = 990, gid = 991\<rparr>)"
  using drop_privileges_complete [of "\<lambda>n. Inr (if n = ''reoftpd'' then Some (990, 991) else None)" "''reoftpd''" 0]
  by simp

section \<open>Errors of the start\<close>

text \<open>
  With a configuration that has passed validation, building the server can fail only in the FTP
  library: the recipients parse, encryption is on exactly when it is configured, and the library is
  given the ports, timeouts, lockout, banner and, when both files are configured, TLS.
\<close>

theorem build_server_valid:
  assumes "validate age cfg = Inr ()"
  shows "\<exists>recips. (recips = None \<longleftrightarrow> encryption cfg = None) \<and>
    (\<forall>enc. encryption cfg = Some enc \<longrightarrow> parse_recipients age (recipients enc) = Inr (the recips)) \<and>
    build_server age unftp_build cfg =
      (case unftp_build (builder_settings cfg recips) of
         Inl e \<Rightarrow> Inl [''libunftp ServerBuilder::build failed'', e]
       | Inr srv \<Rightarrow> Inr srv)"
proof (cases "encryption cfg")
  case None
  then show ?thesis by (intro exI [of _ None]) (simp add: build_server_def)
next
  case (Some enc)
  from assms have "check_encryption age (encryption cfg) = Inr ()"
    by (auto simp: validate_def split: if_splits sum.splits prod.splits)
  with Some obtain rs where "parse_recipients age (recipients enc) = Inr rs"
    by (auto simp: check_encryption_def split: if_splits sum.splits)
  with Some show ?thesis by (intro exI [of _ "Some rs"]) (simp add: build_server_def)
qed

theorem build_server_valid_witness:
  "build_server toy_age Inr demo_config = Inr (builder_settings demo_config None)"
proof -
  have "validate toy_age demo_config = Inr ()" using validate_Inr demo_config_valid by blast
  from build_server_valid [OF this, of Inr] show ?thesis by (auto simp: demo_config_def)
qed

section \<open>Reloading\<close>

text \<open>
  (C23) Reloading is fail-safe: when the file cannot be read, does not parse, is not valid or a home
  directory cannot be created, the account table and the tracker are exactly as before; when it
  succeeds the accounts are those of the new, valid configuration, the caps are its caps, and every
  open session is still counted.
\<close>

theorem reload_fail_safe:
  "case reload_config age toml p d of
     (Inl e, d') \<Rightarrow> d_accounts d' = d_accounts d \<and> d_tracker d' = d_tracker d
   | (Inr _, d') \<Rightarrow> \<exists>cfg. fst (load age toml p (d_fs d)) = Inr cfg \<and> valid_config age cfg \<and>
       d_accounts d' = build cfg \<and>
       max_global (d_tracker d') = max_connections (limits cfg) \<and>
       max_per_account (d_tracker d') = max_connections_per_account (limits cfg) \<and>
       per_account (d_tracker d') = per_account (d_tracker d) \<and> global (d_tracker d') = global (d_tracker d)"
proof -
  obtain r fs1 where 1: "load age toml p (d_fs d) = (r, fs1)" by fastforce
  have valid: "valid_config age cfg" if "r = Inr cfg" for cfg
    using 1 that validate_Inr [of age cfg]
    by (auto simp: load_def split: prod.splits sum.splits)
  show ?thesis
    using valid by (auto simp: reload_config_def 1 set_limits_def split: prod.splits sum.splits)
qed

section \<open>Home directories\<close>

text \<open>Creating a directory at any path: what exists stays, only directories appear.\<close>

lemma fs_mkdir_any:
  assumes "fs_mkdir p fs = (r, fs')" "fs_wf fs"
  shows "fs_wf fs' \<and> evolves {} UNIV {} fs fs' \<and> (r = Inr () \<longrightarrow> (\<exists>b. lookup fs' p = Inr (b, DDir)))"
  using assms(1) unfolding fs_mkdir_def
proof (cases rule: syscall_cases)
  case (run fl)
  show ?thesis
  proof (cases "r = Inr ()")
    case True
    with run obtain x l where x: "path_file_name p = Some x" and e: "entry_of fs p = Inr l"
      and n: "dent_at fs l = None" and fs': "fs' = put_ent l DDir (fs\<lparr>faults := fl\<rparr>)"
      by (auto split: option.splits sum.splits)
    from e x obtain dir where dir: "lookup fs (butlast p) = Inr (dir, DDir)" "l = dir @ [x]"
      by (auto simp: entry_of_def split: sum.splits if_splits)
    from x have p: "p = butlast p @ [Normal x]" by (metis append_butlast_last_id path_file_name_Some)
    from lookup_result [OF assms(2) dir(1)] have "dent_at fs dir = Some DDir" by simp
    then have wf: "fs_wf fs'" unfolding fs' using assms(2) n dir(2) by (intro fs_wf_put_ent) simp_all
    have ev: "evolves {} UNIV {} fs fs'" unfolding fs' using n dir(2) by (auto simp: evolves_def)
    from lookup_child [OF wf lookup_dir_evolves [OF assms(2) ev dir(1)], of x] fs' dir(2) p
    have "lookup fs' p = Inr (l, DDir)" by simp
    with wf ev show ?thesis by blast
  next
    case False
    with run assms(2) show ?thesis by (auto split: option.splits sum.splits)
  qed
qed (use assms in simp)

lemma fs_is_dir_lookup: "fs_is_dir p fs = (True, fs') \<Longrightarrow> \<exists>b. lookup fs p = Inr (b, DDir)"
  unfolding fs_is_dir_def fs_metadata_def
  by (cases "faults fs") (auto simp: syscall_def meta_of_def split: prod.splits sum.splits option.splits)

lemma fs_is_dir_any:
  assumes "fs_is_dir p fs = (d, fs')" "fs_wf fs"
  shows "fs_wf fs' \<and> evolves {} UNIV {} fs fs' \<and> (d \<longrightarrow> (\<exists>b. lookup fs' p = Inr (b, DDir)))"
  using fs_is_dir_state [OF assms(1)] fs_is_dir_lookup [of p fs fs'] assms by auto

lemma mkdir_or_dir_any:
  assumes "mkdir_or_dir p fs = (r, fs')" "fs_wf fs"
  shows "fs_wf fs' \<and> evolves {} UNIV {} fs fs' \<and> (r = Inr () \<longrightarrow> (\<exists>b. lookup fs' p = Inr (b, DDir)))"
proof -
  obtain r1 fs1 where 1: "fs_mkdir p fs = (r1, fs1)" by fastforce
  obtain d fs2 where 2: "fs_is_dir p fs1 = (d, fs2)" by fastforce
  note f1 = fs_mkdir_any [OF 1 assms(2)]
  note f2 = fs_is_dir_any [OF 2 conjunct1 [OF f1]]
  have "evolves {} UNIV {} fs fs2" using f1 f2 by (blast intro: evolves_trans)
  with assms(1) 1 2 f1 f2 show ?thesis
    by (cases r1) (auto simp: mkdir_or_dir_def split: if_splits)
qed

lemma fs_create_dir_all_any:
  assumes "fs_create_dir_all p fs = (r, fs')" "fs_wf fs"
  shows "fs_wf fs' \<and> evolves {} UNIV {} fs fs' \<and> (r = Inr () \<longrightarrow> (\<exists>b. lookup fs' p = Inr (b, DDir)))"
  using assms
proof (induction p arbitrary: fs r fs' rule: length_induct)
  case (1 p)
  show ?case
  proof (cases "p = []")
    case True
    with 1 fs_wf_cwd [of fs] show ?thesis by (auto simp: fs_create_dir_all.simps lookup_def locate_def)
  next
    case ne: False
    obtain r1 fs1 where mk: "fs_mkdir p fs = (r1, fs1)" by fastforce
    note f1 = fs_mkdir_any [OF mk 1(3)]
    obtain d fs2 where is_dir: "fs_is_dir p fs1 = (d, fs2)" by fastforce
    note f2 = fs_is_dir_any [OF is_dir conjunct1 [OF f1]]
    have ev2: "evolves {} UNIV {} fs fs2" using f1 f2 by (blast intro: evolves_trans)
    show ?thesis
    proof (cases "\<exists>q. r1 = Inl ENotFound \<and> path_parent p = Some q")
      case False
      with 1(2) mk ne f1 f2 ev2 is_dir show ?thesis
        by (cases r1; subst (asm) fs_create_dir_all.simps) (auto split: if_splits option.splits)
    next
      case True
      then obtain q where q: "r1 = Inl ENotFound" "path_parent p = Some q" by blast
      obtain r3 fs3 where c: "fs_create_dir_all q fs1 = (r3, fs3)" by fastforce
      from 1(1) length_path_parent [OF q(2)] c f1
      have f3: "fs_wf fs3 \<and> evolves {} UNIV {} fs1 fs3" by blast
      have ev3: "evolves {} UNIV {} fs fs3" using f1 f3 by (blast intro: evolves_trans)
      obtain r4 fs4 where mo: "mkdir_or_dir p fs3 = (r4, fs4)" by fastforce
      note f4 = mkdir_or_dir_any [OF mo conjunct1 [OF f3]]
      have "evolves {} UNIV {} fs fs4" using ev3 f4 by (blast intro: evolves_trans)
      with 1(2) mk ne q c mo f3 ev3 f4 show ?thesis
        by (cases r3; subst (asm) fs_create_dir_all.simps) auto
    qed
  qed
qed

lemma ensure_dirs_any:
  assumes "ensure_dirs ps fs = (r, fs')" "fs_wf fs"
  shows "fs_wf fs' \<and> evolves {} UNIV {} fs fs' \<and> (r = Inr () \<longrightarrow> (\<forall>p \<in> set ps. \<exists>b. lookup fs' p = Inr (b, DDir)))"
  using assms
proof (induction ps arbitrary: fs)
  case (Cons p ps)
  obtain r1 fs1 where 1: "fs_create_dir_all p fs = (r1, fs1)" by fastforce
  note f1 = fs_create_dir_all_any [OF 1 Cons.prems(2)]
  show ?case
  proof (cases r1)
    case (Inl e)
    with Cons.prems(1) 1 f1 show ?thesis by auto
  next
    case (Inr u)
    with Cons.prems(1) 1 have "ensure_dirs ps fs1 = (r, fs')" by simp
    note f2 = Cons.IH [OF this conjunct1 [OF f1]]
    have "evolves {} UNIV {} fs fs'" using f1 f2 by (blast intro: evolves_trans)
    moreover from f1 Inr obtain b where b: "lookup fs1 p = Inr (b, DDir)" by auto
    have "lookup fs' p = Inr (b, DDir)"
      by (rule lookup_dir_evolves [OF conjunct1 [OF f1] conjunct1 [OF conjunct2 [OF f2]] b])
    ultimately show ?thesis using f2 by auto
  qed
qed auto

end
