(* ===== verification/Camera_Isolation.thy ===== *)
theory Camera_Isolation
  imports Server
begin

text \<open>
  The accounts of one configuration side by side: what the other accounts do leaves the home of a
  camera alone.  This rests on the names of the cameras being plain directory names, which the
  validation does not check; a camera with another name may have its home anywhere.
\<close>

definition plain_cameras :: "config \<Rightarrow> bool" where
  "plain_cameras cfg = list_all (\<lambda>cam. plain_name (cam_name cam)) (camera cfg)"

text \<open>No file has names on both sides of the boundary of \<open>b\<close>.\<close>

definition unshared :: "loc \<Rightarrow> fs \<Rightarrow> bool" where
  "unshared b fs \<longleftrightarrow> (\<forall>k l i. prefix b k \<longrightarrow> dent_at fs k = Some (DFile i) \<longrightarrow>
     dent_at fs l = Some (DFile i) \<longrightarrow> prefix b l)"

text \<open>The archive root holds no symbolic link, and the homes exist.\<close>

definition camera_homes_ok :: "config \<Rightarrow> loc \<Rightarrow> fs \<Rightarrow> bool" where
  "camera_homes_ok cfg r fs \<longleftrightarrow> fs_wf fs \<and> clean_jail fs (root (archive cfg)) r \<and>
     list_all (\<lambda>cam. dent_at fs (r @ [cam_name cam]) = Some DDir) (camera cfg)"

definition same_below :: "loc \<Rightarrow> fs \<Rightarrow> fs \<Rightarrow> bool" where
  "same_below b fs fs' \<longleftrightarrow> (\<forall>k. prefix b k \<longrightarrow> dent_at fs' k = dent_at fs k \<and> content fs' k = content fs k)"

section \<open>Homes\<close>

lemma isolation_faults [simp]:
  "camera_homes_ok cfg r (fs\<lparr>faults := fl\<rparr>) = camera_homes_ok cfg r fs"
  "unshared b (fs\<lparr>faults := fl\<rparr>) = unshared b fs"
  "same_below b fs0 (fs\<lparr>faults := fl\<rparr>) = same_below b fs0 fs"
  by (simp_all add: camera_homes_ok_def unshared_def same_below_def)

lemma home_clean:
  assumes "camera_homes_ok cfg r fs" "plain_cameras cfg" "cam \<in> set (camera cfg)"
  shows "clean_jail fs (path_join (root (archive cfg)) (path_new (cam_name cam))) (r @ [cam_name cam])"
proof -
  from assms have wf: "fs_wf fs" and root: "clean_jail fs (root (archive cfg)) r"
    and d: "dent_at fs (r @ [cam_name cam]) = Some DDir" and p: "plain_name (cam_name cam)"
    by (auto simp: camera_homes_ok_def plain_cameras_def list_all_iff)
  have "nolinks fs (r @ [cam_name cam])" by (rule nolinks_clean [OF wf root])
  then have "lookup fs (abs_path (r @ [cam_name cam])) = Inr (r @ [cam_name cam], DDir)"
    by (simp add: lookup_abs_Inr [OF wf] d)
  with lookup_below [OF wf root, of "[cam_name cam]"] root p show ?thesis
    by (auto simp: clean_jail_def list_all_iff path_join_Normal path_new_plain dest: append_prefixD)
qed

lemma camera_homes_evolves:
  assumes "camera_homes_ok cfg r fs" "fs_wf fs'" "evolves R N I fs fs'"
  shows "camera_homes_ok cfg r fs'"
  using assms clean_jail_evolves [OF _ assms(2,3)] evolves_dir [OF assms(3)]
  by (auto simp: camera_homes_ok_def list_all_iff)

lemma same_below_trans: "same_below b fs fs1 \<Longrightarrow> same_below b fs1 fs2 \<Longrightarrow> same_below b fs fs2"
  by (simp add: same_below_def)

text \<open>A change confined to one home, seen from another.\<close>

lemma neighbour_untouched:
  assumes out: "outside_same b' fs fs'" and wf: "fs_wf fs" and b: "unshared b fs"
    and apart: "\<And>k. prefix b k \<Longrightarrow> \<not> prefix b' k"
  shows "same_below b fs fs' \<and> unshared b fs'"
proof -
  have d: "dent_at fs' k = dent_at fs k" if "\<not> prefix b' k" for k
    using out that by (simp add: outside_same_def)
  have i: "(\<forall>l. prefix b' l \<longrightarrow> dent_at fs' l \<noteq> Some (DFile i)) \<and> bytes_of fs' i = bytes_of fs i"
    if k: "prefix b k" "dent_at fs k = Some (DFile i)" for k i
  proof -
    have "\<forall>l. prefix b' l \<longrightarrow> dent_at fs l \<noteq> Some (DFile i)"
      using b k apart unfolding unshared_def by blast
    with out fs_wf_inode [OF wf k(2)] show ?thesis unfolding outside_same_def by blast
  qed
  have "same_below b fs fs'"
    using d i apart by (auto simp: same_below_def content_def split: option.splits dent.splits)
  moreover have "unshared b fs'"
    unfolding unshared_def
  proof (intro allI impI)
    fix k l j
    assume a: "prefix b k" "dent_at fs' k = Some (DFile j)" "dent_at fs' l = Some (DFile j)"
    with d apart have "dent_at fs k = Some (DFile j)" by metis
    with i a have "\<not> prefix b' l" by blast
    with d a(3) have "dent_at fs l = Some (DFile j)" by metis
    with b a(1) \<open>dent_at fs k = _\<close> show "prefix b l" unfolding unshared_def by blast
  qed
  ultimately show ?thesis by blast
qed

section \<open>Isolation\<close>

text \<open>A user that the account table supplies for a login other than the camera's.\<close>

definition other_account :: "config \<Rightarrow> camera_cfg \<Rightarrow> reo_user \<Rightarrow> bool" where
  "other_account cfg cam u \<longleftrightarrow>
     (\<exists>l. l \<noteq> login cam \<and> provide_user_detail (build cfg) \<lparr>principal_name = l\<rparr> = Inr u)"

lemma other_account_role:
  assumes "valid_config age cfg" "other_account cfg cam u" "cam \<in> set (camera cfg)" "user_role u = Uploader h"
  obtains cam' where "cam' \<in> set (camera cfg)" "cam_name cam' \<noteq> cam_name cam"
    "h = path_join (root (archive cfg)) (path_new (cam_name cam'))"
proof -
  from assms(2) obtain l a where l: "l \<noteq> login cam" "accounts_get (build cfg) l = Some a" "user_role u = role a"
    by (auto simp: other_account_def provide_user_detail_def split: option.splits)
  with build_accounts [OF assms(1)] assms(4) obtain cam' where
    c: "cam' \<in> set (camera cfg)" "login cam' = l" "a = camera_account cfg cam'"
    by (auto simp: viewer_account_def)
  moreover from assms(1) have "inj_on cam_name (set (camera cfg))"
    by (simp add: valid_config_def distinct_map)
  ultimately have "cam_name cam' \<noteq> cam_name cam" using l(1) assms(3) by (auto dest: inj_onD)
  moreover have "h = path_join (root (archive cfg)) (path_new (cam_name cam'))"
    using assms(4) l(3) c(3) by (simp add: camera_account_def)
  ultimately show ?thesis using that c(1) by blast
qed

interpretation neighbours: run_system "perform age recips"
    "\<lambda>(u, q). valid_config vage cfg \<and> plain_cameras cfg \<and> cam \<in> set (camera cfg) \<and> other_account cfg cam u"
    "\<lambda>fs'. camera_homes_ok cfg r fs' \<and> unshared (r @ [cam_name cam]) fs' \<and> same_below (r @ [cam_name cam]) fs fs'"
  for age :: "('r, 'k, 'e, 's, 'd) age_lib" and recips and vage :: "('r2, 'k2, 'e2, 's2, 'd2) age_lib" and cfg cam r fs
proof unfold_locales
  let ?b = "r @ [cam_name cam]"
  fix fs1 and e :: "reo_user \<times> request"
  assume inv: "camera_homes_ok cfg r fs1 \<and> unshared ?b fs1 \<and> same_below ?b fs fs1"
    and ok: "case e of (u, q) \<Rightarrow> valid_config vage cfg \<and> plain_cameras cfg \<and> cam \<in> set (camera cfg) \<and> other_account cfg cam u"
  obtain u q where e: "e = (u, q)" by (cases e)
  let ?fs2 = "perform age recips e fs1"
  show "camera_homes_ok cfg r ?fs2 \<and> unshared ?b ?fs2 \<and> same_below ?b fs ?fs2"
  proof (cases "user_role u")
    case (Viewer sc)
    then have "(\<exists>sc. user_role u = Viewer sc) \<or> (\<forall>rd p n. q \<noteq> RPut rd p n) \<and> (\<forall>p. q \<noteq> RMkd p)" by simp
    from perform_read_only [OF this, of age recips fs1] obtain fl where "?fs2 = fs1\<lparr>faults := fl\<rparr>"
      unfolding e by blast
    with inv show ?thesis by simp
  next
    case (Uploader h)
    from ok e have v: "valid_config vage cfg" "other_account cfg cam u" "cam \<in> set (camera cfg)" "plain_cameras cfg"
      by simp_all
    from other_account_role [OF v(1-3) Uploader] obtain cam' where
      c: "cam' \<in> set (camera cfg)" "cam_name cam' \<noteq> cam_name cam"
        "h = path_join (root (archive cfg)) (path_new (cam_name cam'))" .
    have clean: "clean_jail fs1 h (r @ [cam_name cam'])" using home_clean [OF _ v(4) c(1)] inv c(3) by simp
    have wf: "fs_wf fs1" using inv by (simp add: camera_homes_ok_def)
    have eff: "uploader_effect (r @ [cam_name cam']) fs1 ?fs2"
      using perform_effect [OF wf Uploader clean, of age recips q] by (simp add: e)
    then obtain R N I where ev: "fs_wf ?fs2" "evolves R N I fs1 ?fs2" unfolding uploader_effect_def by blast
    have "\<not> prefix (r @ [cam_name cam']) k" if "prefix ?b k" for k
      using that c(2) by (auto simp: prefix_def)
    with neighbour_untouched [OF effect_outside_same [OF eff wf clean_jail_dir(2) [OF wf clean]] wf] inv
    have "same_below ?b fs1 ?fs2 \<and> unshared ?b ?fs2" by blast
    with camera_homes_evolves [OF _ ev] inv same_below_trans show ?thesis by blast
  qed
qed


section \<open>Examples\<close>

definition two_homes :: fs where
  "two_homes = demo_fs\<lparr>ents := [([''srv''], DDir), ([''srv'', ''cam''], DDir),
     ([''srv'', ''cam'', ''old.mp4''], DFile 0), ([''srv'', ''door''], DDir)]\<rparr>"

definition door_user :: reo_user where
  "door_user = \<lparr>user_login = ''door'', user_role = Uploader (path_new ''/srv/door''), user_require_tls = False\<rparr>"

lemma two_homes_ok: "camera_homes_ok demo_config [''srv''] two_homes"
proof -
  have "fs_wf two_homes" by (simp add: fs_wf_def two_homes_def demo_fs_def dent_at_def)
  moreover have "clean_jail two_homes (root (archive demo_config)) [''srv'']" by code_simp
  moreover have "list_all (\<lambda>cam. dent_at two_homes ([''srv''] @ [cam_name cam]) = Some DDir) (camera demo_config)"
    by code_simp
  ultimately show ?thesis by (simp add: camera_homes_ok_def)
qed

lemma two_homes_unshared: "unshared [''srv'', ''cam''] two_homes"
  by (auto simp: unshared_def two_homes_def demo_fs_def dent_at_def split: if_splits)


definition etc_config :: config where
  "etc_config = demo_config\<lparr>camera := [demo_camera ''../etc'' None], group_map := [], viewer := []\<rparr>"

text \<open>
  The validation accepts any string as the name of a camera, and the name becomes part of a path:
  with the name \<open>../etc\<close> the home of the camera lies outside the archive, the start creates it there,
  and the camera writes files there.
\<close>

theorem camera_name_escapes_archive:
  "validate toy_age etc_config = Inr () \<and> root (archive etc_config) = path_new ''/srv'' \<and>
   (case provide_user_detail (build etc_config) \<lparr>principal_name = ''../etc''\<rparr> of
      Inl _ \<Rightarrow> False
    | Inr u \<Rightarrow>
        (case ensure_home_dirs etc_config demo_fs of
           (Inl _, _) \<Rightarrow> False
         | (Inr _, fs) \<Rightarrow>
             content (perform toy_age None (u, RPut ([''root''], None) ''/passwd'' 0) fs) [''etc'', ''passwd''] = Some ''root''))"
  by code_simp

end
