(* ===== verification/File_Transfer.thy ===== *)
theory File_Transfer
  imports Archive
begin

text \<open>
  The functional behaviour of single requests: what an upload leaves behind, on success and on
  every error; that a download returns the bytes of the file; that a listing shows exactly the
  directory less the daemon's own names.
\<close>

section \<open>Uploads\<close>

lemma put_plain_eq:
  assumes "fs_wf fs" "user_role u = Uploader h" "clean_jail fs h b"
    and "lossy_file_name (path_new v) = Some f" "\<not> is_reolink_test_file f" "ParentDir \<notin> set (path_new v)"
  shows "put age None u input (path_new v) n fs =
    store_result (store_stream (abs_path (b @ virtual_names (path_new v))) n input fs)"
  using put_uploader [OF assms(1-5), of age None input n] assms(6)
  by (simp add: upload_loc_def)

lemma put_success:
  assumes "fs_wf fs" "user_role u = Uploader h" "clean_jail fs h b"
    and "lossy_file_name (path_new v) = Some f" "\<not> is_reolink_test_file f"
    and "put age recips u input (path_new v) n fs = (Inr m, fs')"
  shows "ParentDir \<notin> set (path_new v)" and
    "recips = None \<Longrightarrow> store_stream (abs_path (upload_loc recips b (path_new v))) n input fs = (Inr m, fs')" and
    "recips = Some rs \<Longrightarrow> n = 0 \<and>
       store_encrypted age (abs_path (upload_loc recips b (path_new v))) rs input fs = (Inr m, fs')"
  using assms(6) unfolding put_uploader [OF assms(1-5)]
  by (auto simp: store_result_def prod_eq_iff split: if_splits sum.splits option.splits)

text \<open>
  A successful plain upload, whatever else failed on the way: the transfer ended without
  error, the reported size is the number of bytes received, the offset continued exactly what was
  staged, the name was free before and is now a sealed file with the staged bytes followed by the
  received ones, and no other file but its staging file has changed.
\<close>

theorem plain_upload_publishes:
  assumes "fs_wf fs" and "user_role u = Uploader h" and "clean_jail fs h b"
    and "lossy_file_name (path_new v) = Some f" and "\<not> is_reolink_test_file f"
    and "\<not> str_ends_with f STAGING_SUFFIX"
    and "l = b @ virtual_names (path_new v)" and "unaliased fs (stg l)"
    and "put age None u input (path_new v) n fs = (Inr m, fs')"
  shows "snd input = None \<and> m = length (concat (fst input)) \<and> n = length (staged fs l) \<and>
    dent_at fs l = None \<and> (\<exists>i. sealed False fs' l i (staged fs l @ concat (fst input))) \<and>
    (\<forall>k. k \<noteq> l \<longrightarrow> k \<noteq> stg l \<longrightarrow> content fs' k = content fs k)"
proof -
  have l: "upload_loc (None :: 'a list option) b (path_new v) = l" by (simp add: upload_loc_def assms(7))
  note run = put_success(2) [OF assms(1-5,9) refl, unfolded l]
  note ok = upload_loc_ok(1) [OF assms(1,3,4), of "None :: 'a list option", unfolded l]
  note s = store_stream_inv [OF ok run]
  have "last l = f" "l \<noteq> []" using virtual_names_last [OF assms(4)] assms(7) by auto
  with assms(5,6) have "\<not> scratch l" by (simp add: scratch_def)
  from s have inv: "up_inv fs l fs'" and pub: "published fs l (staged fs l @ concat (fst input)) fs'" by simp_all
  from pub have "dent_at fs l = None" by (simp add: published_def)
  with s published_sealed [OF inv assms(1) pub \<open>\<not> scratch l\<close> assms(8), of False]
    published_content [OF inv assms(1) pub assms(8)]
  show ?thesis by simp
qed

definition demo_put :: "(storage_error + nat) \<times> fs" where
  "demo_put = put toy_age None demo_uploader ([''ab'', ''c''], None) (path_new ''/2026/new.mp4'') 0 demo_fs"

lemma demo_stg_unaliased: "last k \<noteq> ''old.mp4'' \<Longrightarrow> unaliased demo_fs k"
  by (auto simp: unaliased_def demo_dent_file)

theorem plain_upload_publishes_witness:
  "fst demo_put = Inr 3 \<and> (\<exists>i. sealed False (snd demo_put) [''srv'', ''cam'', ''2026'', ''new.mp4''] i ''abc'')"
proof -
  have r: "fst demo_put = Inr 3" by code_simp
  have names: "[''srv'', ''cam'', ''2026'', ''new.mp4''] = [''srv'', ''cam''] @ virtual_names (path_new ''/2026/new.mp4'')"
    by code_simp
  have f: "lossy_file_name (path_new ''/2026/new.mp4'') = Some ''new.mp4''" by code_simp
  have n: "\<not> is_reolink_test_file ''new.mp4''" "\<not> str_ends_with ''new.mp4'' STAGING_SUFFIX" by code_simp+
  have u: "user_role demo_uploader = Uploader (path_new ''/srv/cam'')" by (simp add: demo_uploader_def)
  have st: "staged demo_fs [''srv'', ''cam'', ''2026'', ''new.mp4''] = []" by code_simp
  have "put toy_age None demo_uploader ([''ab'', ''c''], None) (path_new ''/2026/new.mp4'') 0 demo_fs = (Inr 3, snd demo_put)"
    using r by (simp add: demo_put_def prod_eq_iff)
  from plain_upload_publishes [OF demo_fs_wf u demo_clean f n names _ this] r st show ?thesis
    by (simp add: demo_stg_unaliased STAGING_SUFFIX_def stg_def)
qed

text \<open>
  (C9) When the file system itself does not fail, a plain upload is exactly the abstract upload
  \<open>spec_store\<close> on the map from names to contents: existing names are refused without effect, an
  offset that overlaps or leaves a gap is refused and drops the staged part, an aborted transfer
  drops it too, and a complete one publishes the whole; each with its FTP error.
\<close>

theorem plain_upload_refines_spec:
  assumes "fs_wf fs" and "user_role u = Uploader h" and "clean_jail fs h b"
    and "lossy_file_name (path_new v) = Some f" and "\<not> is_reolink_test_file f" and "ParentDir \<notin> set (path_new v)"
    and "l = b @ virtual_names (path_new v)" and "upload_room fs l" and "faults fs = []"
  shows "(case put age None u input (path_new v) n fs of (r, fs') \<Rightarrow> (r, content fs')) =
    (case spec_store (content fs) l n input of (r, C) \<Rightarrow>
       (case r of Inl e \<Rightarrow> Inl (store_error_to_storage e) | Inr m \<Rightarrow> Inr m, C))"
proof -
  obtain r fs' where run: "store_stream (abs_path l) n input fs = (r, fs')" by fastforce
  from store_stream_ok [OF assms(8,9) run] run show ?thesis
    unfolding put_plain_eq [OF assms(1-6)] assms(7) [symmetric]
    by (auto simp: store_result_def split: prod.splits)
qed

theorem plain_upload_refines_spec_witness:
  "(case put toy_age None demo_uploader ([''xy''], None) (path_new ''/old.mp4'') 0 demo_fs of (r, fs') \<Rightarrow> (r, content fs')) =
     (Inl (KindMsg PermanentFileNotAvailable ''file already finalized (no overwrite)''), content demo_fs)"
proof -
  let ?l = "[''srv'', ''cam'', ''old.mp4'']"
  have names: "?l = [''srv'', ''cam''] @ virtual_names (path_new ''/old.mp4'')" by code_simp
  have f: "lossy_file_name (path_new ''/old.mp4'') = Some ''old.mp4''" by code_simp
  have n: "\<not> is_reolink_test_file ''old.mp4''" "ParentDir \<notin> set (path_new ''/old.mp4'')" by code_simp+
  have u: "user_role demo_uploader = Uploader (path_new ''/srv/cam'')" by (simp add: demo_uploader_def)
  have c: "content demo_fs ?l = Some ''abc''" by code_simp
  have d: "dent_at demo_fs ?l = Some (DFile 0)" "dent_at demo_fs (stg ?l) = None"
    "dent_at demo_fs [''srv''] = Some DDir" "dent_at demo_fs [''srv'', ''cam''] = Some DDir" by code_simp+
  have "dent_at demo_fs k = Some DDir" if "prefix k [''srv'', ''cam'']" for k
    using that d(3,4) by (auto simp: prefix_Cons)
  then have "room_for_dir demo_fs (butlast ?l)" by (simp add: room_for_dir_def)
  with d demo_fs_wf have "upload_room demo_fs ?l"
    by (simp add: upload_room_def unaliased_def)
  from plain_upload_refines_spec [OF demo_fs_wf u demo_clean f n names this, of toy_age "([''xy''], None)" 0] c show ?thesis
    by (simp add: demo_fs_def spec_store_def)
qed

lemma put_encrypted_published:
  assumes "fs_wf fs" and "user_role u = Uploader h" and "clean_jail fs h b"
    and "lossy_file_name (path_new v) = Some f" and "\<not> is_reolink_test_file f"
    and "l = butlast (b @ virtual_names (path_new v)) @ [f @ ''.age'']"
    and "put age (Some rs) u input (path_new v) n fs = (Inr m, fs')"
  shows "n = 0" "snd input = None" "m = length (concat (fst input))" "up_inv fs l fs'"
    "\<exists>e k. with_recipients age rs = Inr e \<and> published fs l (age_ciphertext age e k (fst input)) fs'"
proof -
  have l: "upload_loc (Some rs) b (path_new v) = l"
    using virtual_names_last [OF assms(4)] by (simp add: upload_loc_def Let_def assms(6))
  note run = put_success(3) [OF assms(1-5,7) refl, unfolded l]
  note ok = upload_loc_ok(1) [OF assms(1,3,4), of "Some rs", unfolded l]
  note i = store_encrypted_inv [OF ok conjunct2 [OF run]]
  show "up_inv fs l fs'" by (rule conjunct1 [OF i])
  have r: "snd input = None \<and> m = length (concat (fst input)) \<and> (\<exists>e k. with_recipients age rs = Inr e \<and>
      published fs l (age_ciphertext age e k (fst input)) fs')"
    by (rule conjunct2 [OF i, rule_format]) (rule refl)
  with conjunct1 [OF run] show "n = 0" "snd input = None" "m = length (concat (fst input))"
    "\<exists>e k. with_recipients age rs = Inr e \<and> published fs l (age_ciphertext age e k (fst input)) fs'" by simp_all
qed

text \<open>
  A successful upload with encryption on stores exactly the age ciphertext of the received
  bytes, under the name with \<^verbatim>\<open>.age\<close> appended, which was free before; no other file but the
  staging file has changed, and the staging file, if it is still there, holds ciphertext too.
  An offset other than 0 is never accepted.
\<close>

theorem encrypted_upload_stores_ciphertext:
  assumes "fs_wf fs" and "user_role u = Uploader h" and "clean_jail fs h b"
    and "lossy_file_name (path_new v) = Some f" and "\<not> is_reolink_test_file f"
    and "l = butlast (b @ virtual_names (path_new v)) @ [f @ ''.age'']" and "unaliased fs (stg l)"
    and "put age (Some rs) u input (path_new v) n fs = (Inr m, fs')"
  shows "n = 0 \<and> snd input = None \<and> m = length (concat (fst input)) \<and> dent_at fs l = None \<and>
    (\<exists>e k. with_recipients age rs = Inr e \<and> content fs' l = Some (age_ciphertext age e k (fst input)) \<and>
       content fs' (stg l) \<in> {None, Some (age_ciphertext age e k (fst input))}) \<and>
    (\<forall>k. k \<noteq> l \<longrightarrow> k \<noteq> stg l \<longrightarrow> content fs' k = content fs k)"
proof -
  note p = put_encrypted_published [OF assms(1-6,8)]
  from p(5) obtain e k where e: "with_recipients age rs = Inr e" and
    pub: "published fs l (age_ciphertext age e k (fst input)) fs'" by blast
  from pub have "dent_at fs l = None" by (simp add: published_def)
  with published_content [OF p(4) assms(1) pub assms(7)] e p(1-3) show ?thesis
    by (intro conjI exI [of _ e] exI [of _ k]) simp_all
qed

definition demo_put_enc :: "(storage_error + nat) \<times> fs" where
  "demo_put_enc = put toy_age (Some [''age1x'']) demo_uploader ([''ab'', ''c''], None) (path_new ''/new.mp4'') 0 demo_fs"

theorem encrypted_upload_stores_ciphertext_witness:
  "fst demo_put_enc = Inr 3 \<and> content (snd demo_put_enc) [''srv'', ''cam'', ''new.mp4.age''] = Some ''headabcend'' \<and>
   content (snd demo_put_enc) [''srv'', ''cam'', ''new.mp4''] = None"
proof -
  have r: "fst demo_put_enc = Inr 3" by code_simp
  have names: "[''srv'', ''cam'', ''new.mp4.age''] =
      butlast ([''srv'', ''cam''] @ virtual_names (path_new ''/new.mp4'')) @ [''new.mp4'' @ ''.age'']" by code_simp
  have f: "lossy_file_name (path_new ''/new.mp4'') = Some ''new.mp4''" by code_simp
  have n: "\<not> is_reolink_test_file ''new.mp4''" by code_simp
  have u: "user_role demo_uploader = Uploader (path_new ''/srv/cam'')" by (simp add: demo_uploader_def)
  have c: "content demo_fs [''srv'', ''cam'', ''new.mp4''] = None" by code_simp
  have "put toy_age (Some [''age1x'']) demo_uploader ([''ab'', ''c''], None) (path_new ''/new.mp4'') 0 demo_fs = (Inr 3, snd demo_put_enc)"
    using r by (simp add: demo_put_enc_def prod_eq_iff)
  from encrypted_upload_stores_ciphertext [OF demo_fs_wf u demo_clean f n names _ this] r c
  show ?thesis
    by (auto simp: demo_stg_unaliased STAGING_SUFFIX_def stg_def age_ciphertext_def toy_age_body)
      (auto simp: toy_age_def)
qed

section \<open>Downloads\<close>

text \<open>
  (C29) A download returns the file: when the scope of a viewer (one directory, or several cameras
  of which the path names one) maps a request to names below a base directory that holds no symbolic
  link, and a regular file has these names, then \<^verbatim>\<open>get\<close> yields exactly its bytes from the requested
  offset on (none, if the offset is past the end), and changes nothing.  An offset of \<open>2 ^ 63\<close> or more
  is refused with the system's error for an invalid argument.
\<close>

theorem download_returns_content:
  assumes "fs_wf fs" and "user_role u = Viewer sc" and "scope_target sc (path_new v) = Some (base, names)"
    and "clean_jail fs base b" and "content fs (b @ names) = Some bs" and "faults fs = []"
  shows "if unat n < 2 ^ 63
    then \<exists>f. get u (path_new v) n fs = (Inr f, fs) \<and> read_all fs f = Inr (drop (unat n) bs)
    else get u (path_new v) n fs = (Inl (FromIo (EOther ''Invalid argument (os error 22)'')), fs)"
proof -
  let ?l = "b @ names"
  from assms(5) obtain i where i: "dent_at fs ?l = Some (DFile i)" "bs = bytes_of fs i"
    by (auto simp: content_Some)
  have "lookup fs (abs_path ?l) = Inr (?l, DFile i)"
    using lookup_abs_Inr [OF assms(1) nolinks_clean [OF assms(1,4)]] i(1) by simp
  then have "fs_open_read (abs_path ?l) fs = (Inr (OFile i 0), fs)"
    by (simp add: fs_open_read_def syscall_no_faults [OF assms(6)])
  with resolve_target_clean [OF assms(1,3,4)] assms(2,6) i(2) show ?thesis
    by (auto simp: get_def capability_allowed_def user_view_def fs_seek_def syscall_no_faults read_all_def word_gt_0)
qed

theorem download_returns_content_witness:
  "(\<exists>f. get demo_viewer (path_new ''/old.mp4'') 1 demo_fs = (Inr f, demo_fs) \<and> read_all demo_fs f = Inr ''bc'') \<and>
   (\<exists>f. get (demo_viewer\<lparr>user_role := Viewer (scope_multi [(''cam'', path_new ''/srv/cam'')])\<rparr>)
      (path_new ''/cam/old.mp4'') 0 demo_fs = (Inr f, demo_fs) \<and> read_all demo_fs f = Inr ''abc'') \<and>
   get demo_viewer (path_new ''/old.mp4'') (2 ^ 63) demo_fs =
     (Inl (FromIo (EOther ''Invalid argument (os error 22)'')), demo_fs)"
proof -
  have u: "user_role demo_viewer = Viewer (scope_single (path_new ''/srv/cam''))" by (simp add: demo_viewer_def)
  let ?sc = "scope_multi [(''cam'', path_new ''/srv/cam'')]"
  have m: "user_role (demo_viewer\<lparr>user_role := Viewer ?sc\<rparr>) = Viewer ?sc" by simp
  have t: "scope_target (scope_single (path_new ''/srv/cam'')) (path_new ''/old.mp4'') = Some (path_new ''/srv/cam'', [''old.mp4''])"
    "scope_target ?sc (path_new ''/cam/old.mp4'') = Some (path_new ''/srv/cam'', [''old.mp4''])"
    by code_simp+
  have c: "content demo_fs ([''srv'', ''cam''] @ [''old.mp4'']) = Some ''abc''" by code_simp
  have f: "faults demo_fs = []" by (simp add: demo_fs_def)
  note d = download_returns_content [OF demo_fs_wf u t(1) demo_clean c f]
  show ?thesis using d [of 1] d [of "2 ^ 63"] download_returns_content [OF demo_fs_wf m t(2) demo_clean c f, of 0]
    by simp
qed

section \<open>Listings\<close>

lemma list_loop_ok:
  assumes "faults fs = []" "\<And>x. x \<in> set names \<Longrightarrow> dent_at fs (dir @ [x]) \<noteq> None"
  shows "list_loop dir names es fs =
    (Inr (es @ map (\<lambda>x. (x, Real (meta_of fs (dir @ [x]) (the (dent_at fs (dir @ [x]))))))
       (filter (\<lambda>x. \<not> hidden_name x) names)), fs)"
  using assms(2)
proof (induction names arbitrary: es)
  case Nil
  show ?case by (simp add: fs_next_entry_def syscall_no_faults [OF assms(1)])
next
  case (Cons x names)
  then obtain d where "dent_at fs (dir @ [x]) = Some d" by auto
  with Cons show ?case
    by (simp add: fs_next_entry_def fs_entry_metadata_def syscall_no_faults [OF assms(1)])
qed

text \<open>
  A listing is exact: for a user whose view is a directory without symbolic links, listing a
  directory in it shows every entry once, with its own metadata, except the staging files and the
  quarantine directory, and nothing else.
\<close>

theorem listing_exact:
  assumes "fs_wf fs" and "user_view u = scope_single base" and "is_single_scope (user_view u)"
    and "clean_jail fs base b" and "ParentDir \<notin> set (path_new v)"
    and "l = b @ virtual_names (path_new v)" and "dent_at fs l = Some DDir" and "faults fs = []"
  shows "\<exists>es. list_dir u (path_new v) fs = (Inr es, fs) \<and> distinct (map fst es) \<and>
    set es = {(x, Real (meta_of fs (l @ [x]) d)) | x d. dent_at fs (l @ [x]) = Some d \<and>
      \<not> str_ends_with x STAGING_SUFFIX \<and> x \<noteq> QUARANTINE_DIR}"
proof -
  let ?es = "map (\<lambda>x. (x, Real (meta_of fs (l @ [x]) (the (dent_at fs (l @ [x]))))))
    (filter (\<lambda>x. \<not> hidden_name x) (children fs l))"
  have "lookup fs (abs_path l) = Inr (l, DDir)"
    unfolding assms(6) using lookup_abs_Inr [OF assms(1) nolinks_clean [OF assms(1,4)]] assms(6,7) by simp
  then have rd: "fs_read_dir (abs_path l) fs = (Inr (l, children fs l), fs)"
    by (simp add: fs_read_dir_def syscall_no_faults [OF assms(8)])
  have loop: "list_loop l (children fs l) [] fs = (Inr ?es, fs)"
    using list_loop_ok [OF assms(8), of "children fs l" l "[]"] children_iff [OF assms(1)] by simp
  have "\<not> (case user_role u of Viewer sc \<Rightarrow> is_root (path_new v) \<and> list_root sc \<noteq> [] \<and> \<not> is_single_scope sc
      | Uploader _ \<Rightarrow> False)" and "capability_allowed (user_role u) OpList"
    using assms(3) by (auto simp: user_view_def capability_allowed_def split: role.splits)
  with resolve_single_clean [OF assms(1,4), of v] assms(2,5,6) rd loop
  have eq: "list_dir u (path_new v) fs = (Inr ?es, fs)" by (simp add: list_dir_def)
  have "set ?es = {(x, Real (meta_of fs (l @ [x]) d)) | x d. dent_at fs (l @ [x]) = Some d \<and>
      \<not> str_ends_with x STAGING_SUFFIX \<and> x \<noteq> QUARANTINE_DIR}"
    using children_iff [OF assms(1), of _ l] by (auto simp: hidden_name_iff)
  moreover have "distinct (map fst ?es)"
    using children_distinct [OF assms(1), of l] by (simp add: comp_def)
  ultimately show ?thesis using eq by blast
qed

theorem listing_exact_witness:
  "\<exists>es. list_dir demo_uploader (path_new ''/'') demo_fs = (Inr es, demo_fs) \<and>
     set es = {(x, Real (meta_of demo_fs ([''srv'', ''cam''] @ [x]) d)) | x d.
       dent_at demo_fs ([''srv'', ''cam''] @ [x]) = Some d \<and> \<not> str_ends_with x STAGING_SUFFIX \<and> x \<noteq> QUARANTINE_DIR}"
proof -
  have u: "user_view demo_uploader = scope_single (path_new ''/srv/cam'')"
    by (simp add: user_view_def demo_uploader_def)
  have s: "is_single_scope (user_view demo_uploader)" by code_simp
  have n: "ParentDir \<notin> set (path_new ''/'')" by code_simp
  have l: "[''srv'', ''cam''] = [''srv'', ''cam''] @ virtual_names (path_new ''/'')" by code_simp
  have d: "dent_at demo_fs [''srv'', ''cam''] = Some DDir" by code_simp
  have "faults demo_fs = []" by (simp add: demo_fs_def)
  from listing_exact [OF demo_fs_wf u s demo_clean n l d this] show ?thesis by blast
qed

section \<open>Connection tests and the daemon's own names\<close>

lemma content_evolves:
  assumes "evolves R N I fs fs'" "k \<notin> R" "\<And>i. dent_at fs k = Some (DFile i) \<Longrightarrow> i \<notin> I"
    and "\<And>i. dent_at fs' k = Some (DFile i) \<Longrightarrow> dent_at fs k \<noteq> None"
  shows "content fs' k = content fs k"
proof (cases "dent_at fs k")
  case None
  with assms(4) show ?thesis by (auto simp: content_def split: option.splits dent.splits)
next
  case (Some d)
  with assms(2) have "dent_at fs' k = Some d" by (intro evolves_kept [OF assms(1)]) auto
  with Some assms(3) evolves_bytes [OF assms(1)] show ?thesis
    by (auto simp: content_def split: dent.splits)
qed

text \<open>
  (C30) A successful upload of a connection test, with encryption on as well as off, stores the
  received bytes as they are in the quarantine directory of the home, replacing an earlier one of
  that name, and changes no other file.
\<close>

theorem connection_test_quarantined:
  assumes "fs_wf fs" and "user_role u = Uploader h" and "clean_jail fs h b"
    and "lossy_file_name (path_new v) = Some f" and "is_reolink_test_file f"
    and "dest = b @ [QUARANTINE_DIR, f]" and "unaliased fs dest"
    and "put age recips u input (path_new v) n fs = (Inr m, fs')"
  shows "content fs' dest = Some (concat (fst input)) \<and> (\<forall>k. k \<noteq> dest \<longrightarrow> content fs' k = content fs k)"
proof -
  from assms(2,4,5,8) have run: "put_quarantine h f input fs = (Inr m, fs')"
    by (simp add: put_def capability_allowed_def)
  note q = put_quarantine_frame [OF assms(1,3) file_name_plain [OF assms(4)] run, folded assms(6)]
  from q obtain i where i: "dent_at fs' dest = Some (DFile i)" "bytes_of fs' i = concat (fst input)" by auto
  have "content fs' k = content fs k" if k: "k \<noteq> dest" for k
  proof (rule content_evolves)
    show "evolves {} (insert dest (dirs_to (b @ [QUARANTINE_DIR])))
      ({i. dent_at fs dest = Some (DFile i)} \<union> {i. next_ino fs \<le> i}) fs fs'" using q by blast
    show "j \<notin> {i. dent_at fs dest = Some (DFile i)} \<union> {i. next_ino fs \<le> i}" if "dent_at fs k = Some (DFile j)" for j
      using fs_wf_inode [OF assms(1) that] that k assms(7) unfolding unaliased_def by fastforce
    show "dent_at fs k \<noteq> None" if reg: "dent_at fs' k = Some (DFile j)" for j
    proof (cases "k \<in> dirs_to (b @ [QUARANTINE_DIR])")
      case True
      then obtain r where "b @ [QUARANTINE_DIR] = k @ r" by (auto simp: prefix_def)
      then have "dest = k @ (r @ [f])" using assms(6) by simp
      with tree_wf_prefix [OF fs_wf_tree, of fs' k "r @ [f]"] q i(1) reg show ?thesis by simp
    next
      case False
      with k q have "dent_at fs' k = dent_at fs k" by (blast intro: evolves_other)
      with reg show ?thesis by simp
    qed
  qed simp
  with i show ?thesis by (simp add: content_def)
qed

definition demo_put_test :: "(storage_error + nat) \<times> fs" where
  "demo_put_test = put toy_age (Some [''age1x'']) demo_uploader ([''secret''], None) (path_new ''/TestFTP.txt'') 0 demo_fs"

theorem connection_test_quarantined_witness:
  "fst demo_put_test = Inr 6 \<and>
   content (snd demo_put_test) [''srv'', ''cam'', ''.quarantine'', ''TestFTP.txt''] = Some ''secret''"
proof -
  have r: "fst demo_put_test = Inr 6" by code_simp
  have f: "lossy_file_name (path_new ''/TestFTP.txt'') = Some ''TestFTP.txt''" by code_simp
  have t: "is_reolink_test_file ''TestFTP.txt''" by code_simp
  have u: "user_role demo_uploader = Uploader (path_new ''/srv/cam'')" by (simp add: demo_uploader_def)
  have d: "[''srv'', ''cam'', ''.quarantine'', ''TestFTP.txt''] = [''srv'', ''cam''] @ [QUARANTINE_DIR, ''TestFTP.txt'']"
    by (simp add: QUARANTINE_DIR_def)
  have "put toy_age (Some [''age1x'']) demo_uploader ([''secret''], None) (path_new ''/TestFTP.txt'') 0 demo_fs =
      (Inr 6, snd demo_put_test)"
    using r by (simp add: demo_put_test_def prod_eq_iff)
  from connection_test_quarantined [OF demo_fs_wf u demo_clean f t d _ this] r show ?thesis
    by (simp add: demo_stg_unaliased)
qed

text \<open>
  The staging suffix is not reserved: a client may finish an upload under a name that ends
  in it, and the next upload to the name without the suffix takes that finished file for its own
  partial transfer.  Here the upload of \<^verbatim>\<open>x.reoftpd-partial\<close> succeeds, then a resumed upload of
  \<^verbatim>\<open>x\<close> succeeds and has consumed it: the first file is gone and its bytes are the beginning of
  the second.
\<close>

definition collide1 :: "(storage_error + nat) \<times> fs" where
  "collide1 = put toy_age None demo_uploader ([''abc''], None) (path_new ''/x.reoftpd-partial'') 0 demo_fs"

definition collide2 :: "(storage_error + nat) \<times> fs" where
  "collide2 = put toy_age None demo_uploader ([''def''], None) (path_new ''/x'') 3 (snd collide1)"

text \<open>
  A finished upload can be undone over FTP if its name ends in the staging suffix: a resumed
  upload to the name without the suffix succeeds and removes it.
\<close>

theorem staging_name_collision:
  "fst collide1 = Inr 3 \<and> content (snd collide1) [''srv'', ''cam'', ''x.reoftpd-partial''] = Some ''abc'' \<and>
   fst collide2 = Inr 3 \<and> content (snd collide2) [''srv'', ''cam'', ''x.reoftpd-partial''] = None \<and>
   content (snd collide2) [''srv'', ''cam'', ''x''] = Some ''abcdef''"
  by (intro conjI; code_simp)

end
