(* ===== verification/Upload_Interleaving.thy ===== *)
theory Upload_Interleaving
  imports File_Transfer
begin

text \<open>
  Uploads that overlap in time.  The daemon serves every session in its own task, so the system
  calls of several \<^verbatim>\<open>store_stream\<close>s interleave.  \<open>pc_step\<close> is one call of \<^verbatim>\<open>store_stream\<close> (the
  \<^verbatim>\<open>await\<close> points are between the calls); \<open>store_stream\<close> of \<open>Store\<close> is this machine run without
  interruption.  \<open>sys_step\<close> interleaves any number of uploads, new ones arriving at any time.
  \<^verbatim>\<open>create_dir_all\<close> is one step here: it only ever adds directories.
\<close>

datatype pc =
  PCheck
| PStat
| PMkdir
| POpen
| PCopy nat nat "bytes list"
| PFlush nat
| PLink nat
| PDrop "store_error + nat"
| PDone "store_error + nat"

fun pc_step :: "path \<Rightarrow> nat \<Rightarrow> reader \<Rightarrow> pc \<Rightarrow> fs \<Rightarrow> pc \<times> fs" where
  "pc_step p s input PCheck fs =
     (case fs_try_exists p fs of
        (Inl e, fs) \<Rightarrow> (PDone (Inl (SIo e)), fs)
      | (Inr True, fs) \<Rightarrow> (PDone (Inl SFinalized), fs)
      | (Inr False, fs) \<Rightarrow> (PStat, fs))"
| "pc_step p s input PStat fs =
     (case fs_metadata (staging_path p) fs of (st, fs) \<Rightarrow>
        (case stat_size st of
           Inl e \<Rightarrow> (PDone (Inl (SIo e)), fs)
         | Inr existing_size \<Rightarrow>
             (case classify_offset s existing_size of
                OffOk \<Rightarrow> (PMkdir, fs)
              | Overlap \<Rightarrow> (PDrop (Inl SOverlap), fs)
              | Gap \<Rightarrow> (PDrop (Inl SGap), fs))))"
| "pc_step p s input PMkdir fs =
     (case (case path_parent (staging_path p) of
              Some parent \<Rightarrow> fs_create_dir_all parent fs
            | None \<Rightarrow> (Inr (), fs)) of
        (Inl e, fs) \<Rightarrow> (PDone (Inl (SIo e)), fs)
      | (Inr _, fs) \<Rightarrow> (POpen, fs))"
| "pc_step p s input POpen fs =
     (case fs_open_write False (staging_path p) fs of
        (Inl e, fs) \<Rightarrow> (PDone (Inl (SIo e)), fs)
      | (Inr i, fs) \<Rightarrow> (PCopy i 0 (fst input), fs))"
| "pc_step p s input (PCopy i n []) fs =
     (case snd input of
        Some e \<Rightarrow> (PDrop (Inl (SIo e)), fs)
      | None \<Rightarrow>
          (case fs_flush fs of
             (Inl e, fs) \<Rightarrow> (PDrop (Inl (SIo e)), fs)
           | (Inr _, fs) \<Rightarrow> (PFlush n, fs)))"
| "pc_step p s input (PCopy i n (c # cs)) fs =
     (case fs_append i c fs of
        (Inl e, fs) \<Rightarrow> (PDrop (Inl (SIo e)), fs)
      | (Inr _, fs) \<Rightarrow> (PCopy i (n + length c) cs, fs))"
| "pc_step p s input (PFlush n) fs =
     (case fs_flush fs of
        (Inl e, fs) \<Rightarrow> (PDone (Inl (SIo e)), fs)
      | (Inr _, fs) \<Rightarrow> (PLink n, fs))"
| "pc_step p s input (PLink n) fs =
     (case fs_hard_link (staging_path p) p fs of
        (Inr _, fs) \<Rightarrow> (PDrop (Inr n), fs)
      | (Inl e, fs) \<Rightarrow> (PDrop (Inl (if e = EAlreadyExists then SFinalized else SIo e)), fs))"
| "pc_step p s input (PDrop r) fs = (PDone r, snd (fs_remove_file (staging_path p) fs))"
| "pc_step p s input (PDone r) fs = (PDone r, fs)"

section \<open>One upload alone\<close>

definition pc_run :: "path \<Rightarrow> nat \<Rightarrow> reader \<Rightarrow> nat \<Rightarrow> pc \<times> fs \<Rightarrow> pc \<times> fs" where
  "pc_run p s input n = ((\<lambda>(pc, fs). pc_step p s input pc fs) ^^ n)"

lemma pc_run_0 [simp]: "pc_run p s input 0 x = x"
  by (simp add: pc_run_def)

lemma pc_run_Suc [simp]: "pc_run p s input (Suc n) (pc, fs) = pc_run p s input n (pc_step p s input pc fs)"
  by (simp add: pc_run_def funpow_swap1)

lemma pc_run_done [simp]: "pc_run p s input n (PDone r, fs) = (PDone r, fs)"
  by (induction n) simp_all

text \<open>The rest of \<^verbatim>\<open>store_stream\<close> from each program point on.\<close>

definition done_of :: "(store_error + nat) \<times> fs \<Rightarrow> pc \<times> fs" where
  "done_of x = (PDone (fst x), snd x)"

lemma done_of_Pair [simp]: "done_of (r, fs) = (PDone r, fs)"
  by (simp add: done_of_def)

lemma run_drop: "0 < n \<Longrightarrow> pc_run p s input n (PDrop r, fs) = done_of (discard (staging_path p) r fs)"
  by (cases n) (simp_all add: discard_def)

lemma run_link:
  assumes "2 \<le> n"
  shows "pc_run p s input n (PLink m, fs) = done_of (finalize_link (staging_path p) p m fs)"
proof -
  obtain k where "n = Suc (Suc k)" using assms by (metis add_2_eq_Suc le_Suc_ex)
  then show ?thesis
    by (cases "fs_hard_link (staging_path p) p fs")
      (auto simp: finalize_link_def discard_def split: sum.splits)
qed

lemma run_flush:
  assumes "3 \<le> n"
  shows "pc_run p s input n (PFlush m, fs) =
     (case fs_flush fs of
        (Inl e, fs) \<Rightarrow> (PDone (Inl (SIo e)), fs)
      | (Inr _, fs) \<Rightarrow> done_of (finalize_link (staging_path p) p m fs))"
proof -
  obtain k where "n = Suc k" "2 \<le> k" using assms by (cases n) auto
  then show ?thesis by (cases "fs_flush fs") (auto simp: run_link split: sum.splits)
qed

lemma run_copy:
  assumes "length cs + 4 \<le> n"
  shows "pc_run p s input n (PCopy i m cs, fs) =
     (case copy_append i cs (snd input) m fs of
        (Inl e, fs) \<Rightarrow> done_of (discard (staging_path p) (Inl (SIo e)) fs)
      | (Inr m, fs) \<Rightarrow>
          (case fs_flush fs of
             (Inl e, fs) \<Rightarrow> (PDone (Inl (SIo e)), fs)
           | (Inr _, fs) \<Rightarrow> done_of (finalize_link (staging_path p) p m fs)))"
  using assms
proof (induction cs arbitrary: n m fs)
  case Nil
  then obtain k where "n = Suc k" "3 \<le> k" by (cases n) auto
  then show ?case
    by (cases "fs_flush fs") (auto simp: run_drop run_flush split: option.splits sum.splits)
next
  case (Cons c cs)
  then obtain k where k: "n = Suc k" "length cs + 4 \<le> k" by (cases n) auto
  with Cons.IH [OF k(2)] show ?case
    by (cases "fs_append i c fs") (auto simp: run_drop split: sum.splits)
qed

lemma store_stream_unfold:
  "store_stream p s input fs =
     (case fs_try_exists p fs of
        (Inl e, fs) \<Rightarrow> (Inl (SIo e), fs)
      | (Inr True, fs) \<Rightarrow> (Inl SFinalized, fs)
      | (Inr False, fs) \<Rightarrow>
          (case stat_size (fst (fs_metadata (staging_path p) fs)) of
             Inl e \<Rightarrow> (Inl (SIo e), snd (fs_metadata (staging_path p) fs))
           | Inr existing_size \<Rightarrow>
               (case classify_offset s existing_size of
                  Overlap \<Rightarrow> discard (staging_path p) (Inl SOverlap) (snd (fs_metadata (staging_path p) fs))
                | Gap \<Rightarrow> discard (staging_path p) (Inl SGap) (snd (fs_metadata (staging_path p) fs))
                | OffOk \<Rightarrow>
                    (case (case path_parent (staging_path p) of
                             Some parent \<Rightarrow> fs_create_dir_all parent (snd (fs_metadata (staging_path p) fs))
                           | None \<Rightarrow> (Inr (), snd (fs_metadata (staging_path p) fs))) of
                       (Inl e, fs) \<Rightarrow> (Inl (SIo e), fs)
                     | (Inr _, fs) \<Rightarrow>
                         (case fs_open_write False (staging_path p) fs of
                            (Inl e, fs) \<Rightarrow> (Inl (SIo e), fs)
                          | (Inr i, fs) \<Rightarrow>
                              (case copy_append i (fst input) (snd input) 0 fs of
                                 (Inl e, fs) \<Rightarrow> discard (staging_path p) (Inl (SIo e)) fs
                               | (Inr n, fs) \<Rightarrow>
                                   (case fs_flush fs of
                                      (Inl e, fs) \<Rightarrow> (Inl (SIo e), fs)
                                    | (Inr _, fs) \<Rightarrow> finalize_link (staging_path p) p n fs)))))))"
  unfolding store_stream_def Let_def stat_size_def by (rule refl)

lemma run_open:
  assumes "length (fst input) + 5 \<le> n"
  shows "pc_run p s input n (POpen, fs) =
     done_of (case fs_open_write False (staging_path p) fs of
        (Inl e, fs) \<Rightarrow> (Inl (SIo e), fs)
      | (Inr i, fs) \<Rightarrow>
          (case copy_append i (fst input) (snd input) 0 fs of
             (Inl e, fs) \<Rightarrow> discard (staging_path p) (Inl (SIo e)) fs
           | (Inr n, fs) \<Rightarrow>
               (case fs_flush fs of
                  (Inl e, fs) \<Rightarrow> (Inl (SIo e), fs)
                | (Inr _, fs) \<Rightarrow> finalize_link (staging_path p) p n fs)))"
proof -
  from assms obtain k where "n = Suc k" "length (fst input) + 4 \<le> k" by (cases n) auto
  then show ?thesis
    by (cases "fs_open_write False (staging_path p) fs")
      (auto simp: run_copy split: sum.splits prod.splits)
qed

lemma run_check:
  assumes "length (fst input) + 8 \<le> m"
  shows "pc_run p s input m (PCheck, fs) = done_of (store_stream p s input fs)"
proof -
  let ?st = "staging_path p"
  obtain r1 fs1 where 1: "fs_try_exists p fs = (r1, fs1)" by fastforce
  obtain st fs2 where 2: "fs_metadata ?st fs1 = (st, fs2)" by fastforce
  obtain r3 fs3 where 3: "(case path_parent ?st of Some parent \<Rightarrow> fs_create_dir_all parent fs2
      | None \<Rightarrow> (Inr (), fs2)) = (r3, fs3)" by fastforce
  from assms obtain k where k: "m = Suc (Suc (Suc k))" "length (fst input) + 5 \<le> k" "0 < k"
    by (auto intro!: that [of "m - 3"])
  note open_run = run_open [OF k(2), of p s]
  have stat: "pc_run p s input (Suc (Suc k)) (PStat, fs1) = done_of (case stat_size st of
        Inl e \<Rightarrow> (Inl (SIo e), fs2)
      | Inr sz \<Rightarrow>
          (case classify_offset s sz of
             Overlap \<Rightarrow> discard ?st (Inl SOverlap) fs2
           | Gap \<Rightarrow> discard ?st (Inl SGap) fs2
           | OffOk \<Rightarrow> (case r3 of Inl e \<Rightarrow> (Inl (SIo e), fs3) | Inr _ \<Rightarrow>
               (case fs_open_write False ?st fs3 of
                  (Inl e, fs) \<Rightarrow> (Inl (SIo e), fs)
                | (Inr i, fs) \<Rightarrow>
                    (case copy_append i (fst input) (snd input) 0 fs of
                       (Inl e, fs) \<Rightarrow> discard ?st (Inl (SIo e)) fs
                     | (Inr n, fs) \<Rightarrow>
                         (case fs_flush fs of
                            (Inl e, fs) \<Rightarrow> (Inl (SIo e), fs)
                          | (Inr _, fs) \<Rightarrow> finalize_link ?st p n fs))))))"
    by (auto simp: 2 3 open_run discard_def split: sum.splits offset_verdict.splits)
  show ?thesis
    unfolding k(1) store_stream_unfold pc_run_Suc [of _ _ _ "Suc (Suc k)"] pc_step.simps 1 2 3 prod.case fst_conv snd_conv
    by (cases r1) (simp_all add: stat del: pc_run_Suc split: bool.splits)
qed

text \<open>
  The step machine is \<^verbatim>\<open>store_stream\<close>: run without interruption it stops, after at most eight
  steps more than there are chunks, with the result and the file system of \<open>store_stream\<close>, for
  every path, offset, input, state and schedule of failures.
\<close>

theorem machine_is_store_stream:
  "pc_run p s input (n + length (fst input) + 8) (PCheck, fs) =
     (case store_stream p s input fs of (r, fs') \<Rightarrow> (PDone r, fs'))"
  by (cases "store_stream p s input fs") (simp add: run_check)

end
