(* ===== verification/Par_Uploads.thy ===== *)
theory Par_Uploads
  imports File_Transfer
begin

text \<open>
  Uploads that overlap in time, whatever the steps of one upload are.  The daemon serves every session
  in a task of its own; \<open>par_step\<close> lets one upload make its next step, or a new one arrive.  Two
  interfaces say what a kind of upload promises: \<open>par_uploads\<close> (a step stays within the names of its
  upload, and an upload wins by binding its name) gives that names are permanent and that at most one
  upload of a name wins; \<open>apart_uploads\<close> (progress that depends on the upload's own two names only)
  gives that uploads to different names do not disturb each other.  Plain and encrypted uploads
  provide both.
\<close>

record 'u par =
  uploads :: "'u list"
  disk :: fs

inductive par_step :: "('u \<Rightarrow> fs \<Rightarrow> 'u \<times> fs) \<Rightarrow> (fs \<Rightarrow> 'u \<Rightarrow> bool) \<Rightarrow> 'u par \<Rightarrow> 'u par \<Rightarrow> bool"
  for move new where
  run: "j < length (uploads s) \<Longrightarrow> move (uploads s ! j) (disk s) = (u', fs') \<Longrightarrow>
    par_step move new s (s\<lparr>uploads := (uploads s)[j := u'], disk := fs'\<rparr>)"
| arrive: "new (disk s) u \<Longrightarrow> par_step move new s (s\<lparr>uploads := uploads s @ [u]\<rparr>)"

section \<open>What a step of an upload touches\<close>

definition up_frame :: "loc \<Rightarrow> nat set \<Rightarrow> fs \<Rightarrow> fs \<Rightarrow> bool" where
  "up_frame l I fs fs' \<longleftrightarrow>
     fs_wf fs' \<and> evolves {stg l} (upload_ents l) I fs fs' \<and>
     (\<forall>k i. dent_at fs' k = Some (DFile i) \<longrightarrow> dent_at fs k = Some (DFile i) \<or> k = l \<or> k = stg l)"

lemma up_frame_elims:
  assumes "up_frame l I fs fs'"
  shows "fs_wf fs'" "evolves {stg l} (upload_ents l) I fs fs'"
    "dent_at fs' k = Some (DFile i) \<Longrightarrow> dent_at fs k = Some (DFile i) \<or> k = l \<or> k = stg l"
  using assms by (simp_all add: up_frame_def)

lemma up_frame_faults [simp]: "fs_wf fs \<Longrightarrow> up_frame l I fs (fs\<lparr>faults := fl\<rparr>)"
  by (simp add: up_frame_def)

lemma up_frame_draws [simp]: "up_frame l I fs (fs'\<lparr>draws := n\<rparr>) = up_frame l I fs fs'"
  by (simp add: up_frame_def)

lemma up_frame_refl [simp]: "fs_wf fs \<Longrightarrow> up_frame l I fs fs"
  by (simp add: up_frame_def)

lemma up_frame_mono: "up_frame l I fs fs' \<Longrightarrow> I \<subseteq> J \<Longrightarrow> up_frame l J fs fs'"
  unfolding up_frame_def using evolves_mono by blast

lemma upload_ok_frame: "up_frame l I fs fs' \<Longrightarrow> upload_ok fs m \<Longrightarrow> upload_ok fs' m"
  using up_frame_elims(1,2) [of l I fs fs'] unfolding upload_ok_def by (blast intro: nolinks_evolves)

lemma frame_mkdirs:
  assumes "upload_ok fs l" "fs_create_dir_all (abs_path (butlast l)) fs = (r, fs')"
  shows "up_frame l I fs fs' \<and> bytes_of fs' = bytes_of fs"
proof -
  from up_mkdirs [OF up_inv_refl [OF assms(1)] assms(2)]
  have ev: "evolves {} (dirs_to (butlast l)) {} fs fs'" and wf: "fs_wf fs'"
    by (simp_all add: up_inv_def upload_ok_def)
  from ev have "evolves {stg l} (upload_ents l) I fs fs'"
    by (rule evolves_mono) (auto simp: upload_ents_def)
  with wf evolves_bytes [OF ev] evolves_file [OF ev] show ?thesis by (auto simp: up_frame_def)
qed

lemma frame_open:
  assumes "upload_ok fs l" "fs_open_write tr (abs_path (stg l)) fs = (r, fs')"
  shows "up_frame l (upload_inodes fs l) fs fs' \<and> (\<forall>i. r = Inr i \<longrightarrow>
    dent_at fs' (stg l) = Some (DFile i) \<and> i < next_ino fs' \<and> bytes_of fs' i = (if tr then [] else staged fs l))"
proof -
  note inv = up_inv_refl [OF assms(1)]
  note e = up_inv_elims [OF inv]
  note f = fs_open_write_frame [OF assms(2) e(1,4) stg_simps(1) up_inv_inodes(1) [OF inv]
      up_inv_inodes(2) [OF inv], of "{}"]
  then have ev: "evolves {} {stg l} (upload_inodes fs l) fs fs'" and wf: "fs_wf fs'" by simp_all
  have files: "dent_at fs k = Some (DFile i) \<or> k = l \<or> k = stg l" if "dent_at fs' k = Some (DFile i)" for k i
    using evolves_other [OF ev, of k] that by auto
  from ev have "evolves {stg l} (upload_ents l) (upload_inodes fs l) fs fs'"
    by (rule evolves_mono) (auto simp: upload_ents_def)
  with wf files have "up_frame l (upload_inodes fs l) fs fs'" by (simp add: up_frame_def)
  with f show ?thesis by (auto simp: staged_def)
qed

lemma frame_link:
  assumes "upload_ok fs l" "fs_hard_link (abs_path (stg l)) (abs_path l) fs = (r, fs')"
  shows "up_frame l (upload_inodes fs l) fs fs' \<and> bytes_of fs' = bytes_of fs \<and>
    (r = Inr () \<longrightarrow> dent_at fs l = None \<and>
      (\<exists>i. dent_at fs (stg l) = Some (DFile i) \<and> dent_at fs' = (dent_at fs)(l \<mapsto> DFile i))) \<and>
    (r \<noteq> Inr () \<longrightarrow> (\<exists>fl. fs' = fs\<lparr>faults := fl\<rparr>))"
proof -
  note inv = up_inv_refl [OF assms(1)]
  note e = up_inv_elims [OF inv]
  note f = fs_hard_link_frame [OF assms(2) e(1,4) stg_simps(1) e(3,2) up_inv_inodes(2) [OF inv], of "{}"]
  then have ev: "evolves {} {l} (upload_inodes fs l) fs fs'" and wf: "fs_wf fs'" by simp_all
  have files: "dent_at fs k = Some (DFile i) \<or> k = l \<or> k = stg l" if "dent_at fs' k = Some (DFile i)" for k i
    using evolves_other [OF ev, of k] that by (cases "k = l") auto
  from f have b: "bytes_of fs' = bytes_of fs" by (simp add: fun_eq_iff bytes_of_def)
  from ev have "evolves {stg l} (upload_ents l) (upload_inodes fs l) fs fs'"
    by (rule evolves_mono) (auto simp: upload_ents_def)
  with wf files have "up_frame l (upload_inodes fs l) fs fs'" by (simp add: up_frame_def)
  with b f show ?thesis by blast
qed

lemma frame_remove:
  assumes "upload_ok fs l" "fs_remove_file (abs_path (stg l)) fs = (r, fs')"
  shows "up_frame l I fs fs' \<and> bytes_of fs' = bytes_of fs"
proof -
  note e = up_inv_elims [OF up_inv_refl [OF assms(1)]]
  note f = fs_remove_file_frame [OF assms(2) e(1,4) stg_simps(1), of "{}" "{}"]
  then have ev: "evolves {stg l} {} {} fs fs'" and wf: "fs_wf fs'" by simp_all
  have b: "bytes_of fs' = bytes_of fs" using evolves_bytes [OF ev] by (simp add: fun_eq_iff)
  from ev have "evolves {stg l} (upload_ents l) I fs fs'" by (rule evolves_mono) auto
  with wf b evolves_file [OF ev] show ?thesis by (simp add: up_frame_def)
qed

section \<open>What a step leaves of the contents\<close>

lemma staged_content: "staged fs l = (case content fs (stg l) of Some b \<Rightarrow> b | None \<Rightarrow> [])"
  by (auto simp: staged_def content_def split: option.splits dent.splits)

lemma content_same:
  "dent_at fs' k = dent_at fs k \<Longrightarrow> bytes_of fs' = bytes_of fs \<Longrightarrow> content fs' k = content fs k"
  by (auto simp: content_def split: option.splits dent.splits)

lemma mkdirs_content:
  assumes "upload_ok fs l" "fs_create_dir_all (abs_path (butlast l)) fs = (r, fs')"
  shows "content fs' = content fs"
  using up_mkdirs [OF up_inv_refl [OF assms(1)] assms(2)] content_mkdirs by blast

lemma remove_keeps_final:
  assumes "upload_ok fs l" "fs_remove_file (abs_path (stg l)) fs = (r, fs')"
  shows "content fs' l = content fs l"
proof -
  from up_remove [OF up_inv_refl [OF assms(1)] assms(2)] have ev: "evolves {stg l} {} {} fs fs'" by blast
  from assms(1) have "dent_at fs' l = dent_at fs l" by (intro evolves_other [OF ev]) (auto simp: upload_ok_def)
  then show ?thesis using conjunct2 [OF frame_remove [OF assms]] by (rule content_same)
qed

text \<open>While the final name leads to no file, work on the staging file does not show there.\<close>

lemma open_keeps_absent:
  assumes "upload_ok fs l" "fs_open_write tr (abs_path (stg l)) fs = (r, fs')" "content fs l = None"
  shows "content fs' l = None"
proof -
  note e = up_inv_elims [OF up_inv_refl [OF assms(1)]]
  have "evolves {} {stg l} UNIV fs fs'" using fs_open_write_frame [OF assms(2) e(1,4) stg_simps(1)] by simp
  then have "dent_at fs' l = dent_at fs l" using stg_neq(2) [OF e(2)] by (intro evolves_other) auto
  with assms(3) show ?thesis by (auto simp: content_def split: option.splits dent.splits)
qed

lemma dents_keep_absent: "dent_at fs' = dent_at fs \<Longrightarrow> content fs l = None \<Longrightarrow> content fs' l = None"
  by (auto simp: content_def split: option.splits dent.splits)

section \<open>Pairs of names\<close>

text \<open>Two names of one file are a final name and its staging name.\<close>

definition paired :: "fs \<Rightarrow> bool" where
  "paired fs \<longleftrightarrow> (\<forall>k k' i. dent_at fs k = Some (DFile i) \<longrightarrow> dent_at fs k' = Some (DFile i) \<longrightarrow>
     k = k' \<or> \<not> scratch k \<and> k' = stg k \<or> \<not> scratch k' \<and> k = stg k')"

lemma paired_add:
  assumes "paired fs" and "\<And>k j. dent_at fs' k = Some (DFile j) \<Longrightarrow> dent_at fs k = Some (DFile j) \<or> k = x \<and> j = i"
    and "\<And>k. dent_at fs k = Some (DFile i) \<Longrightarrow> k = x \<or> \<not> scratch k \<and> x = stg k \<or> \<not> scratch x \<and> k = stg x"
  shows "paired fs'"
  unfolding paired_def
proof (intro allI impI)
  fix k k' j
  assume a: "dent_at fs' k = Some (DFile j)" "dent_at fs' k' = Some (DFile j)"
  from assms(2) [OF a(1)] assms(2) [OF a(2)]
  consider "dent_at fs k = Some (DFile j)" "dent_at fs k' = Some (DFile j)" | "k = x" "j = i" "dent_at fs k' = Some (DFile i)"
    | "k' = x" "j = i" "dent_at fs k = Some (DFile i)" | "k = x" "k' = x" by blast
  then show "k = k' \<or> \<not> scratch k \<and> k' = stg k \<or> \<not> scratch k' \<and> k = stg k'"
    using assms(1) [unfolded paired_def] assms(3) by cases blast+
qed

lemma paired_fewer:
  assumes "paired fs" "\<And>k j. dent_at fs' k = Some (DFile j) \<Longrightarrow> dent_at fs k = Some (DFile j)"
  shows "paired fs'"
  using assms unfolding paired_def by blast

lemma paired_data [simp]:
  "paired (fs\<lparr>faults := fl\<rparr>) = paired fs" "paired (put_inode i bs fs) = paired fs"
  "paired (fs\<lparr>draws := n\<rparr>) = paired fs"
  by (simp_all add: paired_def)

lemma paired_open:
  assumes ok: "upload_ok fs l" and "paired fs" "fs_open_write tr (abs_path (stg l)) fs = (r, fs')"
  shows "paired fs'"
proof -
  note e = up_inv_elims [OF up_inv_refl [OF ok]]
  let ?I = "insert (next_ino fs) {i. dent_at fs (stg l) = Some (DFile i)}"
  from fs_open_write_frame [OF assms(3) e(1,4) stg_simps(1), of ?I "{}"]
  have ev: "evolves {} {stg l} ?I fs fs'" by simp
  show ?thesis
  proof (rule paired_add [OF assms(2), of _ "stg l" "next_ino fs"])
    show "dent_at fs k = Some (DFile j) \<or> k = stg l \<and> j = next_ino fs" if "dent_at fs' k = Some (DFile j)" for k j
      using evolves_file [OF ev that] evolves_other [OF ev, of k] that by (cases "k = stg l") auto
  qed (use fs_wf_inode [OF e(1)] in fastforce)
qed

lemma paired_link:
  assumes ok: "upload_ok fs l" and "paired fs" "\<not> scratch l"
    and "fs_hard_link (abs_path (stg l)) (abs_path l) fs = (r, fs')"
  shows "paired fs'"
proof (cases "r = Inr ()")
  case True
  with frame_link [OF ok assms(4)] obtain i where
    i: "dent_at fs (stg l) = Some (DFile i)" "dent_at fs' = (dent_at fs)(l \<mapsto> DFile i)" by blast
  show ?thesis
  proof (rule paired_add [OF assms(2), of _ l i])
    show "k = l \<or> \<not> scratch k \<and> l = stg k \<or> \<not> scratch l \<and> k = stg l" if "dent_at fs k = Some (DFile i)" for k
    proof -
      from assms(2) i(1) that have "stg l = k \<or> \<not> scratch k \<and> stg l = stg k"
        unfolding paired_def using scratch_stg by blast
      with stg_inj [of l k] ok assms(3) that show ?thesis by (cases "k = []") (auto simp: upload_ok_def)
    qed
  qed (use i in \<open>auto split: if_splits\<close>)
next
  case False
  with frame_link [OF ok assms(4)] assms(2) show ?thesis by auto
qed

lemma paired_mkdirs:
  assumes "upload_ok fs l" "paired fs" "fs_create_dir_all (abs_path (butlast l)) fs = (r, fs')"
  shows "paired fs'"
  using up_mkdirs [OF up_inv_refl [OF assms(1)] assms(3)] assms(2) by (blast intro: paired_fewer dest: evolves_file)

lemma paired_remove:
  assumes "upload_ok fs l" "paired fs" "fs_remove_file (abs_path (stg l)) fs = (r, fs')"
  shows "paired fs'"
  using up_remove [OF up_inv_refl [OF assms(1)] assms(3)] assms(2) by (blast intro: paired_fewer dest: evolves_file)

lemma paired_dents: "dent_at fs' = dent_at fs \<Longrightarrow> paired fs' = paired fs"
  by (simp add: paired_def)

lemmas paired_calls = paired_mkdirs paired_open paired_link paired_remove

text \<open>A step of an upload to \<open>m\<close> leaves the two names of \<open>l\<close> and their bytes alone.\<close>

lemma foreign_file:
  assumes frame: "up_frame m (upload_inodes fs m) fs fs'" and "fs_wf fs" "paired fs"
    and neq: "l \<noteq> m" "l \<noteq> []" "m \<noteq> []" "\<not> scratch l" "\<not> scratch m" and k: "k = l \<or> k = stg l"
    and f: "dent_at fs k = Some (DFile i)"
  shows "dent_at fs' k = Some (DFile i) \<and> bytes_of fs' i = bytes_of fs i"
proof -
  from neq k have "k \<noteq> stg m" "k \<noteq> m" by (auto simp: stg_inj)
  then have "dent_at fs' k = Some (DFile i)" using evolves_kept [OF up_frame_elims(2) [OF frame] f] by simp
  moreover have "dent_at fs (stg m) \<noteq> Some (DFile i)"
  proof
    assume "dent_at fs (stg m) = Some (DFile i)"
    with f assms(3) have "k = stg m \<or> \<not> scratch k \<and> stg m = stg k"
      unfolding paired_def using scratch_stg by blast
    with k neq show False by (auto simp: stg_inj)
  qed
  ultimately show ?thesis
    using evolves_bytes [OF up_frame_elims(2) [OF frame]] fs_wf_inode [OF assms(2) f]
    by (simp add: upload_inodes_def)
qed

lemma foreign_same:
  assumes "up_frame m (upload_inodes fs m) fs fs'" "fs_wf fs" "paired fs"
    and "l \<noteq> m" "l \<noteq> []" "m \<noteq> []" "\<not> scratch l" "\<not> scratch m" and "k = l \<or> k = stg l"
  shows "same_file fs fs' k"
proof (rule same_fileI)
  show "dent_at fs k = Some (DFile i)" if "dent_at fs' k = Some (DFile i)" for i
    using up_frame_elims(3) [OF assms(1) that] assms(4-9) by (auto simp: stg_inj)
  show "dent_at fs' k = Some DDir" if "dent_at fs k = Some DDir"
    using evolves_dir [OF up_frame_elims(2) [OF assms(1)] that] .
qed (use foreign_file [OF assms] in blast)

section \<open>One winner\<close>

locale par_uploads =
  fixes move :: "'u \<Rightarrow> fs \<Rightarrow> 'u \<times> fs"
    and new :: "fs \<Rightarrow> 'u \<Rightarrow> bool"
    and ok :: "fs \<Rightarrow> 'u \<Rightarrow> bool"
    and at :: "'u \<Rightarrow> loc"
    and won :: "'u \<Rightarrow> bool"
  assumes move_frame: "ok fs u \<Longrightarrow> move u fs = (u', fs') \<Longrightarrow> at u' = at u \<and> ok fs' u' \<and> (\<exists>I. up_frame (at u) I fs fs')"
    and ok_frame: "ok fs v \<Longrightarrow> up_frame l I fs fs' \<Longrightarrow> ok fs' v"
    and ok_upload: "ok fs u \<Longrightarrow> upload_ok fs (at u)"
    and new_ok: "new fs u \<Longrightarrow> ok fs u \<and> \<not> won u"
    and wins: "ok fs u \<Longrightarrow> move u fs = (u', fs') \<Longrightarrow> won u' \<Longrightarrow> \<not> won u \<Longrightarrow>
      dent_at fs (at u) = None \<and> dent_at fs' (at u) \<noteq> None"
begin

definition all_ok :: "'u par \<Rightarrow> bool" where
  "all_ok s \<longleftrightarrow> fs_wf (disk s) \<and> list_all (ok (disk s)) (uploads s)"

lemma all_ok_start [simp]: "fs_wf fs \<Longrightarrow> all_ok \<lparr>uploads = [], disk = fs\<rparr>"
  by (simp add: all_ok_def)

text \<open>One step of the system, from the point of view of the upload that moves.\<close>

lemma step_cases:
  assumes "par_step move new s s'" "all_ok s"
  obtains (run) j u u' I where "j < length (uploads s)" "u = uploads s ! j" "u \<in> set (uploads s)"
      "ok (disk s) u" "move u (disk s) = (u', disk s')" "uploads s' = (uploads s)[j := u']"
      "up_frame (at u) I (disk s) (disk s')" "at u' = at u" "ok (disk s') u'"
  | (arrive) u where "disk s' = disk s" "uploads s' = uploads s @ [u]" "new (disk s) u" "ok (disk s) u"
  using assms(1)
proof cases
  case step: (run j u' fs')
  let ?u = "uploads s ! j"
  from step(2) have "?u \<in> set (uploads s)" by simp
  moreover from this assms(2) have "ok (disk s) ?u" by (simp add: all_ok_def list_all_iff)
  moreover from move_frame [OF this step(3)] obtain I where
    "at u' = at ?u" "ok fs' u'" "up_frame (at ?u) I (disk s) fs'" by blast
  ultimately show ?thesis using step by (intro run [of j ?u u' I]) simp_all
next
  case new: (arrive u)
  then show ?thesis using new_ok [of "disk s" u] by (intro arrive [of u]) simp_all
qed

lemma all_ok_step:
  assumes "par_step move new s s'" "all_ok s"
  shows "all_ok s'"
  using assms
proof (cases rule: step_cases)
  case (run j u u' I)
  have "ok (disk s') v" if "v \<in> set (uploads s')" for v
  proof -
    from that run(6) consider "v = u'" | "v \<in> set (uploads s)" using set_update_subset_insert by fastforce
    then show ?thesis
      using assms(2) run(9) ok_frame [OF _ run(7)] by cases (auto simp: all_ok_def list_all_iff)
  qed
  with up_frame_elims(1) [OF run(7)] show ?thesis by (simp add: all_ok_def list_all_iff)
next
  case (arrive u)
  with assms(2) show ?thesis by (simp add: all_ok_def)
qed

lemma all_ok_reach: "(par_step move new)\<^sup>*\<^sup>* s s' \<Longrightarrow> all_ok s \<Longrightarrow> all_ok s'"
  by (induction rule: rtranclp_induct) (auto intro: all_ok_step)

lemma names_stay_step:
  assumes "par_step move new s s'" "all_ok s" "\<not> scratch k" "dent_at (disk s) k = Some d"
  shows "dent_at (disk s') k = Some d"
  using assms(1,2)
proof (cases rule: step_cases)
  case (run j u u' I)
  have "k \<noteq> stg (at u)" using assms(3) by auto
  with evolves_kept [OF up_frame_elims(2) [OF run(7)] assms(4)] show ?thesis by simp
qed (use assms(4) in simp)

lemma names_stay:
  assumes "(par_step move new)\<^sup>*\<^sup>* s s'" "all_ok s" "\<not> scratch k" "dent_at (disk s) k = Some d"
  shows "dent_at (disk s') k = Some d"
  using assms
proof (induction rule: rtranclp_induct)
  case (step t t')
  then show ?case by (blast intro: names_stay_step all_ok_reach)
qed simp

definition single_winner :: "'u par \<Rightarrow> bool" where
  "single_winner s \<longleftrightarrow>
     (\<forall>j k. j < length (uploads s) \<longrightarrow> k < length (uploads s) \<longrightarrow>
        won (uploads s ! j) \<longrightarrow> won (uploads s ! k) \<longrightarrow>
        at (uploads s ! j) = at (uploads s ! k) \<longrightarrow> \<not> scratch (at (uploads s ! j)) \<longrightarrow> j = k) \<and>
     (\<forall>u \<in> set (uploads s). won u \<longrightarrow> \<not> scratch (at u) \<longrightarrow> dent_at (disk s) (at u) \<noteq> None)"

lemma single_winner_step:
  assumes "par_step move new s s'" "all_ok s" "single_winner s"
  shows "single_winner s'"
  using assms(1,2)
proof (cases rule: step_cases)
  case (run j u u' I)
  from assms(3) have uniq: "\<And>a b. a < length (uploads s) \<Longrightarrow> b < length (uploads s) \<Longrightarrow>
      won (uploads s ! a) \<Longrightarrow> won (uploads s ! b) \<Longrightarrow>
      at (uploads s ! a) = at (uploads s ! b) \<Longrightarrow> \<not> scratch (at (uploads s ! a)) \<Longrightarrow> a = b"
    and bound: "\<And>a. a < length (uploads s) \<Longrightarrow> won (uploads s ! a) \<Longrightarrow>
      \<not> scratch (at (uploads s ! a)) \<Longrightarrow> dent_at (disk s) (at (uploads s ! a)) \<noteq> None"
    unfolding single_winner_def by (blast, simp)
  have stays: "dent_at (disk s') k \<noteq> None" if "dent_at (disk s) k \<noteq> None" "\<not> scratch k" for k
    using names_stay_step [OF assms(1,2) that(2)] that(1) by auto
  have len: "length (uploads s') = length (uploads s)" by (simp add: run(6))
  have loc: "at (uploads s' ! a) = at (uploads s ! a)" for a
    using run(1,2,8) by (cases "a = j") (simp_all add: run(6))
  have wins: "won (uploads s' ! a) \<Longrightarrow> \<not> won (uploads s ! a) \<Longrightarrow>
      a = j \<and> dent_at (disk s) (at (uploads s ! a)) = None \<and> dent_at (disk s') (at (uploads s ! a)) \<noteq> None" for a
    using run(1,2) wins [OF run(4,5)] by (cases "a = j") (simp_all add: run(6))
  have "a = b" if "a < length (uploads s)" "b < length (uploads s)" "won (uploads s' ! a)"
      "won (uploads s' ! b)" "at (uploads s ! a) = at (uploads s ! b)"
      "\<not> scratch (at (uploads s ! a))" for a b
    using that uniq [of a b] wins [of a] wins [of b] bound [of a] bound [of b] by metis
  moreover have "dent_at (disk s') (at (uploads s ! a)) \<noteq> None"
    if "a < length (uploads s)" "won (uploads s' ! a)" "\<not> scratch (at (uploads s ! a))" for a
    using that wins [of a] bound [of a] stays by metis
  ultimately show ?thesis unfolding single_winner_def all_set_conv_all_nth len loc by blast
next
  case (arrive u)
  with assms(3) new_ok [OF arrive(3)] show ?thesis by (auto simp: single_winner_def nth_append)
qed

lemma one_wins:
  assumes "(par_step move new)\<^sup>*\<^sup>* \<lparr>uploads = [], disk = fs\<rparr> s" "fs_wf fs" "\<not> scratch l"
  shows "length (filter (\<lambda>u. at u = l \<and> won u) (uploads s)) \<le> 1"
proof -
  from assms(1) have "all_ok s \<and> single_winner s"
    by (induction rule: rtranclp_induct)
      (auto simp: assms(2) single_winner_def [of "\<lparr>uploads = [], disk = fs\<rparr>"] intro: all_ok_step single_winner_step)
  then have "\<forall>j \<in> {i. i < length (uploads s) \<and> at (uploads s ! i) = l \<and> won (uploads s ! i)}.
      \<forall>k \<in> {i. i < length (uploads s) \<and> at (uploads s ! i) = l \<and> won (uploads s ! i)}. j = k"
    using assms(3) by (auto simp: single_winner_def)
  then show ?thesis by (simp add: length_filter_conv_card card_le_Suc0_iff_eq)
qed

end

section \<open>Different names\<close>

text \<open>
  \<open>prog fs0 u fs\<close> says how far the upload \<open>u\<close> has come, if the system started on \<open>fs0\<close>.  It depends on
  what the two names of the upload hold, and nothing another upload does changes that.
\<close>

locale apart_uploads = par_uploads +
  fixes prog :: "fs \<Rightarrow> 'a \<Rightarrow> fs \<Rightarrow> bool"
  assumes own_frame: "ok fs u \<Longrightarrow> prog fs0 u fs \<Longrightarrow> move u fs = (u', fs') \<Longrightarrow>
      up_frame (at u) (upload_inodes fs (at u)) fs fs'"
    and own_paired: "ok fs u \<Longrightarrow> prog fs0 u fs \<Longrightarrow> \<not> scratch (at u) \<Longrightarrow> paired fs \<Longrightarrow> move u fs = (u', fs') \<Longrightarrow> paired fs'"
    and own_prog: "ok fs u \<Longrightarrow> prog fs0 u fs \<Longrightarrow> move u fs = (u', fs') \<Longrightarrow> prog fs0 u' fs'"
    and foreign_prog: "prog fs0 u fs \<Longrightarrow> same_file fs fs' (at u) \<Longrightarrow> same_file fs fs' (stg (at u)) \<Longrightarrow> prog fs0 u fs'"
    and new_prog: "new fs u \<Longrightarrow> same_file fs0 fs (at u) \<Longrightarrow> same_file fs0 fs (stg (at u)) \<Longrightarrow> prog fs0 u fs"
begin

definition apart :: "'a par \<Rightarrow> bool" where
  "apart s \<longleftrightarrow> distinct (map at (uploads s)) \<and> (\<forall>u \<in> set (uploads s). \<not> scratch (at u))"

definition par_inv :: "fs \<Rightarrow> 'a par \<Rightarrow> bool" where
  "par_inv fs0 s \<longleftrightarrow> all_ok s \<and> paired (disk s) \<and> (\<forall>u \<in> set (uploads s). prog fs0 u (disk s)) \<and>
     (\<forall>l. l \<noteq> [] \<longrightarrow> \<not> scratch l \<longrightarrow> l \<notin> at ` set (uploads s) \<longrightarrow>
        same_file fs0 (disk s) l \<and> same_file fs0 (disk s) (stg l))"

lemma par_invD:
  assumes "par_inv fs0 s"
  shows "all_ok s" "fs_wf (disk s)" "paired (disk s)" "u \<in> set (uploads s) \<Longrightarrow> prog fs0 u (disk s)"
    "l \<noteq> [] \<Longrightarrow> \<not> scratch l \<Longrightarrow> l \<notin> at ` set (uploads s) \<Longrightarrow>
       same_file fs0 (disk s) l \<and> same_file fs0 (disk s) (stg l)"
  using assms by (simp_all add: par_inv_def all_ok_def)

lemma moved:
  assumes "apart s" "j < length (uploads s)" "u = uploads s ! j" "at u' = at u"
  shows "map at ((uploads s)[j := u']) = map at (uploads s)"
    and "v \<in> set ((uploads s)[j := u']) \<longleftrightarrow> v = u' \<or> v \<in> set (uploads s) \<and> at v \<noteq> at u"
proof -
  show "map at ((uploads s)[j := u']) = map at (uploads s)"
    using assms(2-4) by (simp add: map_update list_update_same_conv)
  from assms(1) have inj: "inj_on at (set (uploads s))" "distinct (uploads s)"
    by (simp_all add: apart_def distinct_map)
  have "set ((uploads s)[j := u']) = insert u' (set (uploads s) - {u})"
    using set_update_distinct [OF inj(2) assms(2)] assms(3) by simp
  moreover have "w = u" if "w \<in> set (uploads s)" "at w = at u" for w
    using that inj(1) assms(2,3) by (auto dest: inj_onD)
  ultimately show "v \<in> set ((uploads s)[j := u']) \<longleftrightarrow> v = u' \<or> v \<in> set (uploads s) \<and> at v \<noteq> at u" by auto
qed

lemma apart_locs: "apart s \<longleftrightarrow> distinct (map at (uploads s)) \<and> (\<forall>l \<in> set (map at (uploads s)). \<not> scratch l)"
  by (simp add: apart_def)

lemma apart_step:
  assumes "par_step move new s s'" "all_ok s" "apart s'"
  shows "apart s"
  using assms(1,2)
proof (cases rule: step_cases)
  case (run j u u' I)
  then have "map at (uploads s') = map at (uploads s)" by (simp add: map_update list_update_same_conv)
  with assms(3) show ?thesis unfolding apart_locs by simp
next
  case (arrive u)
  with assms(3) show ?thesis by (simp add: apart_def)
qed

lemma par_inv_step:
  assumes "par_step move new s s'" "par_inv fs0 s" "apart s'"
  shows "par_inv fs0 s'"
proof -
  note inv = par_invD [OF assms(2)]
  have ap: "apart s" using assms(1) inv(1) assms(3) by (rule apart_step)
  have ok': "all_ok s'" using assms(1) inv(1) by (rule all_ok_step)
  from assms(1) inv(1) show ?thesis
  proof (cases rule: step_cases)
    case (run j u u' I)
    let ?m = "at u"
    have m: "\<not> scratch ?m" "?m \<noteq> []"
      using ap run(3) ok_upload [OF run(4)] by (auto simp: apart_def upload_ok_def)
    note frame = own_frame [OF run(4) inv(4) [OF run(3)] run(5)]
    note foreign = foreign_same [OF frame inv(2,3) _ _ m(2) _ m(1)]
    note sets = moved [OF ap run(1,2,8), folded run(6)]
    have "prog fs0 v (disk s')" if "v \<in> set (uploads s')" for v
      using that unfolding sets(2)
    proof
      assume v: "v \<in> set (uploads s) \<and> at v \<noteq> ?m"
      with ap inv(1) ok_upload have "\<not> scratch (at v)" "at v \<noteq> []"
        by (auto simp: apart_def all_ok_def list_all_iff upload_ok_def)
      with v foreign [of "at v"] show ?thesis by (intro foreign_prog [OF inv(4)]) auto
    qed (use own_prog [OF run(4) inv(4) [OF run(3)] run(5)] in simp)
    moreover have "same_file fs0 (disk s') l \<and> same_file fs0 (disk s') (stg l)"
      if l: "l \<noteq> []" "\<not> scratch l" "l \<notin> at ` set (uploads s')" for l
    proof -
      from l(3) sets(1) have "l \<notin> at ` set (uploads s)" by (metis set_map)
      moreover from this run(3) have "l \<noteq> ?m" by auto
      ultimately show ?thesis
        using inv(5) [OF l(1,2)] foreign [of l l] foreign [of l "stg l"] l(1,2) by (blast intro: same_file_trans)
    qed
    ultimately show ?thesis
      using ok' own_paired [OF run(4) inv(4) [OF run(3)] m(1) inv(3) run(5)] by (simp add: par_inv_def)
  next
    case (arrive u)
    with assms(3) have u: "at u \<notin> at ` set (uploads s)" "\<not> scratch (at u)" by (auto simp: apart_def)
    moreover have "at u \<noteq> []" using ok_upload [OF arrive(4)] by (simp add: upload_ok_def)
    ultimately have "prog fs0 u (disk s)" using new_prog [OF arrive(3)] inv(5) by simp
    with arrive inv ok' show ?thesis by (auto simp: par_inv_def)
  qed
qed

lemma par_inv_reach:
  assumes "(par_step move new)\<^sup>*\<^sup>* \<lparr>uploads = [], disk = fs\<rparr> s" "fs_wf fs" "paired fs"
    and "distinct (map at (uploads s))" "\<forall>u \<in> set (uploads s). \<not> scratch (at u)"
  shows "par_inv fs s"
proof -
  have "apart s" using assms(4,5) by (simp add: apart_def)
  with assms(1) have "par_inv fs s \<and> all_ok s"
  proof (induction rule: rtranclp_induct)
    case base
    with assms(2,3) show ?case by (simp add: par_inv_def same_file_def)
  next
    case (step t t')
    moreover have "all_ok t" using all_ok_reach [OF step.hyps(1)] assms(2) by simp
    ultimately show ?case by (blast intro: par_inv_step apart_step all_ok_step)
  qed
  then show ?thesis by simp
qed

end

end
