(* ===== verification/Upload_System.thy ===== *)
theory Upload_System
  imports Upload_Interleaving Par_Uploads
begin

text \<open>
  Any number of plain uploads that overlap in time: one step is one system call of one upload, or
  the arrival of a new upload.  Shown here: whatever the interleaving, finished names stay and the
  bytes of every file only grow; at most one upload of a name wins; uploads to different names do not
  interfere.  Two uploads to the same name do: they share the staging file.
\<close>

record upl =
  u_loc :: loc
  u_start :: nat
  u_input :: reader
  u_pc :: pc

type_synonym sys = "upl par"

definition upl_step :: "upl \<Rightarrow> fs \<Rightarrow> upl \<times> fs" where
  "upl_step u fs =
     (case pc_step (abs_path (u_loc u)) (u_start u) (u_input u) (u_pc u) fs of
        (pc', fs') \<Rightarrow> (u\<lparr>u_pc := pc'\<rparr>, fs'))"

text \<open>
  An upload arrives with a path that leads through no symbolic link: what \<open>resolve\<close> grants in a
  jail without links.
\<close>

definition upl_new :: "fs \<Rightarrow> upl \<Rightarrow> bool" where
  "upl_new fs u \<longleftrightarrow> upload_ok fs (u_loc u) \<and> u_pc u = PCheck"

abbreviation sys_step :: "sys \<Rightarrow> sys \<Rightarrow> bool" where
  "sys_step \<equiv> par_step upl_step upl_new"

section \<open>The frame of one step\<close>

fun pc_inodes :: "pc \<Rightarrow> nat set" where
  "pc_inodes (PCopy i n cs) = {i}"
| "pc_inodes _ = {}"

text \<open>A step keeps within its upload, and what it writes it appends.\<close>

definition step_frame :: "loc \<Rightarrow> nat set \<Rightarrow> fs \<Rightarrow> fs \<Rightarrow> bool" where
  "step_frame l I fs fs' \<longleftrightarrow> up_frame l I fs fs' \<and> (\<forall>i. prefix (bytes_of fs i) (bytes_of fs' i))"

lemma step_frame_faults [simp]: "fs_wf fs \<Longrightarrow> step_frame l I fs (fs\<lparr>faults := fl\<rparr>)"
  by (simp add: step_frame_def bytes_of_def)

lemma step_frame_refl [simp]: "fs_wf fs \<Longrightarrow> step_frame l I fs fs"
  by (simp add: step_frame_def)

lemma step_frame_bytes: "up_frame l I fs fs' \<Longrightarrow> bytes_of fs' = bytes_of fs \<Longrightarrow> step_frame l I fs fs'"
  by (simp add: step_frame_def)

lemma open_keeps_bytes:
  assumes "fs_open_write False p fs = (r, fs')" "fs_wf fs"
  shows "bytes_of fs' = bytes_of fs"
  using assms(1) unfolding fs_open_write_def
proof (cases rule: syscall_cases)
  case (run fl)
  have "bytes_of fs (next_ino fs) = []"
    using assms(2) by (auto simp: fs_wf_def bytes_of_def split: option.splits)
  then have "(bytes_of fs)(next_ino fs := []) = bytes_of fs" by (simp add: fun_eq_iff)
  with run show ?thesis by (auto split: sum.splits option.splits dent.splits)
qed simp

lemma frame_append:
  assumes "fs_wf fs" "fs_append i c fs = (r, fs')" "i < next_ino fs" "i \<in> I"
  shows "step_frame l I fs fs' \<and> dent_at fs' = dent_at fs \<and> next_ino fs' = next_ino fs \<and>
    bytes_of fs' i = (if r = Inr () then bytes_of fs i @ c else bytes_of fs i)"
proof -
  note f = fs_append_frame [OF assms(2,1,4,3), of "{stg l}" "upload_ents l"]
  have "prefix (bytes_of fs j) (bytes_of fs' j)" for j
    using assms(2) unfolding fs_append_def by (cases rule: syscall_cases) auto
  with f show ?thesis by (simp add: step_frame_def up_frame_def)
qed

definition pc_ok :: "fs \<Rightarrow> pc \<Rightarrow> bool" where
  "pc_ok fs pc \<longleftrightarrow> (\<forall>i \<in> pc_inodes pc. i < next_ino fs)"

lemma pc_step_frame:
  assumes ok: "upload_ok fs l" and pc: "pc_ok fs pc"
    and step: "pc_step (abs_path l) s input pc fs = (pc', fs')"
  shows "step_frame l (upload_inodes fs l \<union> pc_inodes pc) fs fs' \<and> pc_ok fs' pc'"
proof -
  from ok have wf: "fs_wf fs" and ne: "l \<noteq> []" by (simp_all add: upload_ok_def)
  note stgp = staging_path_abs [OF ne] staging_parent_abs
  show ?thesis
  proof (cases pc)
    case PMkdir
    with step frame_mkdirs [OF ok] show ?thesis
      by (auto simp: stgp pc_ok_def intro: step_frame_bytes split: prod.splits sum.splits)
  next
    case POpen
    with step frame_open [OF ok] open_keeps_bytes [OF _ wf] show ?thesis
      by (fastforce simp: stgp pc_ok_def intro: step_frame_bytes split: prod.splits sum.splits)
  next
    case (PCopy i n cs)
    with pc have i: "i < next_ino fs" by (simp add: pc_ok_def)
    show ?thesis
    proof (cases cs)
      case Nil
      with step PCopy wf show ?thesis
        by (auto simp: pc_ok_def split: option.splits prod.splits sum.splits dest!: fs_flush_state)
    next
      case (Cons c cs')
      with step PCopy frame_append [OF wf _ i, of c _ _ "upload_inodes fs l \<union> {i}" l] i show ?thesis
        by (auto simp: pc_ok_def split: prod.splits sum.splits)
    qed
  next
    case (PLink n)
    with step frame_link [OF ok] show ?thesis
      by (auto simp: stgp pc_ok_def intro!: step_frame_bytes elim: up_frame_mono split: prod.splits sum.splits)
  next
    case (PDrop r)
    with step frame_remove [OF ok, of "fst (fs_remove_file (abs_path (stg l)) fs)" fs'] show ?thesis
      by (auto simp: stgp pc_ok_def prod_eq_iff intro: step_frame_bytes)
  qed (use step wf in \<open>auto simp: stgp pc_ok_def split: prod.splits sum.splits bool.splits
    offset_verdict.splits dest!: read_only_calls\<close>)
qed

section \<open>Every interleaving\<close>

definition upl_ok :: "fs \<Rightarrow> upl \<Rightarrow> bool" where
  "upl_ok fs u \<longleftrightarrow> upload_ok fs (u_loc u) \<and> pc_ok fs (u_pc u)"

lemma upl_step_cases:
  assumes "upl_step u fs = (u', fs')"
  obtains pc' where "pc_step (abs_path (u_loc u)) (u_start u) (u_input u) (u_pc u) fs = (pc', fs')"
    "u' = u\<lparr>u_pc := pc'\<rparr>"
  using assms by (auto simp: upl_step_def split: prod.splits)

lemma pc_ok_frame: "up_frame l I fs fs' \<Longrightarrow> pc_ok fs pc \<Longrightarrow> pc_ok fs' pc"
  using evolves_next [OF up_frame_elims(2)] unfolding pc_ok_def by fastforce

lemma upl_step_frame:
  assumes "upl_ok fs u" "upl_step u fs = (u', fs')"
  shows "u_loc u' = u_loc u \<and> upl_ok fs' u' \<and>
    step_frame (u_loc u) (upload_inodes fs (u_loc u) \<union> pc_inodes (u_pc u)) fs fs'"
  using assms(2)
proof (cases rule: upl_step_cases)
  case (1 pc')
  from assms(1) have ok: "upload_ok fs (u_loc u)" "pc_ok fs (u_pc u)" by (simp_all add: upl_ok_def)
  from pc_step_frame [OF this 1(1)] upload_ok_frame [OF _ ok(1)] show ?thesis
    by (auto simp: 1(2) upl_ok_def step_frame_def)
qed

section \<open>One winner\<close>

fun won :: "pc \<Rightarrow> bool" where
  "won (PDrop (Inr n)) = True"
| "won (PDone (Inr n)) = True"
| "won _ = False"

text \<open>An upload wins by binding its name, which nobody had bound before.\<close>

lemma pc_step_wins:
  assumes "upload_ok fs l" "pc_step (abs_path l) s input pc fs = (pc', fs')" "won pc'" "\<not> won pc"
  shows "dent_at fs l = None \<and> dent_at fs' l \<noteq> None"
proof -
  from assms(1) have stgp: "staging_path (abs_path l) = abs_path (stg l)"
    by (simp add: upload_ok_def staging_path_abs)
  show ?thesis
  proof (cases pc)
    case (PLink n)
    with assms(2,3) have "fs_hard_link (abs_path (stg l)) (abs_path l) fs = (Inr (), fs')"
      by (auto simp: stgp split: prod.splits sum.splits)
    with frame_link [OF assms(1)] show ?thesis by fastforce
  next
    case (PCopy i n cs)
    with assms(2,3) show ?thesis by (cases cs) (auto split: option.splits prod.splits sum.splits)
  next
    case (PDrop r)
    with assms(2-4) show ?thesis by (cases r) auto
  qed (use assms(2-4) in \<open>auto split: prod.splits sum.splits bool.splits offset_verdict.splits option.splits\<close>)
qed

interpretation plain: par_uploads upl_step upl_new upl_ok u_loc "\<lambda>u. won (u_pc u)"
proof unfold_locales
  show "u_loc u' = u_loc u \<and> upl_ok fs' u' \<and> (\<exists>I. up_frame (u_loc u) I fs fs')"
    if "upl_ok fs u" "upl_step u fs = (u', fs')" for fs u u' fs'
    using upl_step_frame [OF that] unfolding step_frame_def by blast
  show "upl_ok fs' v" if "upl_ok fs v" "up_frame l I fs fs'" for fs v l I fs'
    using that by (auto simp: upl_ok_def intro: upload_ok_frame pc_ok_frame)
  show "dent_at fs (u_loc u) = None \<and> dent_at fs' (u_loc u) \<noteq> None"
    if "upl_ok fs u" "upl_step u fs = (u', fs')" "won (u_pc u')" "\<not> won (u_pc u)" for fs u u' fs'
    using that(2)
  proof (cases rule: upl_step_cases)
    case (1 pc')
    with pc_step_wins [OF _ 1(1)] that show ?thesis by (simp add: upl_ok_def)
  qed
qed (simp_all add: upl_ok_def upl_new_def pc_ok_def)

text \<open>
  (C14) Whatever the interleaving of uploads, and whatever fails: a finished name stays bound to its
  file, and the bytes the file had when it was finished remain the beginning of what it holds.
\<close>

theorem concurrent_uploads_append_only:
  assumes "sys_step\<^sup>*\<^sup>* \<lparr>uploads = [], disk = fs\<rparr> s" "fs_wf fs" "sys_step\<^sup>*\<^sup>* s s'"
    and "\<not> scratch k" "dent_at (disk s) k = Some (DFile i)"
  shows "dent_at (disk s') k = Some (DFile i) \<and> prefix (bytes_of (disk s) i) (bytes_of (disk s') i)"
proof -
  have ok: "plain.all_ok s" using plain.all_ok_reach [OF assms(1)] assms(2) by simp
  from assms(3) have "prefix (bytes_of (disk s) i) (bytes_of (disk s') i)"
  proof (induction rule: rtranclp_induct)
    case (step t t')
    have "plain.all_ok t" using plain.all_ok_reach [OF step.hyps(1) ok] .
    with step.hyps(2) have "prefix (bytes_of (disk t) i) (bytes_of (disk t') i)"
      by (cases rule: plain.step_cases) (auto simp: step_frame_def dest: upl_step_frame)
    with step.IH show ?case by (rule prefix_order.trans)
  qed simp
  with plain.names_stay [OF assms(3) ok assms(4,5)] show ?thesis by blast
qed

text \<open>
  (C13) Of all the uploads to one name that ever run, in whatever interleaving, at most one
  succeeds (binds the name and goes on to report success).
\<close>

theorem one_upload_wins:
  assumes "sys_step\<^sup>*\<^sup>* \<lparr>uploads = [], disk = fs\<rparr> s" "fs_wf fs" "\<not> scratch l"
  shows "length (filter (\<lambda>u. u_loc u = l \<and> won (u_pc u)) (uploads s)) \<le> 1"
  using assms by (rule plain.one_wins)

section \<open>Uploads to different names\<close>

text \<open>How far an upload that nobody interferes with has come.\<close>

definition finished :: "bytes \<Rightarrow> loc \<Rightarrow> nat \<Rightarrow> reader \<Rightarrow> nat \<Rightarrow> loc \<Rightarrow> fs \<Rightarrow> bool" where
  "finished pre l st input n k fs \<longleftrightarrow> length pre = st \<and> snd input = None \<and> n = length (concat (fst input)) \<and>
     content fs k = Some (pre @ concat (fst input))"

fun progress :: "bytes \<Rightarrow> loc \<Rightarrow> nat \<Rightarrow> reader \<Rightarrow> pc \<Rightarrow> fs \<Rightarrow> bool" where
  "progress pre l st input PCheck fs \<longleftrightarrow> staged fs l = pre"
| "progress pre l st input PStat fs \<longleftrightarrow> staged fs l = pre"
| "progress pre l st input PMkdir fs \<longleftrightarrow>
     staged fs l = pre \<and> (length pre = st \<or> dent_at fs (stg l) = Some DDir)"
| "progress pre l st input POpen fs \<longleftrightarrow>
     staged fs l = pre \<and> (length pre = st \<or> dent_at fs (stg l) = Some DDir)"
| "progress pre l st input (PCopy i n cs) fs \<longleftrightarrow>
     length pre = st \<and> dent_at fs (stg l) = Some (DFile i) \<and>
     (\<exists>sent. fst input = sent @ cs \<and> n = length (concat sent) \<and> bytes_of fs i = pre @ concat sent)"
| "progress pre l st input (PFlush n) fs \<longleftrightarrow> finished pre l st input n (stg l) fs"
| "progress pre l st input (PLink n) fs \<longleftrightarrow> finished pre l st input n (stg l) fs"
| "progress pre l st input (PDrop (Inr n)) fs \<longleftrightarrow> finished pre l st input n l fs"
| "progress pre l st input (PDone (Inr n)) fs \<longleftrightarrow> finished pre l st input n l fs"
| "progress pre l st input (PDrop (Inl e)) fs \<longleftrightarrow> True"
| "progress pre l st input (PDone (Inl e)) fs \<longleftrightarrow> True"

lemma finished_content: "content fs' k = content fs k \<Longrightarrow> finished pre l st input n k fs' = finished pre l st input n k fs"
  by (simp add: finished_def)

lemma progress_faults [simp]: "progress pre l st input pc (fs\<lparr>faults := fl\<rparr>) = progress pre l st input pc fs"
  by (cases "(pre, l, st, input, pc, fs)" rule: progress.cases) (simp_all add: finished_def)

lemma progress_stat:
  assumes ok: "upload_ok fs l" and pre: "staged fs l = pre" and step: "pc_step (abs_path l) st input PStat fs = (pc', fs')"
  shows "progress pre l st input pc' fs'"
proof -
  from ok have ne: "l \<noteq> []" by (simp add: upload_ok_def)
  obtain r fs1 where 1: "fs_metadata (abs_path (stg l)) fs = (r, fs1)" by fastforce
  then obtain fl where fs1: "fs1 = fs\<lparr>faults := fl\<rparr>" using fs_metadata_state by blast
  show ?thesis
  proof (cases "stat_size r")
    case (Inl e)
    with step 1 show ?thesis by (auto simp: staging_path_abs [OF ne])
  next
    case (Inr n)
    from stat_staging [OF 1 up_inv_refl [OF ok] Inr] pre have "n = length pre \<or> dent_at fs (stg l) = Some DDir" by simp
    with step 1 Inr fs1 pre show ?thesis
      by (auto simp: staging_path_abs [OF ne] classify_offset_def split: offset_verdict.splits if_splits)
  qed
qed

lemma progress_own:
  assumes ok: "upload_ok fs l" and pc: "pc_ok fs pc" and prog: "progress pre l st input pc fs"
    and step: "pc_step (abs_path l) st input pc fs = (pc', fs')"
  shows "progress pre l st input pc' fs'"
proof -
  from ok have wf: "fs_wf fs" and ne: "l \<noteq> []" by (simp_all add: upload_ok_def)
  note stgp = staging_path_abs [OF ne] staging_parent_abs
  show ?thesis
  proof (cases pc)
    case PCheck
    with step prog show ?thesis
      by (auto split: prod.splits sum.splits bool.splits dest!: fs_try_exists_state)
  next
    case PStat
    with progress_stat [OF ok _ step [unfolded PStat]] prog show ?thesis by simp
  next
    case PMkdir
    with step prog mkdirs_content [OF ok] frame_mkdirs [OF ok, of _ _ "{}"] show ?thesis
      by (auto simp: stgp staged_content split: prod.splits sum.splits dest!: up_frame_elims(2) intro: evolves_dir)
  next
    case POpen
    obtain r fs1 where 1: "fs_open_write False (abs_path (stg l)) fs = (r, fs1)" by fastforce
    from frame_open [OF ok 1] have "dent_at fs (stg l) \<noteq> Some DDir" if "r = Inr i" for i
      using that evolves_dir [OF up_frame_elims(2)] by fastforce
    with step prog POpen 1 frame_open [OF ok 1] show ?thesis by (cases r) (auto simp: stgp)
  next
    case (PCopy i n cs)
    with pc have i: "i < next_ino fs" by (simp add: pc_ok_def)
    show ?thesis
    proof (cases cs)
      case Nil
      with step PCopy prog show ?thesis
        by (auto simp: finished_def content_def split: option.splits prod.splits sum.splits dest!: fs_flush_state)
    next
      case (Cons c cs')
      with step PCopy prog frame_append [OF wf _ i, of c _ _ "{i}" l] show ?thesis
        by (fastforce split: prod.splits sum.splits)
    qed
  next
    case (PFlush n)
    with step prog show ?thesis by (auto simp: finished_def split: prod.splits sum.splits dest!: fs_flush_state)
  next
    case (PLink n)
    with step prog frame_link [OF ok] show ?thesis
      by (fastforce simp: stgp finished_def content_def split: prod.splits sum.splits)
  next
    case (PDrop r)
    with step prog remove_keeps_final [OF ok, of "fst (fs_remove_file (abs_path (stg l)) fs)" fs']
    show ?thesis by (cases r) (auto simp: stgp finished_def prod_eq_iff)
  qed (use step prog in simp)
qed

lemma paired_step:
  assumes ok: "upload_ok fs l" and "paired fs" "\<not> scratch l"
    and step: "pc_step (abs_path l) st input pc fs = (pc', fs')"
  shows "paired fs'"
proof -
  from ok have ne: "l \<noteq> []" by (simp add: upload_ok_def)
  note stgp = staging_path_abs [OF ne] staging_parent_abs
  have append: "paired fs1" if "fs_append i c fs = (r, fs1)" for i c r fs1
    using that assms(2) unfolding fs_append_def by (cases rule: syscall_cases) auto
  have mkdirs: "paired fs1" if "fs_create_dir_all (abs_path (butlast l)) fs = (r, fs1)" for r fs1
  proof -
    from up_mkdirs [OF up_inv_refl [OF ok] that] have "evolves {} (dirs_to (butlast l)) {} fs fs1" by blast
    with assms(2) show ?thesis by (blast intro: paired_fewer dest: evolves_file)
  qed
  have remove: "paired fs1" if "fs_remove_file (abs_path (stg l)) fs = (r, fs1)" for r fs1
  proof -
    from up_remove [OF up_inv_refl [OF ok] that] have "evolves {stg l} {} {} fs fs1" by blast
    with assms(2) show ?thesis by (blast intro: paired_fewer dest: evolves_file)
  qed
  show ?thesis
  proof (cases pc)
    case PMkdir
    with step mkdirs show ?thesis by (auto simp: stgp split: prod.splits sum.splits)
  next
    case POpen
    with step paired_open [OF ok assms(2)] show ?thesis by (auto simp: stgp split: prod.splits sum.splits)
  next
    case (PCopy i n cs)
    with step append assms(2) show ?thesis
      by (cases cs) (auto split: option.splits prod.splits sum.splits dest!: fs_flush_state)
  next
    case (PLink n)
    with step paired_link [OF ok assms(2,3)] show ?thesis by (auto simp: stgp split: prod.splits sum.splits)
  next
    case (PDrop r)
    with step remove [of "fst (fs_remove_file (abs_path (stg l)) fs)"] show ?thesis
      by (auto simp: stgp prod_eq_iff)
  qed (use step assms(2) in \<open>auto simp: stgp split: prod.splits sum.splits bool.splits
    offset_verdict.splits dest!: read_only_calls\<close>)
qed

subsection \<open>A name changes only when its upload wins\<close>

fun past_check :: "pc \<Rightarrow> bool" where
  "past_check PCheck = False"
| "past_check (PDrop r) = False"
| "past_check (PDone r) = False"
| "past_check _ = True"

lemma append_dents: "fs_append i c fs = (r, fs') \<Longrightarrow> dent_at fs' = dent_at fs"
  unfolding fs_append_def by (cases rule: syscall_cases) auto

lemma own_keeps_final:
  assumes ok: "upload_ok fs l" and absent: "past_check pc \<Longrightarrow> content fs l = None"
    and step: "pc_step (abs_path l) st input pc fs = (pc', fs')" and lose: "\<not> won pc'"
  shows "content fs' l = content fs l"
proof -
  from ok have ne: "l \<noteq> []" by (simp add: upload_ok_def)
  note stgp = staging_path_abs [OF ne] staging_parent_abs
  show ?thesis
  proof (cases pc)
    case PMkdir
    with step mkdirs_content [OF ok] show ?thesis by (auto simp: stgp split: prod.splits sum.splits)
  next
    case POpen
    with step absent open_keeps_absent [OF ok] show ?thesis by (auto simp: stgp split: prod.splits sum.splits)
  next
    case (PCopy i n cs)
    with step absent show ?thesis
      by (cases cs) (auto split: option.splits prod.splits sum.splits dest!: fs_flush_state append_dents
        intro: dents_keep_absent)
  next
    case (PLink n)
    with step lose frame_link [OF ok] show ?thesis
      by (fastforce simp: stgp split: prod.splits sum.splits)
  next
    case (PDrop r)
    with step remove_keeps_final [OF ok, of "fst (fs_remove_file (abs_path (stg l)) fs)" fs'] show ?thesis
      by (auto simp: stgp prod_eq_iff)
  qed (use step in \<open>auto simp: stgp split: prod.splits sum.splits bool.splits offset_verdict.splits
    dest!: read_only_calls\<close>)
qed

lemma won_stays: "pc_step p st input pc fs = (pc', fs') \<Longrightarrow> won pc \<Longrightarrow> won pc'"
  by (cases pc rule: won.cases) auto

lemma past_check_lost: "past_check pc \<Longrightarrow> \<not> won pc"
  by (cases pc) simp_all

lemma check_finds_nothing:
  assumes ok: "upload_ok fs l" and step: "pc_step (abs_path l) st input pc fs = (pc', fs')"
    and "past_check pc'" "\<not> past_check pc"
  shows "content fs' l = None"
proof -
  from assms(4) step assms(3) have "pc = PCheck" by (cases pc) auto
  with step assms(3) obtain fl where "fs_try_exists (abs_path l) fs = (Inr False, fs')" "fs' = fs\<lparr>faults := fl\<rparr>"
    by (auto split: prod.splits sum.splits bool.splits dest: fs_try_exists_state)
  with fs_try_exists_Inr [of l fs False fs'] ok show ?thesis by (simp add: upload_ok_def content_def)
qed

subsection \<open>The system\<close>

text \<open>
  The state of an upload that started on the disk \<open>fs0\<close>: its progress; its name holds what it held
  at first until the upload wins; and past the check it held no file at first.
\<close>

definition upl_prog :: "fs \<Rightarrow> upl \<Rightarrow> fs \<Rightarrow> bool" where
  "upl_prog fs0 u fs \<longleftrightarrow>
     progress (staged fs0 (u_loc u)) (u_loc u) (u_start u) (u_input u) (u_pc u) fs \<and>
     (won (u_pc u) \<or> content fs (u_loc u) = content fs0 (u_loc u)) \<and>
     (won (u_pc u) \<or> past_check (u_pc u) \<longrightarrow> content fs0 (u_loc u) = None)"

lemma progress_same:
  assumes "progress pre l st input pc fs" "same_file fs fs' l" "same_file fs fs' (stg l)"
  shows "progress pre l st input pc fs'"
proof (cases pc)
  case (PCopy i n cs)
  with assms(1,3) have "dent_at fs (stg l) = Some (DFile i)" "dent_at fs' (stg l) = Some (DFile i)"
    by (auto simp: same_file_def)
  moreover from this assms(3) have "bytes_of fs' i = bytes_of fs i" by (simp add: same_file_def content_def)
  ultimately show ?thesis using assms(1) PCopy by simp
next
  case (PDrop r)
  with assms show ?thesis by (cases r) (simp_all add: finished_def same_file_def)
next
  case (PDone r)
  with assms show ?thesis by (cases r) (simp_all add: finished_def same_file_def)
qed (use assms in \<open>auto simp: staged_content finished_def same_file_def\<close>)

lemma upl_prog_own:
  assumes "upl_ok fs u" "upl_prog fs0 u fs" "upl_step u fs = (u', fs')"
  shows "upl_prog fs0 u' fs'"
  using assms(3)
proof (cases rule: upl_step_cases)
  case (1 pc')
  let ?l = "u_loc u"
  from assms(1) have ok: "upload_ok fs ?l" "pc_ok fs (u_pc u)" by (simp_all add: upl_ok_def)
  from assms(2) have p: "progress (staged fs0 ?l) ?l (u_start u) (u_input u) (u_pc u) fs"
    and same: "won (u_pc u) \<or> content fs ?l = content fs0 ?l"
    and free: "won (u_pc u) \<Longrightarrow> content fs0 ?l = None" "past_check (u_pc u) \<Longrightarrow> content fs0 ?l = None"
    by (auto simp: upl_prog_def)
  have kept: "content fs' ?l = content fs0 ?l" if "\<not> won pc'"
    using that same free(2) won_stays [OF 1(1)] past_check_lost own_keeps_final [OF ok(1) _ 1(1)] by metis
  moreover have "content fs0 ?l = None" if "won pc'"
  proof (cases "won (u_pc u)")
    case False
    with pc_step_wins [OF ok(1) 1(1) that] same show ?thesis by (simp add: content_def)
  qed (rule free(1))
  moreover have "content fs0 ?l = None" if "past_check pc'"
    using that kept past_check_lost free(2) check_finds_nothing [OF ok(1) 1(1)] by metis
  ultimately show ?thesis using progress_own [OF ok p 1(1)] unfolding 1(2) upl_prog_def by auto
qed

interpretation plain: apart_uploads upl_step upl_new upl_ok u_loc "\<lambda>u. won (u_pc u)" upl_prog
proof unfold_locales
  fix fs u fs0 u' fs'
  assume a: "upl_ok fs u" "upl_prog fs0 u fs" "upl_step u fs = (u', fs')"
  from a(2) have "pc_inodes (u_pc u) \<subseteq> upload_inodes fs (u_loc u)"
    unfolding upl_prog_def by (cases "u_pc u") (auto simp: upload_inodes_def)
  with upl_step_frame [OF a(1,3)] show "up_frame (u_loc u) (upload_inodes fs (u_loc u)) fs fs'"
    by (simp add: step_frame_def Un_absorb2)
  show "upl_prog fs0 u' fs'" using a by (rule upl_prog_own)
  show "paired fs'" if "\<not> scratch (u_loc u)" "paired fs"
    using a(3)
  proof (cases rule: upl_step_cases)
    case (1 pc')
    with a(1) that show ?thesis by (auto simp: upl_ok_def intro: paired_step [of fs "u_loc u"])
  qed
next
  fix fs0 u fs fs'
  assume "upl_prog fs0 u fs" "same_file fs fs' (u_loc u)" "same_file fs fs' (stg (u_loc u))"
  moreover from this have "content fs' (u_loc u) = content fs (u_loc u)" by (simp add: same_file_def)
  ultimately show "upl_prog fs0 u fs'" unfolding upl_prog_def using progress_same by metis
next
  fix fs u fs0
  assume "upl_new fs u" "same_file fs0 fs (u_loc u)" "same_file fs0 fs (stg (u_loc u))"
  then show "upl_prog fs0 u fs" by (simp add: upl_new_def upl_prog_def staged_content same_file_def)
qed


section \<open>Schedules\<close>

text \<open>A schedule names the upload that makes the next step; it makes the step relation executable.\<close>

definition sched :: "nat \<Rightarrow> sys \<Rightarrow> sys" where
  "sched j s =
     (if j < length (uploads s) then
        let (u', fs') = upl_step (uploads s ! j) (disk s)
        in s\<lparr>uploads := (uploads s)[j := u'], disk := fs'\<rparr>
      else s)"

definition arrivals :: "(loc \<times> nat \<times> reader) list \<Rightarrow> fs \<Rightarrow> sys" where
  "arrivals as fs =
     \<lparr>uploads = map (\<lambda>(l, n, input). \<lparr>u_loc = l, u_start = n, u_input = input, u_pc = PCheck\<rparr>) as, disk = fs\<rparr>"

lemma sched_reach: "sys_step\<^sup>*\<^sup>* s (fold sched js s)"
proof (induction js arbitrary: s)
  case (Cons j js)
  have "sys_step\<^sup>*\<^sup>* s (sched j s)"
  proof (cases "j < length (uploads s)")
    case True
    obtain u' fs' where "upl_step (uploads s ! j) (disk s) = (u', fs')" by fastforce
    with True run [of j s upl_step u' fs' upl_new] show ?thesis by (simp add: sched_def r_into_rtranclp)
  qed (simp add: sched_def)
  with Cons.IH [of "sched j s"] show ?case by simp
qed simp

lemma arrivals_reach:
  assumes "\<forall>(l, n, input) \<in> set as. upload_ok fs l"
  shows "sys_step\<^sup>*\<^sup>* \<lparr>uploads = [], disk = fs\<rparr> (arrivals as fs)"
  using assms
proof (induction as rule: rev_induct)
  case (snoc a as)
  obtain l n input where a: "a = (l, n, input)" by (cases a)
  with snoc.prems arrive [of upl_new "arrivals as fs" "\<lparr>u_loc = l, u_start = n, u_input = input, u_pc = PCheck\<rparr>" upl_step] have "sys_step (arrivals as fs) (arrivals (as @ [a]) fs)"
    by (simp add: arrivals_def upl_new_def)
  with snoc show ?case by auto
qed (simp add: arrivals_def)

lemma demo_upload_ok: "upload_ok demo_fs [''srv'', ''cam'', x]"
proof -
  have "k = [''srv'', ''door'', ''escape'']" if "dent_at demo_fs k = Some (DSym t)" for k t
    using that by (auto simp: dent_at_def demo_fs_def split: if_splits)
  then have "nolinks demo_fs [''srv'', ''cam'', y]" for y by (fastforce simp: nolinks_def)
  with demo_fs_wf show ?thesis by (simp add: upload_ok_def stg_def)
qed

lemma demo_paired: "paired demo_fs"
  by (auto simp: paired_def demo_dent_file)

text \<open>Two uploads to different names, step by step in turn, and the first of two to the same name.\<close>

definition two_names :: sys where
  "two_names = fold sched (concat (replicate 10 [0, 1]))
     (arrivals [([''srv'', ''cam'', ''x''], 0, ([''ab'', ''c''], None)), ([''srv'', ''cam'', ''y''], 0, ([''XYZ''], None))] demo_fs)"

definition race_start :: sys where
  "race_start = arrivals [([''srv'', ''cam'', ''x''], 0, ([''abc''], None)),
     ([''srv'', ''cam'', ''x''], 0, ([''XYZ''], None))] demo_fs"

definition race1 :: sys where
  "race1 = fold sched ([0, 0, 0, 0, 1, 1, 1, 1] @ replicate 6 0) race_start"

definition race2 :: sys where
  "race2 = fold sched (replicate 6 1) race1"

lemma two_names_reach: "sys_step\<^sup>*\<^sup>* \<lparr>uploads = [], disk = demo_fs\<rparr> two_names"
  unfolding two_names_def
  by (rule rtranclp_trans [OF arrivals_reach sched_reach]) (simp add: demo_upload_ok)

lemma race1_reach: "sys_step\<^sup>*\<^sup>* \<lparr>uploads = [], disk = demo_fs\<rparr> race1"
  unfolding race1_def race_start_def
  by (rule rtranclp_trans [OF arrivals_reach sched_reach]) (simp add: demo_upload_ok)

lemma race2_reach: "sys_step\<^sup>*\<^sup>* race1 race2"
  unfolding race2_def by (rule sched_reach)



theorem concurrent_uploads_append_only_witness:
  "\<exists>i. dent_at (disk race1) [''srv'', ''cam'', ''x''] = Some (DFile i) \<and>
     prefix (bytes_of (disk race1) i) (bytes_of (disk race2) i)"
proof -
  have "\<not> scratch [''srv'', ''cam'', ''x'']" by code_simp
  moreover have "dent_at (disk race1) [''srv'', ''cam'', ''x''] = Some (DFile 1)" by code_simp
  ultimately show ?thesis
    using concurrent_uploads_append_only [OF race1_reach demo_fs_wf race2_reach] by blast
qed

theorem one_upload_wins_witness:
  "length (filter (\<lambda>u. u_loc u = [''srv'', ''cam'', ''x''] \<and> won (u_pc u)) (uploads race1)) \<le> 1 \<and>
   won (u_pc (uploads race1 ! 0))"
proof -
  have "\<not> scratch [''srv'', ''cam'', ''x'']" and w: "won (u_pc (uploads race1 ! 0))" by code_simp+
  with one_upload_wins [OF race1_reach demo_fs_wf] w show ?thesis by blast
qed

end
