(* ===== verification/Crash_Safety.thy ===== *)
theory Crash_Safety
  imports Upload_System
begin

text \<open>
  What remains when the daemon is killed in the middle of any number of uploads: the disk as the last
  system call left it.  Every state of \<open>Upload_System\<close> is such a point.  A name either holds what it
  held before or a complete upload, and uploads can go on from there.  (The sources do not call
  \<^verbatim>\<open>fsync\<close>; a loss of power, where written data may be lost, is not meant here.)
\<close>

section \<open>Every state is a safe point\<close>

lemma won_progress:
  "progress pre l st input pc fs \<Longrightarrow> won pc \<Longrightarrow> \<exists>n. finished pre l st input n l fs"
  by (cases pc rule: won.cases) auto

text \<open>
  (C7) Uploads are atomic: whenever the daemon is killed, with any number of uploads to different
  names in progress and after any failures, a name whose content differs from before was free and
  now holds the complete data of an upload, appended to what had been staged for the name.  The disk
  is then a sound state to start from again.
\<close>

theorem crash_atomic:
  assumes "sys_step\<^sup>*\<^sup>* \<lparr>uploads = [], disk = fs\<rparr> s" "fs_wf fs" "paired fs"
    and "distinct (map u_loc (uploads s))" "\<forall>u \<in> set (uploads s). \<not> scratch (u_loc u)"
  shows "fs_wf (disk s) \<and> paired (disk s) \<and>
    (\<forall>l. l \<noteq> [] \<longrightarrow> \<not> scratch l \<longrightarrow> content (disk s) l \<noteq> content fs l \<longrightarrow>
       content fs l = None \<and>
       (\<exists>u \<in> set (uploads s). u_loc u = l \<and> snd (u_input u) = None \<and> u_start u = length (staged fs l) \<and>
          content (disk s) l = Some (staged fs l @ concat (fst (u_input u)))))"
proof -
  note inv = plain.par_invD [OF plain.par_inv_reach [OF assms]]
  have "content fs l = None \<and>
       (\<exists>u \<in> set (uploads s). u_loc u = l \<and> snd (u_input u) = None \<and> u_start u = length (staged fs l) \<and>
          content (disk s) l = Some (staged fs l @ concat (fst (u_input u))))"
    if l: "l \<noteq> []" "\<not> scratch l" "content (disk s) l \<noteq> content fs l" for l
  proof -
    from inv(5) [OF l(1,2)] l(3) obtain u where u: "u \<in> set (uploads s)" "u_loc u = l"
      unfolding same_file_def by blast
    from inv(4) [OF u(1)] u(2) l(3) have "won (u_pc u)" "content fs l = None"
      "progress (staged fs l) l (u_start u) (u_input u) (u_pc u) (disk s)" by (auto simp: upl_prog_def)
    with won_progress u show ?thesis by (fastforce simp: finished_def)
  qed
  with inv(2,3) show ?thesis by blast
qed

definition killed :: sys where
  "killed = fold sched (replicate 10 0 @ replicate 5 1)
     (arrivals [([''srv'', ''cam'', ''x''], 0, ([''ab'', ''c''], None)), ([''srv'', ''cam'', ''y''], 0, ([''XYZ'', ''W''], None))] demo_fs)"

lemma killed_reach: "sys_step\<^sup>*\<^sup>* \<lparr>uploads = [], disk = demo_fs\<rparr> killed"
  unfolding killed_def
  by (rule rtranclp_trans [OF arrivals_reach sched_reach]) (simp add: demo_upload_ok)

lemma killed_uploads:
  "map u_loc (uploads killed) = [[''srv'', ''cam'', ''x''], [''srv'', ''cam'', ''y'']]"
  "list_all (\<lambda>u. \<not> scratch (u_loc u)) (uploads killed)"
  by code_simp+

theorem crash_atomic_witness:
  "fs_wf (disk killed) \<and> content (disk killed) [''srv'', ''cam'', ''x''] = Some ''abc'' \<and>
   content (disk killed) [''srv'', ''cam'', ''y''] = None"
proof -
  have x: "content (disk killed) [''srv'', ''cam'', ''x''] = Some ''abc''"
    "content (disk killed) [''srv'', ''cam'', ''y''] = None" by code_simp+
  show ?thesis
    using crash_atomic [OF killed_reach demo_fs_wf demo_paired] killed_uploads x by (simp add: list_all_iff)
qed

section \<open>Starting again\<close>

text \<open>After an interrupted upload the staging name leads nowhere else while the final name is free.\<close>

lemma paired_unaliased:
  assumes "paired fs" "content fs l = None" "l \<noteq> []"
  shows "unaliased fs (stg l)"
  unfolding unaliased_def
proof (intro allI impI)
  fix k i
  assume a: "dent_at fs (stg l) = Some (DFile i)" "dent_at fs k = Some (DFile i)"
  with assms(1) have "k = stg l \<or> \<not> scratch k \<and> stg l = stg k" unfolding paired_def using scratch_stg by metis
  moreover have "k \<noteq> l" using a(2) assms(2) by (auto simp: content_def)
  moreover have "k = []" if "stg l = stg k" "k \<noteq> l" using stg_inj [OF assms(3), of k] that by auto
  ultimately show "k = stg l" using a(2) by auto
qed

lemma upload_room_faults [simp]: "upload_room (fs\<lparr>faults := fl\<rparr>) l = upload_room fs l"
  by (simp add: upload_room_def room_for_dir_def unaliased_def)

lemma first_attempt:
  assumes "upload_room fs l" "faults fs = []" "content fs l = None" "snd input = None"
    and "store_stream (abs_path l) 0 input fs = (r, fs')"
  shows "r = Inr (length (concat (fst input))) \<and> content fs' l = Some (concat (fst input)) \<or>
    r = Inl SOverlap \<and> upload_room fs' l \<and> content fs' l = None \<and> content fs' (stg l) = None"
proof (cases "staged fs l = []")
  case True
  then have "(case content fs (stg l) of None \<Rightarrow> [] | Some b \<Rightarrow> b) = []" by (simp add: staged_content)
  with store_stream_ok [OF assms(1,2,5)] assms(3,4) show ?thesis by (simp add: spec_store_def Let_def)
next
  case False
  then have old: "(case content fs (stg l) of None \<Rightarrow> [] | Some b \<Rightarrow> b) \<noteq> []" by (simp add: staged_content)
  from assms(1) have ok: "upload_ok fs l" by (rule upload_room_ok)
  from restart_discards [OF assms(1-3) False] assms(5)
  have "fs_remove_file (abs_path (stg l)) fs = (fst (fs_remove_file (abs_path (stg l)) fs), fs')" "r = Inl SOverlap"
    by (auto simp: discard_def prod_eq_iff)
  with up_remove [OF up_inv_refl [OF ok]] have "upload_room fs' l"
    by (intro upload_room_fewer [OF assms(1)]) (blast dest: up_inv_elims(1))+
  moreover from store_stream_ok [OF assms(1,2,5)] old assms(3)
  have "content fs' = (content fs)(stg l := None)" by (simp add: spec_store_def Let_def)
  ultimately show ?thesis using \<open>r = _\<close> assms(3) by simp
qed


definition retry1 :: "(store_error + nat) \<times> fs" where
  "retry1 = store_stream (abs_path [''srv'', ''cam'', ''y'']) 0 ([''XYZ'', ''W''], None) ((disk killed)\<lparr>faults := []\<rparr>)"

definition retry2 :: "(store_error + nat) \<times> fs" where
  "retry2 = store_stream (abs_path [''srv'', ''cam'', ''y'']) 0 ([''XYZ'', ''W''], None) ((snd retry1)\<lparr>faults := []\<rparr>)"


end
