(* ===== verification/Retry.thy ===== *)
theory Retry
  imports Crash_Safety
begin

text \<open>
  Several attempts to upload one file.  A camera whose upload fails sends the file again, from the
  start or, with \<^verbatim>\<open>REST\<close>, from an offset.  A sequence of attempts refines the same sequence on the
  abstract store, so what the archive holds afterwards can be read off the specification.
\<close>

fun attempts :: "loc \<Rightarrow> (nat \<times> reader) list \<Rightarrow> fs \<Rightarrow> (store_error + nat) list \<times> fs" where
  "attempts l [] fs = ([], fs)"
| "attempts l ((start_pos, input) # as) fs =
     (case store_stream (abs_path l) start_pos input (fs\<lparr>faults := []\<rparr>) of (r, fs) \<Rightarrow>
        (case attempts l as fs of (rs, fs) \<Rightarrow> (r # rs, fs)))"

fun spec_attempts ::
    "loc \<Rightarrow> (nat \<times> reader) list \<Rightarrow> (loc \<Rightarrow> bytes option) \<Rightarrow> (store_error + nat) list \<times> (loc \<Rightarrow> bytes option)" where
  "spec_attempts l [] C = ([], C)"
| "spec_attempts l ((start_pos, input) # as) C =
     (case spec_store C l start_pos input of (r, C) \<Rightarrow>
        (case spec_attempts l as C of (rs, C) \<Rightarrow> (r # rs, C)))"

section \<open>An upload leaves room for the next\<close>

lemma open_makes_no_dirs:
  assumes "fs_open_write tr p fs = (r, fs')" "dent_at fs' k = Some DDir"
  shows "dent_at fs k = Some DDir"
  using assms(1) unfolding fs_open_write_def
proof (cases rule: syscall_cases)
  case (run fl)
  moreover have "a \<noteq> []" if "dent_at fs a = None" for a using that by auto
  ultimately show ?thesis using assms(2) by (auto split: sum.splits option.splits dent.splits if_splits)
qed (use assms(2) in simp)

text \<open>The directories above the name are the only ones an upload creates.\<close>

definition dirs_within :: "loc \<Rightarrow> fs \<Rightarrow> fs \<Rightarrow> bool" where
  "dirs_within l fs fs' \<longleftrightarrow>
     (\<forall>k. dent_at fs' k = Some DDir \<longrightarrow> dent_at fs k = Some DDir \<or> k \<in> dirs_to (butlast l))"

lemma dirs_within_same [simp]: "dent_at fs' = dent_at fs \<Longrightarrow> dirs_within l fs fs'"
  by (simp add: dirs_within_def)

lemma dirs_within_trans: "dirs_within l fs fs1 \<Longrightarrow> dirs_within l fs1 fs2 \<Longrightarrow> dirs_within l fs fs2"
  unfolding dirs_within_def by blast

lemma dirs_within_evolves: "evolves R N I fs fs' \<Longrightarrow> N \<subseteq> dirs_to (butlast l) \<Longrightarrow> R \<subseteq> dirs_to (butlast l) \<Longrightarrow> dirs_within l fs fs'"
  unfolding dirs_within_def using evolves_other by (metis UnE subsetD)

lemma dirs_within_remove:
  assumes "upload_ok fs l" "fs_remove_file (abs_path (stg l)) fs = (r, fs')"
  shows "dirs_within l fs fs'"
  unfolding dirs_within_def
proof (intro allI impI)
  fix k
  assume "dent_at fs' k = Some DDir"
  with up_remove [OF up_inv_refl [OF assms(1)] assms(2)] evolves_other [of "{stg l}" "{}" "{}" fs fs' k]
  show "dent_at fs k = Some DDir \<or> k \<in> dirs_to (butlast l)" by (cases "k = stg l") auto
qed

lemma pc_step_dirs:
  assumes ok: "upload_ok fs l" and pc: "pc_ok fs pc"
    and step: "pc_step (abs_path l) s input pc fs = (pc', fs')"
  shows "dirs_within l fs fs'"
proof -
  from ok have wf: "fs_wf fs" and ne: "l \<noteq> []" by (simp_all add: upload_ok_def)
  note stgp = staging_path_abs [OF ne] staging_parent_abs
  show ?thesis
  proof (cases pc)
    case PMkdir
    with step up_mkdirs [OF up_inv_refl [OF ok]] show ?thesis
      by (auto simp: stgp intro!: dirs_within_evolves [of "{}" "dirs_to (butlast l)" "{}"] split: prod.splits sum.splits)
  next
    case POpen
    with step show ?thesis
      by (auto simp: stgp dirs_within_def split: prod.splits sum.splits dest: open_makes_no_dirs)
  next
    case (PCopy i n cs)
    with pc have i: "i < next_ino fs" by (simp add: pc_ok_def)
    show ?thesis
    proof (cases cs)
      case Nil
      with step PCopy show ?thesis
        by (auto split: option.splits prod.splits sum.splits dest!: fs_flush_state)
    next
      case (Cons c cs')
      with step PCopy frame_append [OF wf _ i, of c _ _ "{i}" l] show ?thesis
        by (auto split: prod.splits sum.splits)
    qed
  next
    case (PLink n)
    obtain r fs1 where 1: "fs_hard_link (abs_path (stg l)) (abs_path l) fs = (r, fs1)" by fastforce
    with step PLink have "fs' = fs1" by (auto simp: stgp split: sum.splits)
    with frame_link [OF ok 1] show ?thesis
      by (cases "r = Inr ()") (auto simp: dirs_within_def split: if_splits)
  next
    case (PDrop r)
    with step dirs_within_remove [OF ok, of "fst (fs_remove_file (abs_path (stg l)) fs)" fs'] show ?thesis
      by (auto simp: stgp prod_eq_iff)
  qed (use step in \<open>auto simp: stgp split: prod.splits sum.splits bool.splits
    offset_verdict.splits dest!: read_only_calls\<close>)
qed

lemma pc_run_dirs:
  assumes "upload_ok fs l" "pc_ok fs pc" "pc_run (abs_path l) s input n (pc, fs) = (pc', fs')"
  shows "dirs_within l fs fs'"
  using assms
proof (induction n arbitrary: pc fs)
  case (Suc n)
  obtain pc1 fs1 where 1: "pc_step (abs_path l) s input pc fs = (pc1, fs1)" by fastforce
  note f = pc_step_frame [OF Suc.prems(1,2) 1]
  then have "upload_ok fs1 l" "pc_ok fs1 pc1"
    using upload_ok_frame [OF _ Suc.prems(1)] by (auto simp: step_frame_def)
  from Suc.IH [OF this] Suc.prems(3) 1 pc_step_dirs [OF Suc.prems(1,2) 1] show ?case
    by (auto intro: dirs_within_trans)
qed simp

lemma store_stream_dirs:
  assumes "upload_ok fs l" "store_stream (abs_path l) s input fs = (r, fs')"
  shows "dirs_within l fs fs'"
proof -
  from run_check [OF le_refl, of "abs_path l" s input fs] assms(2)
  have "pc_run (abs_path l) s input (length (fst input) + 8) (PCheck, fs) = (PDone r, fs')" by simp
  from pc_run_dirs [OF assms(1) _ this] show ?thesis by (simp add: pc_ok_def)
qed

lemma spec_store_others:
  assumes "spec_store C l s input = (r, C')"
  shows "k \<noteq> l \<Longrightarrow> k \<noteq> stg l \<Longrightarrow> C' k = C k" and "C l = None \<Longrightarrow> l \<noteq> [] \<Longrightarrow> C' (stg l) = None"
  using assms by (auto simp: spec_store_def Let_def split: if_splits option.splits)

lemma dent_no_file: "content fs k = None \<Longrightarrow> dent_at fs k \<noteq> Some (DFile i)"
  by (auto simp: content_def)

lemma dent_kinds:
  "dent_at fs k = None \<or> dent_at fs k = Some DDir \<or> (\<exists>i. dent_at fs k = Some (DFile i)) \<or>
    (\<exists>t. dent_at fs k = Some (DSym t))"
  by (metis dent.exhaust option.exhaust)

lemma upload_room_after:
  assumes room: "upload_room fs l" and ff: "faults fs = []"
    and run: "store_stream (abs_path l) s input fs = (r, fs')"
  shows "upload_room fs' l"
proof (cases "content fs l = None")
  case False
  from room have "l \<noteq> []" by (simp add: upload_room_def)
  with room_exists [OF room ff] False run room show ?thesis by (simp add: store_stream_abs)
next
  case True
  from room have ne: "l \<noteq> []" and above: "room_for_dir fs (butlast l)"
    and free: "\<forall>k \<in> {l, stg l}. dent_at fs k = None \<or> (\<exists>i. dent_at fs k = Some (DFile i))"
    by (simp_all add: upload_room_def)
  from store_stream_inv [OF upload_room_ok [OF room] run] have inv: "up_inv fs l fs'" by blast
  note ev = up_inv_elims(5) [OF inv]
  note dirs = store_stream_dirs [OF upload_room_ok [OF room] run]
  note spec = spec_store_others [OF store_stream_ok [OF room ff run, symmetric]]
  have sym: "dent_at fs' k = Some (DSym t) \<Longrightarrow> dent_at fs k = Some (DSym t)" for k t
    using ev unfolding evolves_def by blast
  have "dent_at fs' k = None \<or> dent_at fs' k = Some DDir" if k: "prefix k (butlast l)" for k
  proof -
    from above k have d: "dent_at fs k = None \<or> dent_at fs k = Some DDir" by (simp add: room_for_dir_def)
    from k have "k \<noteq> l" "k \<noteq> stg l" using not_prefix_butlast [of l] not_prefix_butlast [of "stg l"] ne by auto
    then have "content fs' k = None" using spec(1) d by (auto simp: content_def)
    with d sym [of k] dent_no_file [of fs' k] dent_kinds [of fs' k] show ?thesis by auto
  qed
  moreover have "dent_at fs' k = None \<or> (\<exists>i. dent_at fs' k = Some (DFile i))" if k: "k \<in> {l, stg l}" for k
  proof -
    from k have "k \<notin> dirs_to (butlast l)" using stg_not_dir ne by auto
    then have "dent_at fs' k \<noteq> Some DDir" using dirs free k unfolding dirs_within_def by force
    moreover have "dent_at fs' k \<noteq> Some (DSym t)" for t using sym [of k t] free k by force
    ultimately show ?thesis using dent_kinds [of fs' k] by blast
  qed
  moreover have "unaliased fs' (stg l)"
    using dent_no_file [OF spec(2) [OF True ne]] by (simp add: unaliased_def)
  ultimately show ?thesis using up_inv_elims(1,2) [OF inv] by (simp add: upload_room_def room_for_dir_def)
qed

section \<open>The attempts refine the specification\<close>

lemma attempts_refine:
  assumes "upload_room fs l" "attempts l as fs = (rs, fs')"
  shows "(rs, content fs') = spec_attempts l as (content fs)"
  using assms
proof (induction as arbitrary: fs rs)
  case (Cons a as)
  obtain s input where a: "a = (s, input)" by (cases a)
  obtain r fs1 where 1: "store_stream (abs_path l) s input (fs\<lparr>faults := []\<rparr>) = (r, fs1)" by fastforce
  obtain rs2 where 2: "attempts l as fs1 = (rs2, fs')" "rs = r # rs2"
    using Cons.prems(2) 1 a by (auto split: prod.splits)
  have room: "upload_room (fs\<lparr>faults := []\<rparr>) l" using Cons.prems(1) by simp
  from store_stream_ok [OF room _ 1] have "(r, content fs1) = spec_store (content fs) l s input" by simp
  moreover from upload_room_after [OF room _ 1] have "upload_room fs1 l" by simp
  then have "(rs2, content fs') = spec_attempts l as (content fs1)" using 2(1) by (rule Cons.IH)
  ultimately show ?case using 2(2) a by (auto split: prod.splits)
qed simp

text \<open>On the abstract store: nothing staged stays nothing staged, so offsets other than 0 are refused.\<close>

lemma spec_attempts_finished:
  "C l = Some b \<Longrightarrow> spec_attempts l as C = (map (\<lambda>_. Inl SFinalized) as, C)"
  by (induction as) (auto simp: spec_store_def)

lemma spec_attempts_whole:
  assumes "spec_attempts l as C = (rs, C')" "C (stg l) = None" "l \<noteq> []"
    and "j < length as" "rs ! j = Inr n"
  shows "fst (as ! j) = 0 \<and> snd (snd (as ! j)) = None \<and> n = length (concat (fst (snd (as ! j)))) \<and>
    C' l = Some (concat (fst (snd (as ! j)))) \<and> (\<forall>i < length as. i \<noteq> j \<longrightarrow> (\<exists>e. rs ! i = Inl e))"
  using assms
proof (induction as arbitrary: C rs j)
  case (Cons a as)
  obtain s input where a: "a = (s, input)" by (cases a)
  obtain r C1 where 1: "spec_store C l s input = (r, C1)" by fastforce
  obtain rs2 where 2: "spec_attempts l as C1 = (rs2, C')" "rs = r # rs2"
    using Cons.prems(1) a 1 by (auto split: prod.splits)
  show ?case
  proof (cases "C1 l")
    case None
    then have r: "\<exists>e. r = Inl e" and st: "C1 (stg l) = None"
      using 1 Cons.prems(2,3) by (auto simp: spec_store_def Let_def split: if_splits option.splits)
    then obtain i where j: "j = Suc i" using Cons.prems(5) 2(2) by (cases j) auto
    with Cons.IH [OF 2(1) st Cons.prems(3), of i] Cons.prems(4,5) 2(2) r show ?thesis
      by (auto simp: nth_Cons split: nat.splits)
  next
    case (Some b)
    from spec_attempts_finished [of C1 l b as] Some 2(1) have fin: "rs2 = map (\<lambda>_. Inl SFinalized) as" "C' = C1" by auto
    then have j: "j = 0" using Cons.prems(4,5) 2(2) by (cases j) auto
    with 1 Cons.prems(2,3,5) 2(2) fin a show ?thesis
      by (auto simp: spec_store_def Let_def nth_Cons split: if_splits option.splits nat.splits)
  qed
qed simp

text \<open>A camera loses the connection after two bytes, tries to go on from there, and starts again.\<close>

definition clip :: loc where
  "clip = [''srv'', ''cam'', ''x.mp4'']"

definition three_tries :: "(nat \<times> reader) list" where
  "three_tries = [(0, ([''ab''], Some (EOther ''reset''))), (2, ([''c''], None)), (0, ([''ab'', ''c''], None))]"

lemma clip_room: "upload_room demo_fs clip"
proof -
  have d: "dent_at demo_fs clip = None" "dent_at demo_fs (stg clip) = None"
    "dent_at demo_fs [''srv''] = Some DDir" "dent_at demo_fs [''srv'', ''cam''] = Some DDir" by code_simp+
  have "dent_at demo_fs k = Some DDir" if "prefix k [''srv'', ''cam'']" for k
    using that d(3,4) by (auto simp: prefix_Cons)
  then have "room_for_dir demo_fs (butlast clip)" by (simp add: room_for_dir_def clip_def)
  moreover have "clip \<noteq> []" by (simp add: clip_def)
  ultimately show ?thesis using d demo_fs_wf by (simp add: upload_room_def unaliased_def)
qed

lemma three_tries_spec:
  "C clip = None \<Longrightarrow> C (stg clip) = None \<Longrightarrow> spec_attempts clip three_tries C =
     ([Inl (SIo (EOther ''reset'')), Inl SGap, Inr 3], C(stg clip := None, clip \<mapsto> ''abc''))"
  by (simp add: three_tries_def spec_store_def clip_def)

lemma clip_absent: "content demo_fs clip = None" "content demo_fs (stg clip) = None"
  by code_simp+

text \<open>
  (C10) A sequence of attempts to upload one file, each with an offset and an input that may break off,
  gives the answers and the contents of the same sequence on the abstract store, for every state
  with room for the upload and whatever is staged at first.
\<close>

theorem attempts_refine_spec:
  assumes "upload_room fs l"
  shows "case attempts l as fs of (rs, fs') \<Rightarrow> (rs, content fs') = spec_attempts l as (content fs)"
  using attempts_refine [OF assms] by (cases "attempts l as fs") auto

theorem attempts_refine_spec_witness:
  "fst (attempts clip three_tries demo_fs) = [Inl (SIo (EOther ''reset'')), Inl SGap, Inr 3] \<and>
   content (snd (attempts clip three_tries demo_fs)) = (content demo_fs)(stg clip := None, clip \<mapsto> ''abc'')"
  using attempts_refine_spec [OF clip_room, of three_tries] three_tries_spec [of "content demo_fs"] clip_absent
  by (auto split: prod.splits)

text \<open>
  (C11) An upload that broke off cannot be resumed: when nothing is staged at first, then of any
  sequence of attempts only one can succeed, it starts at offset 0 with an input that is received
  to the end, and the file holds exactly the bytes of that one attempt: parts of different attempts
  are never put together, and \<^verbatim>\<open>REST\<close> with the number of bytes sent before is refused.
\<close>

theorem broken_uploads_restart:
  assumes "upload_room fs l" "content fs (stg l) = None" "attempts l as fs = (rs, fs')"
    and "j < length as" "rs ! j = Inr n"
  shows "fst (as ! j) = 0 \<and> snd (snd (as ! j)) = None \<and> n = length (concat (fst (snd (as ! j)))) \<and>
    content fs' l = Some (concat (fst (snd (as ! j)))) \<and> (\<forall>i < length as. i \<noteq> j \<longrightarrow> (\<exists>e. rs ! i = Inl e))"
proof -
  from assms(1) have "l \<noteq> []" by (simp add: upload_room_def)
  from spec_attempts_whole [OF attempts_refine [OF assms(1,3), symmetric] assms(2) this assms(4,5)]
  show ?thesis .
qed

theorem broken_uploads_restart_witness:
  "content (snd (attempts clip three_tries demo_fs)) clip = Some ''abc''"
proof -
  obtain rs fs' where run: "attempts clip three_tries demo_fs = (rs, fs')" by fastforce
  with attempts_refine [OF clip_room] three_tries_spec [of "content demo_fs"] clip_absent
  have "rs ! 2 = Inr 3" by fastforce
  from broken_uploads_restart [OF clip_room clip_absent(2) run _ this] run show ?thesis
    by (simp add: three_tries_def)
qed

end
