(* ===== verification/Retention.thy ===== *)
theory Retention
  imports FS_Frame Append
begin

text \<open>
  \<^verbatim>\<open>src/retention.rs\<close>: the sweep that deletes old files and empty directories.  Times are counted
  in nanoseconds since the epoch, as \<^verbatim>\<open>SystemTime\<close> and \<^verbatim>\<open>Duration\<close> are.  \<open>visit\<close> recurses over
  directories; its fuel bounds the depth, and \<open>sweep\<close> starts it with more than the depth of the
  tree, so that it always returns (\<open>sweep_terminates\<close>).
\<close>

record sweep_report =
  deleted :: "path list"
  pruned_dirs :: "path list"

text \<open>The parameters that \<^verbatim>\<open>sweep\<close> and \<^verbatim>\<open>visit\<close> hand down unchanged.\<close>

record sweep_args =
  retention :: nat
  quarantine_ttl :: nat
  staging_ttl :: nat
  sweep_now :: nat
  dry_run :: bool

definition older_than :: "path \<Rightarrow> nat \<Rightarrow> nat \<Rightarrow> fs \<Rightarrow> bool \<times> fs" where
  "older_than p ttl now fs =
     (case fs_metadata p fs of
        (Inl _, fs) \<Rightarrow> (False, fs)
      | (Inr mt, fs) \<Rightarrow> (m_modified mt \<le> now \<and> ttl < now - m_modified mt, fs))"

definition ttl_for :: "sweep_args \<Rightarrow> bool \<Rightarrow> string \<Rightarrow> nat" where
  "ttl_for a in_quarantine name =
     (if in_quarantine then quarantine_ttl a
      else if str_ends_with (if utf8_valid (map of_char name) then name else []) STAGING_SUFFIX then staging_ttl a
      else retention a)"

text \<open>The branch for anything but a directory.\<close>

definition visit_file ::
    "sweep_args \<Rightarrow> bool \<Rightarrow> path \<Rightarrow> string \<Rightarrow> sweep_report \<Rightarrow> fs \<Rightarrow> (io_kind + unit) \<times> sweep_report \<times> fs" where
  "visit_file a in_quarantine p name rep fs =
     (case older_than p (ttl_for a in_quarantine name) (sweep_now a) fs of (old, fs) \<Rightarrow>
        if old then
          (let rep = rep\<lparr>deleted := deleted rep @ [p]\<rparr>
           in if dry_run a then (Inr (), rep, fs) else (case fs_remove_file p fs of (r, fs) \<Rightarrow> (r, rep, fs)))
        else (Inr (), rep, fs))"

text \<open>Pruning: a directory that lists no entry.  A failure to read the entry counts as one.\<close>

definition prune_dir ::
    "sweep_args \<Rightarrow> path \<Rightarrow> sweep_report \<Rightarrow> fs \<Rightarrow> (io_kind + unit) \<times> sweep_report \<times> fs" where
  "prune_dir a p rep fs =
     (case fs_read_dir p fs of
        (Inl e, fs) \<Rightarrow> (Inl e, rep, fs)
      | (Inr (l, names), fs) \<Rightarrow>
          (case fs_next_entry fs of
             (Inl _, fs) \<Rightarrow> (Inr (), rep, fs)
           | (Inr _, fs) \<Rightarrow>
               if names = [] then
                 (let rep = rep\<lparr>pruned_dirs := pruned_dirs rep @ [p]\<rparr>
                  in if dry_run a then (Inr (), rep, fs) else (Inr (), rep, snd (fs_remove_dir p fs)))
               else (Inr (), rep, fs)))"

text \<open>\<^verbatim>\<open>DirEntry::file_type\<close>: does not follow a link.\<close>

definition fs_entry_is_dir :: "loc \<Rightarrow> bool io" where
  "fs_entry_is_dir l = syscall (\<lambda>fs.
     (case dent_at fs l of None \<Rightarrow> Inl ENotFound | Some d \<Rightarrow> Inr (d = DDir), fs))"

text \<open>\<open>None\<close> is the out-of-fuel answer, which \<open>sweep\<close> never gives.\<close>

fun visit :: "nat \<Rightarrow> sweep_args \<Rightarrow> path \<Rightarrow> sweep_report \<Rightarrow> fs \<Rightarrow> ((io_kind + unit) \<times> sweep_report \<times> fs) option"
  and visit_loop :: "nat \<Rightarrow> sweep_args \<Rightarrow> path \<Rightarrow> loc \<Rightarrow> string list \<Rightarrow> sweep_report \<Rightarrow> fs \<Rightarrow>
    ((io_kind + unit) \<times> sweep_report \<times> fs) option" where
  "visit 0 a dir rep fs = None"
| "visit (Suc n) a dir rep fs =
     (case fs_read_dir dir fs of
        (Inl e, fs) \<Rightarrow> Some (Inl e, rep, fs)
      | (Inr (l, names), fs) \<Rightarrow> visit_loop n a dir l names rep fs)"
| "visit_loop n a dir l [] rep fs =
     (case fs_next_entry fs of (r, fs) \<Rightarrow> Some (r, rep, fs))"
| "visit_loop n a dir l (x # xs) rep fs =
     (case fs_next_entry fs of
        (Inl e, fs) \<Rightarrow> Some (Inl e, rep, fs)
      | (Inr _, fs) \<Rightarrow>
          (case fs_entry_is_dir (l @ [x]) fs of
             (Inl e, fs) \<Rightarrow> Some (Inl e, rep, fs)
           | (Inr is_dir, fs) \<Rightarrow>
               (case (if is_dir then
                        (case visit n a (path_join dir [Normal x]) rep fs of
                           Some (Inr _, rep, fs) \<Rightarrow> Some (prune_dir a (path_join dir [Normal x]) rep fs)
                         | other \<Rightarrow> other)
                      else Some (visit_file a (path_file_name dir = Some QUARANTINE_DIR)
                             (path_join dir [Normal x]) x rep fs)) of
                  Some (Inr _, rep, fs) \<Rightarrow> visit_loop n a dir l xs rep fs
                | other \<Rightarrow> other)))"

text \<open>The depth of the tree, and the sweep with more fuel than that.\<close>

definition depth :: "fs \<Rightarrow> nat" where
  "depth fs = fold max (map (length \<circ> fst) (ents fs)) 0"

definition sweep :: "path \<Rightarrow> sweep_args \<Rightarrow> fs \<Rightarrow> ((io_kind + sweep_report) \<times> fs) option" where
  "sweep root a fs =
     (case visit (Suc (depth fs)) a root \<lparr>deleted = [], pruned_dirs = []\<rparr> fs of
        None \<Rightarrow> None
      | Some (Inl e, rep, fs) \<Rightarrow> Some (Inl e, fs)
      | Some (Inr _, rep, fs) \<Rightarrow> Some (Inr rep, fs))"

section \<open>The sweep always returns\<close>

lemma fold_max_le: "x \<in> set xs \<or> x \<le> m \<Longrightarrow> x \<le> fold max xs m" for x m :: nat
  by (induction xs arbitrary: m) fastforce+

lemma length_depth: "dent_at fs l \<noteq> None \<Longrightarrow> length l \<le> depth fs"
proof -
  assume "dent_at fs l \<noteq> None"
  then have "l = [] \<or> length l \<in> set (map (length \<circ> fst) (ents fs))"
    using dent_at_ents [of fs l] by (cases "l = []") force+
  then show ?thesis unfolding depth_def using fold_max_le by (metis le0 list.size(3))
qed

text \<open>The sweep only removes entries.\<close>

definition fewer :: "fs \<Rightarrow> fs \<Rightarrow> bool" where
  "fewer fs0 fs \<longleftrightarrow> cwd fs = cwd fs0 \<and> inodes fs = inodes fs0 \<and> dent_at fs \<subseteq>\<^sub>m dent_at fs0"

lemma fewer_refl [simp]: "fewer fs fs"
  by (simp add: fewer_def)

lemma fewer_faults [simp]: "fewer fs0 (fs\<lparr>faults := fl\<rparr>) = fewer fs0 fs"
  by (simp add: fewer_def)

lemma fewer_del [simp]:
  assumes "fewer fs0 fs"
  shows "fewer fs0 (del_ent l fs)"
proof -
  have "dent_at (del_ent l fs) \<subseteq>\<^sub>m dent_at fs"
    by (auto simp: map_le_def dent_at_def del_ent_def delete_conv' split: if_splits)
  with assms show ?thesis using map_le_trans by (auto simp: fewer_def del_ent_def)
qed

lemma fewer_dent: "fewer fs0 fs \<Longrightarrow> dent_at fs l = Some d \<Longrightarrow> dent_at fs0 l = Some d"
  by (auto simp: fewer_def map_le_def dom_def)

lemma walk_fewer:
  assumes "E' \<subseteq>\<^sub>m E" "walk E' n cur cs = Inr (l, True)"
  shows "walk E n cur cs = Inr (l, True)"
  using assms
proof (induction E' n cur cs rule: walk.induct)
  case (6 E' n cur x cs)
  from "6.prems"(2) obtain d where d: "E' (cur @ [x]) = Some d" by (auto split: option.splits if_splits)
  with "6.prems"(1) have "E (cur @ [x]) = Some d" by (metis domI map_le_def)
  show ?case
  proof (cases d)
    case (DSym t)
    with 6 d \<open>E (cur @ [x]) = Some d\<close> show ?thesis by (cases n) simp_all
  qed (use 6 d \<open>E (cur @ [x]) = Some d\<close> in \<open>simp_all split: if_splits\<close>)
qed auto

lemma lookup_fewer:
  assumes "fewer fs0 fs" "lookup fs p = Inr (l, d)"
  shows "lookup fs0 p = Inr (l, d)"
proof -
  from assms(2) have "walk (dent_at fs) MAXSYMLINKS (cwd fs) p = Inr (l, True)" and d: "dent_at fs l = Some d"
    by (auto simp: lookup_def locate_def split: sum.splits prod.splits if_splits option.splits)
  with walk_fewer [of "dent_at fs" "dent_at fs0"] assms(1) have "locate fs0 p = Inr (l, True)"
    by (simp add: locate_def fewer_def)
  with fewer_dent [OF assms(1) d] show ?thesis by (simp add: lookup_def)
qed

lemma older_than_state: "older_than p ttl now fs = (old, fs') \<Longrightarrow> \<exists>fl. fs' = fs\<lparr>faults := fl\<rparr>"
  by (auto simp: older_than_def split: prod.splits sum.splits dest!: fs_metadata_state)

lemma fs_entry_is_dir_state: "fs_entry_is_dir l fs = (r, fs') \<Longrightarrow> \<exists>fl. fs' = fs\<lparr>faults := fl\<rparr>"
  unfolding fs_entry_is_dir_def by (erule syscall_cases) auto

lemma fs_remove_file_fewer: "fs_remove_file p fs = (r, fs') \<Longrightarrow> fewer fs0 fs \<Longrightarrow> fewer fs0 fs'"
  unfolding fs_remove_file_def by (erule syscall_cases) (auto split: sum.splits option.splits dent.splits)

lemma fs_remove_dir_fewer: "fs_remove_dir p fs = (r, fs') \<Longrightarrow> fewer fs0 fs \<Longrightarrow> fewer fs0 fs'"
  unfolding fs_remove_dir_def by (erule syscall_cases) (auto split: sum.splits option.splits dent.splits if_splits)

lemma visit_file_fewer: "visit_file a q p x rep fs = (r, rep', fs') \<Longrightarrow> fewer fs0 fs \<Longrightarrow> fewer fs0 fs'"
  by (auto simp: visit_file_def Let_def split: prod.splits if_splits dest!: older_than_state fs_remove_file_fewer)

lemma prune_dir_fewer: "prune_dir a p rep fs = (r, rep', fs') \<Longrightarrow> fewer fs0 fs \<Longrightarrow> fewer fs0 fs'"
  by (cases "fs_remove_dir p (snd (fs_next_entry (snd (fs_read_dir p fs))))")
    (auto simp: prune_dir_def Let_def split: prod.splits sum.splits if_splits
      dest!: fs_read_dir_state fs_next_entry_state dest: fs_remove_dir_fewer)

lemma fs_read_dir_Inr: "fs_read_dir p fs = (Inr (l, names), fs') \<Longrightarrow> lookup fs p = Inr (l, DDir)"
  unfolding fs_read_dir_def by (erule syscall_cases) (auto split: sum.splits if_splits)

lemma fs_entry_is_dir_Inr: "fs_entry_is_dir l fs = (Inr b, fs') \<Longrightarrow> \<exists>d. dent_at fs l = Some d \<and> b = (d = DDir)"
  unfolding fs_entry_is_dir_def by (erule syscall_cases) (auto split: option.splits)

text \<open>The body of the loop for one entry.\<close>

definition visit_entry ::
    "nat \<Rightarrow> sweep_args \<Rightarrow> path \<Rightarrow> string \<Rightarrow> bool \<Rightarrow> sweep_report \<Rightarrow> fs \<Rightarrow> ((io_kind + unit) \<times> sweep_report \<times> fs) option" where
  "visit_entry n a dir x is_dir rep fs =
     (if is_dir then
        (case visit n a (path_join dir [Normal x]) rep fs of
           Some (Inr _, rep, fs) \<Rightarrow> Some (prune_dir a (path_join dir [Normal x]) rep fs)
         | other \<Rightarrow> other)
      else Some (visit_file a (path_file_name dir = Some QUARANTINE_DIR) (path_join dir [Normal x]) x rep fs))"

lemma visit_loop_Cons:
  "visit_loop n a dir l (x # xs) rep fs =
     (case fs_next_entry fs of
        (Inl e, fs) \<Rightarrow> Some (Inl e, rep, fs)
      | (Inr _, fs) \<Rightarrow>
          (case fs_entry_is_dir (l @ [x]) fs of
             (Inl e, fs) \<Rightarrow> Some (Inl e, rep, fs)
           | (Inr is_dir, fs) \<Rightarrow>
               (case visit_entry n a dir x is_dir rep fs of
                  Some (Inr _, rep, fs) \<Rightarrow> visit_loop n a dir l xs rep fs
                | other \<Rightarrow> other)))"
  unfolding visit_entry_def visit_loop.simps by (rule refl)

declare visit_loop.simps(2) [simp del]

definition visits :: "fs \<Rightarrow> nat \<Rightarrow> sweep_args \<Rightarrow> path \<Rightarrow> bool" where
  "visits fs0 n a dir \<longleftrightarrow> (\<forall>rep fs. fewer fs0 fs \<longrightarrow> (\<exists>r rep' fs'. visit n a dir rep fs = Some (r, rep', fs') \<and> fewer fs0 fs'))"

lemma visit_entry_total:
  assumes "is_dir \<Longrightarrow> visits fs0 n a (dir @ [Normal x])" "fewer fs0 fs"
  shows "\<exists>r rep' fs'. visit_entry n a dir x is_dir rep fs = Some (r, rep', fs') \<and> fewer fs0 fs'"
proof (cases is_dir)
  case True
  with assms obtain r rep1 fs1 where v: "visit n a (dir @ [Normal x]) rep fs = Some (r, rep1, fs1)" "fewer fs0 fs1"
    unfolding visits_def by blast
  obtain r2 rep2 fs2 where p: "prune_dir a (dir @ [Normal x]) rep1 fs1 = (r2, rep2, fs2)" by (cases "prune_dir a (dir @ [Normal x]) rep1 fs1")
  with prune_dir_fewer [OF p v(2)] v True show ?thesis
    by (cases r) (simp_all add: visit_entry_def path_join_Normal)
next
  case False
  obtain r2 rep2 fs2 where p: "visit_file a (path_file_name dir = Some QUARANTINE_DIR) (dir @ [Normal x]) x rep fs = (r2, rep2, fs2)"
    by (cases "visit_file a (path_file_name dir = Some QUARANTINE_DIR) (dir @ [Normal x]) x rep fs")
  with visit_file_fewer [OF p assms(2)] False show ?thesis by (simp add: visit_entry_def path_join_Normal)
qed

lemma visit_loop_total:
  assumes sub: "\<And>x. dent_at fs0 (l @ [x]) = Some DDir \<Longrightarrow> visits fs0 n a (dir @ [Normal x])"
  shows "fewer fs0 fs \<Longrightarrow> \<exists>r rep' fs'. visit_loop n a dir l xs rep fs = Some (r, rep', fs') \<and> fewer fs0 fs'"
proof (induction xs arbitrary: rep fs)
  case Nil
  then show ?case by (cases "fs_next_entry fs") (auto dest!: fs_next_entry_state)
next
  case (Cons x xs)
  obtain r1 fs1 where 1: "fs_next_entry fs = (r1, fs1)" by fastforce
  then have f1: "fewer fs0 fs1" using fs_next_entry_state [OF 1] Cons.prems by auto
  obtain r2 fs2 where 2: "fs_entry_is_dir (l @ [x]) fs1 = (r2, fs2)" by fastforce
  then have f2: "fewer fs0 fs2" using fs_entry_is_dir_state [OF 2] f1 by auto
  show ?case
  proof (cases "\<exists>u is_dir. r1 = Inr u \<and> r2 = Inr is_dir")
    case True
    then obtain u is_dir where r: "r1 = Inr u" "r2 = Inr is_dir" by blast
    with 2 fs_entry_is_dir_Inr [of "l @ [x]" fs1 is_dir fs2] fewer_dent [OF f1]
    have "is_dir \<Longrightarrow> visits fs0 n a (dir @ [Normal x])" by (auto intro: sub)
    from visit_entry_total [OF this f2] obtain r3 rep3 fs3 where
      3: "visit_entry n a dir x is_dir rep fs2 = Some (r3, rep3, fs3)" "fewer fs0 fs3" by blast
    with Cons.IH [OF 3(2), of rep3] 1 2 r show ?thesis by (cases r3) (auto simp: visit_loop_Cons)
  next
    case False
    with 1 2 f1 f2 show ?thesis by (cases r1; cases r2) (auto simp: visit_loop_Cons)
  qed
qed

lemma visit_total:
  assumes wf: "fs_wf fs0"
  shows "0 < n \<Longrightarrow> (\<And>l. lookup fs0 dir = Inr (l, DDir) \<Longrightarrow> depth fs0 < n + length l) \<Longrightarrow> visits fs0 n a dir"
proof (induction n arbitrary: dir)
  case (Suc n)
  have "\<exists>r rep' fs'. visit (Suc n) a dir rep fs = Some (r, rep', fs') \<and> fewer fs0 fs'" if f: "fewer fs0 fs" for rep fs
  proof -
    obtain r fs1 where 1: "fs_read_dir dir fs = (r, fs1)" by fastforce
    then have f1: "fewer fs0 fs1" using fs_read_dir_state [OF 1] f by auto
    show ?thesis
    proof (cases r)
      case (Inr y)
      then obtain l names where y: "r = Inr (l, names)" by (cases y) auto
      with fs_read_dir_Inr [of dir fs l names fs1] 1 lookup_fewer [OF f]
      have l: "lookup fs0 dir = Inr (l, DDir)" by blast
      have "visits fs0 n a (dir @ [Normal x])" if x: "dent_at fs0 (l @ [x]) = Some DDir" for x
      proof (rule Suc.IH)
        have "length (l @ [x]) \<le> depth fs0" using length_depth [of fs0 "l @ [x]"] x by simp
        with Suc.prems(2) [OF l] show "0 < n" by simp
        show "depth fs0 < n + length k" if "lookup fs0 (dir @ [Normal x]) = Inr (k, DDir)" for k
          using that lookup_child [OF wf l x] Suc.prems(2) [OF l] by auto
      qed
      from visit_loop_total [OF this f1] 1 y show ?thesis by simp
    qed (use 1 f1 in simp)
  qed
  then show ?case by (simp add: visits_def)
qed simp

lemma sweep_total:
  assumes "fs_wf fs"
  shows "\<exists>r fs'. sweep root a fs = Some (r, fs') \<and> fewer fs fs'"
proof -
  have "visits fs (Suc (depth fs)) a root" by (rule visit_total [OF assms]) simp_all
  then obtain r rep fs' where
    "visit (Suc (depth fs)) a root \<lparr>deleted = [], pruned_dirs = []\<rparr> fs = Some (r, rep, fs')" and f: "fewer fs fs'"
    unfolding visits_def using fewer_refl by blast
  then show ?thesis by (cases r) (auto simp: sweep_def)
qed

text \<open>
  (C20) The sweep always returns: for every tree, every root path, every setting and every failure of
  the file system the recursion ends (with a report or an error), and all it has done is to remove
  entries.
\<close>

theorem sweep_terminates:
  assumes "fs_wf fs"
  shows "\<exists>r fs'. sweep root a fs = Some (r, fs') \<and> inodes fs' = inodes fs \<and>
    (\<forall>l d. dent_at fs' l = Some d \<longrightarrow> dent_at fs l = Some d)"
  using sweep_total [OF assms, of root a] fewer_dent by (auto simp: fewer_def)

theorem sweep_terminates_witness:
  "\<exists>r fs'. sweep (path_new ''/srv'') \<lparr>retention = 1, quarantine_ttl = 1, staging_ttl = 1, sweep_now = 9, dry_run = False\<rparr> demo_fs =
    Some (r, fs')"
  using sweep_terminates [OF demo_fs_wf] by blast

section \<open>What a sweep deletes\<close>

text \<open>The age limit of a regular file, by its name and the name of its directory.\<close>

definition expired :: "sweep_args \<Rightarrow> fs \<Rightarrow> loc \<Rightarrow> nat \<Rightarrow> bool" where
  "expired a fs k i \<longleftrightarrow> mtime_of fs i \<le> sweep_now a \<and>
     ttl_for a (butlast k \<noteq> [] \<and> last (butlast k) = QUARANTINE_DIR) (last k) < sweep_now a - mtime_of fs i"

text \<open>
  The effect of sweeping the region \<open>R\<close> of the tree when no call fails, with \<open>D\<close> the paths reported
  as deleted.
\<close>

definition swept :: "sweep_args \<Rightarrow> loc set \<Rightarrow> fs \<Rightarrow> fs \<Rightarrow> path list \<Rightarrow> bool" where
  "swept a R fs fs' D \<longleftrightarrow> faults fs' = [] \<and> fs_wf fs' \<and> fewer fs fs' \<and>
     (\<forall>k. k \<notin> R \<longrightarrow> dent_at fs' k = dent_at fs k) \<and>
     (\<forall>k \<in> R. \<forall>i. dent_at fs k = Some (DFile i) \<longrightarrow>
        dent_at fs' k = (if expired a fs k i \<and> \<not> dry_run a then None else Some (DFile i)) \<and>
        (abs_path k \<in> set D \<longleftrightarrow> expired a fs k i)) \<and>
     (\<not> dry_run a \<longrightarrow> (\<forall>k \<in> R. dent_at fs' k = Some DDir \<longrightarrow> (\<exists>x. dent_at fs' (k @ [x]) \<noteq> None))) \<and>
     (dry_run a \<longrightarrow> fs' = fs) \<and> set D \<subseteq> abs_path ` R"

lemma sweptD:
  assumes "swept a R fs fs' D"
  shows "faults fs' = []" "fs_wf fs'" "fewer fs fs'" "k \<notin> R \<Longrightarrow> dent_at fs' k = dent_at fs k"
    "dry_run a \<Longrightarrow> fs' = fs" "set D \<subseteq> abs_path ` R"
    "k \<in> R \<Longrightarrow> dent_at fs k = Some (DFile i) \<Longrightarrow>
      dent_at fs' k = (if expired a fs k i \<and> \<not> dry_run a then None else Some (DFile i))"
    "k \<in> R \<Longrightarrow> dent_at fs k = Some (DFile i) \<Longrightarrow> abs_path k \<in> set D \<longleftrightarrow> expired a fs k i"
    "\<not> dry_run a \<Longrightarrow> k \<in> R \<Longrightarrow> dent_at fs' k = Some DDir \<Longrightarrow> \<exists>x. dent_at fs' (k @ [x]) \<noteq> None"
  using assms unfolding swept_def by blast+

lemma swept_empty: "fs_wf fs \<Longrightarrow> faults fs = [] \<Longrightarrow> swept a {} fs fs []"
  by (simp add: swept_def)

lemma fewer_trans: "fewer fs fs1 \<Longrightarrow> fewer fs1 fs2 \<Longrightarrow> fewer fs fs2"
  by (auto simp: fewer_def intro: map_le_trans)

lemma fewer_expired: "fewer fs fs' \<Longrightarrow> expired a fs' k i = expired a fs k i"
  by (simp add: fewer_def expired_def mtime_of_def)

lemma fewer_nolinks: "fewer fs fs' \<Longrightarrow> nolinks fs l \<Longrightarrow> nolinks fs' l"
  unfolding nolinks_def using fewer_dent by blast

lemma swept_trans:
  assumes 1: "swept a R1 fs fs1 D1" and 2: "swept a R2 fs1 fs2 D2"
    and disj: "R1 \<inter> R2 = {}" and up: "\<And>k x. k \<in> R1 \<Longrightarrow> k @ [x] \<in> R1"
  shows "swept a (R1 \<union> R2) fs fs2 (D1 @ D2)"
  unfolding swept_def
proof (intro conjI allI ballI impI)
  note d1 = sweptD [OF 1] and d2 = sweptD [OF 2]
  show "faults fs2 = []" "fs_wf fs2" by (fact d2(1), fact d2(2))
  show "fewer fs fs2" by (rule fewer_trans [OF d1(3) d2(3)])
  show "dent_at fs2 k = dent_at fs k" if "k \<notin> R1 \<union> R2" for k using that d1(4) d2(4) by simp
  show "fs2 = fs" if "dry_run a" using d1(5) d2(5) that by simp
  show "set (D1 @ D2) \<subseteq> abs_path ` (R1 \<union> R2)" using d1(6) d2(6) by auto
  show "\<exists>x. dent_at fs2 (k @ [x]) \<noteq> None" if "\<not> dry_run a" "k \<in> R1 \<union> R2" "dent_at fs2 k = Some DDir" for k
  proof (cases "k \<in> R1")
    case True
    with disj have "k \<notin> R2" by auto
    with that d2(4) have "dent_at fs1 k = Some DDir" by simp
    with d1(9) True that(1) obtain x where "dent_at fs1 (k @ [x]) \<noteq> None" by blast
    moreover have "k @ [x] \<notin> R2" using up [OF True] disj by auto
    ultimately show ?thesis using d2(4) by metis
  qed (use that d2(9) in blast)
  fix k i
  assume k: "k \<in> R1 \<union> R2" and f: "dent_at fs k = Some (DFile i)"
  have D1: "abs_path k \<in> set D1 \<Longrightarrow> k \<in> R1" using d1(6) by auto
  have D2: "abs_path k \<in> set D2 \<Longrightarrow> k \<in> R2" using d2(6) by auto
  note exp = fewer_expired [OF d1(3), of a k i]
  consider "k \<in> R1" "k \<notin> R2" | "k \<notin> R1" "k \<in> R2" using k disj by blast
  then have "dent_at fs2 k = (if expired a fs k i \<and> \<not> dry_run a then None else Some (DFile i)) \<and>
      (abs_path k \<in> set (D1 @ D2) \<longleftrightarrow> expired a fs k i)"
  proof cases
    case 1
    with d1(7,8) [OF 1(1) f] d2(4) [OF 1(2)] D2 show ?thesis by auto
  next
    case 2
    with d1(4) [OF 2(1)] f have "dent_at fs1 k = Some (DFile i)" by simp
    with d2(7,8) [OF 2(2) this] exp D1 2(1) show ?thesis by auto
  qed
  then show "dent_at fs2 k = (if expired a fs k i \<and> \<not> dry_run a then None else Some (DFile i))"
    "abs_path k \<in> set (D1 @ D2) \<longleftrightarrow> expired a fs k i" by blast+
qed

abbreviation (input) below :: "loc \<Rightarrow> loc set" where
  "below l \<equiv> {k. prefix l k}"

lemma nolinks_child: "nolinks fs l \<Longrightarrow> (\<And>t. dent_at fs (l @ [x]) \<noteq> Some (DSym t)) \<Longrightarrow> nolinks fs (l @ [x])"
  by (auto simp: nolinks_def)

lemma entry_of_child:
  assumes "fs_wf fs" "nolinks fs l" "dent_at fs l = Some DDir"
  shows "entry_of fs (abs_path (l @ [x])) = Inr (l @ [x])"
  using lookup_abs_Inr [OF assms(1,2), of l DDir] assms(3)
  by (simp add: entry_of_def path_file_name_abs abs_path_snoc path_file_name_snoc)

lemma below_file:
  assumes "fs_wf fs" "dent_at fs k0 = Some d" "d \<noteq> DDir" "prefix k0 k" "k \<noteq> k0"
  shows "dent_at fs k = None"
proof -
  from assms(4,5) obtain r where "k = k0 @ r" "r \<noteq> []" by (auto simp: prefix_def)
  with tree_wf_prefix [OF fs_wf_tree [OF assms(1)], of k0 r] assms(2,3) show ?thesis by (cases "dent_at fs k") auto
qed

lemma in_quarantine_abs:
  "(path_file_name (abs_path l) = Some QUARANTINE_DIR) = (l \<noteq> [] \<and> last l = QUARANTINE_DIR)"
  by (cases "l = []") (simp_all add: path_file_name_root path_file_name_abs)

lemma visit_file_swept:
  assumes nf: "faults fs = []" and wf: "fs_wf fs" and nl: "nolinks fs l" and dir: "dent_at fs l = Some DDir"
    and d: "dent_at fs (l @ [x]) = Some d" "d \<noteq> DDir"
    and run: "visit_file a (path_file_name (abs_path l) = Some QUARANTINE_DIR) (abs_path (l @ [x])) x rep fs = (r, rep', fs')"
  shows "\<exists>D. r = Inr () \<and> deleted rep' = deleted rep @ D \<and> swept a (below (l @ [x])) fs fs' D"
proof -
  let ?k = "l @ [x]" and ?ttl = "ttl_for a (path_file_name (abs_path l) = Some QUARANTINE_DIR) x"
  have "snd (older_than (abs_path ?k) ?ttl (sweep_now a) fs) = fs"
    by (auto simp: older_than_def fs_metadata_def syscall_no_faults [OF nf] split: sum.splits)
  then obtain old where old: "older_than (abs_path ?k) ?ttl (sweep_now a) fs = (old, fs)" by (metis prod.collapse)
  have exp: "old \<longleftrightarrow> expired a fs ?k i" if "d = DFile i" for i
  proof -
    have "lookup fs (abs_path ?k) = Inr (?k, DFile i)"
      using lookup_abs_Inr [OF wf nolinks_child [OF nl], of x ?k "DFile i"] d that by simp
    with old show ?thesis
      by (auto simp: older_than_def fs_metadata_def syscall_no_faults [OF nf] expired_def in_quarantine_abs meta_of_def)
  qed
  have below: "k = ?k" if "prefix ?k k" "dent_at fs k \<noteq> None" for k
    using below_file [OF wf d that(1)] that(2) by blast
  have rm: "fs_remove_file (abs_path ?k) fs = (Inr (), del_ent ?k fs)"
    using entry_of_child [OF wf nl dir, of x] d
    by (cases d) (simp_all add: fs_remove_file_def syscall_no_faults [OF nf])
  have wf': "fs_wf (del_ent ?k fs)"
    using no_child_of_file [OF wf d] by (intro fs_wf_del_ent [OF wf]) simp_all
  let ?D = "if old then [abs_path ?k] else []"
  from run old rm have r: "r = Inr ()" "deleted rep' = deleted rep @ ?D"
    and fs': "fs' = (if old \<and> \<not> dry_run a then del_ent ?k fs else fs)"
    by (auto simp: visit_file_def Let_def split: if_splits)
  have "swept a (below ?k) fs fs' ?D"
    unfolding swept_def
  proof (intro conjI allI ballI impI)
    fix k i
    assume k: "k \<in> below ?k" "dent_at fs k = Some (DFile i)"
    with below [of k] have "k = ?k" by simp
    with k d exp [of i] show "dent_at fs' k = (if expired a fs k i \<and> \<not> dry_run a then None else Some (DFile i))"
      "abs_path k \<in> set ?D \<longleftrightarrow> expired a fs k i" by (auto simp: fs')
  next
    fix k
    assume k: "k \<in> below ?k" "dent_at fs' k = Some DDir"
    then have "dent_at fs k = Some DDir" by (auto simp: fs' split: if_splits)
    with below [of k] k(1) d show "\<exists>x. dent_at fs' (k @ [x]) \<noteq> None" by auto
  qed (use wf wf' nf in \<open>auto simp: fs' split: if_splits\<close>)
  with r show ?thesis by blast
qed

lemma children_Nil:
  assumes "fs_wf fs"
  shows "children fs k = [] \<longleftrightarrow> (\<forall>x. dent_at fs (k @ [x]) = None)"
  using children_iff [OF assms, of _ k] by (metis list.set_intros(1) list.set_sel(1) empty_iff list.set(1))

lemma prune_dir_ok:
  assumes nf: "faults fs = []" and wf: "fs_wf fs" and nl: "nolinks fs k" and k: "dent_at fs k = Some DDir" "k \<noteq> []"
    and run: "prune_dir a (abs_path k) rep fs = (r, rep', fs')"
  shows "r = Inr () \<and> deleted rep' = deleted rep \<and>
    fs' = (if (\<forall>x. dent_at fs (k @ [x]) = None) \<and> \<not> dry_run a then del_ent k fs else fs)"
proof -
  have "lookup fs (abs_path k) = Inr (k, DDir)" using lookup_abs_Inr [OF wf nl] k(1) by simp
  moreover have "entry_of fs (abs_path k) = Inr k"
    using entry_of_abs_Inr [OF wf nl k(2)] tree_wf_parent [OF fs_wf_tree [OF wf], of k] k(1) by simp
  ultimately show ?thesis
    using run k(1) unfolding children_Nil [OF wf, symmetric]
    by (auto simp: prune_dir_def fs_read_dir_def fs_next_entry_def fs_remove_dir_def syscall_no_faults [OF nf] Let_def
      split: if_splits)
qed

lemma swept_dir:
  assumes 1: "swept a {k. strict_prefix k0 k} fs fs1 D" and k0: "dent_at fs k0 = Some DDir" "k0 \<noteq> []" "k0 \<noteq> cwd fs"
    and nl: "nolinks fs k0" and run: "prune_dir a (abs_path k0) rep fs1 = (r, rep', fs')"
  shows "r = Inr () \<and> deleted rep' = deleted rep \<and> swept a (below k0) fs fs' D"
proof -
  note s = sweptD [OF 1]
  have "dent_at fs1 k0 = Some DDir" using s(4) [of k0] k0(1) by simp
  from prune_dir_ok [OF s(1,2) fewer_nolinks [OF s(3) nl] this k0(2) run] have r: "r = Inr ()" "deleted rep' = deleted rep"
    and fs': "fs' = (if (\<forall>x. dent_at fs1 (k0 @ [x]) = None) \<and> \<not> dry_run a then del_ent k0 fs1 else fs1)" by simp_all
  have same: "dent_at fs' k = dent_at fs1 k" if "k \<noteq> k0" for k using that k0(2) by (simp add: fs')
  have strict: "strict_prefix k0 k" if "k \<in> below k0" "k \<noteq> k0" for k using that by (simp add: strict_prefix_def)
  have "swept a (below k0) fs fs' D"
    unfolding swept_def
  proof (intro conjI allI ballI impI)
    fix k i
    assume k: "k \<in> below k0" and f: "dent_at fs k = Some (DFile i)"
    with k0(1) have ne: "k \<noteq> k0" by auto
    with s(7,8) [OF _ f] strict [OF k ne] same [OF ne]
    show "dent_at fs' k = (if expired a fs k i \<and> \<not> dry_run a then None else Some (DFile i))"
      "abs_path k \<in> set D \<longleftrightarrow> expired a fs k i" by simp_all
  next
    fix k
    assume dry: "\<not> dry_run a" and k: "k \<in> below k0" and dir: "dent_at fs' k = Some DDir"
    show "\<exists>x. dent_at fs' (k @ [x]) \<noteq> None"
    proof (cases "k = k0")
      case False
      from s(9) [OF dry, of k] strict [OF k False] dir same [OF False] obtain x where "dent_at fs1 (k @ [x]) \<noteq> None" by auto
      moreover from k have "k @ [x] \<noteq> k0" by (auto simp: prefix_def)
      ultimately show ?thesis using same by metis
    qed (use dir dry k0(2) in \<open>auto simp: fs' split: if_splits\<close>)
  next
    show "dent_at fs' k = dent_at fs k" if "k \<notin> below k0" for k
      using that same [of k] s(4) [of k] by (auto simp: strict_prefix_def)
    show "set D \<subseteq> abs_path ` below k0" using s(6) by (auto simp: strict_prefix_def)
    show "fs_wf fs'" using s(2,3) fewer_def [of fs fs1] k0(2,3) by (auto simp: fs' intro: fs_wf_del_ent)
  qed (use s(1,3,5) in \<open>auto simp: fs'\<close>)
  with r show ?thesis by simp
qed

lemma swept_mono:
  assumes "swept a R fs fs' D" "R \<subseteq> R'" "\<And>k. k \<in> R' \<Longrightarrow> k \<notin> R \<Longrightarrow> dent_at fs k = None"
  shows "swept a R' fs fs' D"
proof -
  note s = sweptD [OF assms(1)]
  have in_R: "k \<in> R" if "k \<in> R'" "dent_at fs k \<noteq> None" for k using that assms(3) [of k] by (cases "k \<in> R") simp_all
  have in_R': "k \<in> R" if "k \<in> R'" "dent_at fs' k = Some d" for k d
    using in_R [OF that(1)] fewer_dent [OF s(3) that(2)] by simp
  show ?thesis
    unfolding swept_def
  proof (intro conjI allI ballI impI)
    show "faults fs' = []" "fs_wf fs'" "fewer fs fs'" by (fact s(1), fact s(2), fact s(3))
    show "dent_at fs' k = dent_at fs k" if "k \<notin> R'" for k using that assms(2) s(4) by blast
    show "fs' = fs" if "dry_run a" using that by (rule s(5))
    show "set D \<subseteq> abs_path ` R'" using s(6) assms(2) by blast
    show "\<exists>x. dent_at fs' (k @ [x]) \<noteq> None" if "\<not> dry_run a" "k \<in> R'" "dent_at fs' k = Some DDir" for k
      by (rule s(9) [OF that(1) in_R' [OF that(2,3)] that(3)])
    fix k i
    assume k: "k \<in> R'" "dent_at fs k = Some (DFile i)"
    then have "k \<in> R" by (intro in_R) simp_all
    from s(7,8) [OF this k(2)]
    show "dent_at fs' k = (if expired a fs k i \<and> \<not> dry_run a then None else Some (DFile i))"
      "abs_path k \<in> set D \<longleftrightarrow> expired a fs k i" by simp_all
  qed
qed

lemma strict_prefix_child: "prefix (l @ [x]) k \<Longrightarrow> strict_prefix l k"
  by (auto simp: prefix_def strict_prefix_def)

lemma below_missing:
  assumes "fs_wf fs" "strict_prefix l k" "\<And>x. dent_at fs (l @ [x]) \<noteq> None \<Longrightarrow> \<not> prefix (l @ [x]) k"
  shows "dent_at fs k = None"
proof -
  from assms(2) obtain x r where k: "k = (l @ [x]) @ r" by (auto elim: strict_prefixE')
  with assms(3) [of x] have "dent_at fs (l @ [x]) = None" by fastforce
  with tree_wf_prefix [OF fs_wf_tree [OF assms(1)], of "l @ [x]" r] k show ?thesis
    by (cases "r = []") (simp, metis option.distinct(1))
qed

text \<open>The state a directory is visited in, with fuel for everything below it.\<close>

definition visitable :: "nat \<Rightarrow> loc \<Rightarrow> fs \<Rightarrow> bool" where
  "visitable n l fs \<longleftrightarrow> faults fs = [] \<and> fs_wf fs \<and> nolinks fs l \<and> dent_at fs l = Some DDir \<and>
     \<not> strict_prefix l (cwd fs) \<and> (\<forall>k. dent_at fs k \<noteq> None \<longrightarrow> length k < n + length l)"

definition visit_sweeps :: "sweep_args \<Rightarrow> nat \<Rightarrow> loc \<Rightarrow> fs \<Rightarrow> bool" where
  "visit_sweeps a n l fs \<longleftrightarrow> (\<forall>rep. \<exists>rep' fs' D. visit n a (abs_path l) rep fs = Some (Inr (), rep', fs') \<and>
     deleted rep' = deleted rep @ D \<and> swept a {k. strict_prefix l k} fs fs' D)"

lemma visitable_child:
  assumes "visitable (Suc n) l fs" "dent_at fs (l @ [x]) = Some DDir"
  shows "visitable n (l @ [x]) fs"
proof -
  have "strict_prefix l (l @ [x])" by (rule strict_prefix_child) simp
  then have "\<not> strict_prefix (l @ [x]) (cwd fs)"
    using assms(1) prefix_order.less_trans unfolding visitable_def by blast
  with assms nolinks_child [of fs l x] show ?thesis by (auto simp: visitable_def)
qed

lemma visitable_swept:
  assumes "visitable n l fs" "swept a R fs fs' D" "l \<notin> R"
  shows "visitable n l fs'"
proof -
  note s = sweptD [OF assms(2)]
  have "dent_at fs k \<noteq> None" if "dent_at fs' k \<noteq> None" for k using fewer_dent [OF s(3)] that by blast
  with assms s(1-4) fewer_nolinks [OF s(3)] show ?thesis
    unfolding visitable_def by (auto simp: fewer_def)
qed

lemma visit_entry_swept:
  assumes v: "visitable (Suc n) l fs" and d: "dent_at fs (l @ [x]) = Some d"
    and IH: "\<And>k. visitable n k fs \<Longrightarrow> visit_sweeps a n k fs"
  shows "\<exists>rep' fs' D. visit_entry n a (abs_path l) x (d = DDir) rep fs = Some (Inr (), rep', fs') \<and>
    deleted rep' = deleted rep @ D \<and> swept a (below (l @ [x])) fs fs' D"
proof (cases "d = DDir")
  case True
  from v have vd: "nolinks fs l" "\<not> strict_prefix l (cwd fs)" by (simp_all add: visitable_def)
  from IH [OF visitable_child [OF v]] d True obtain rep1 fs1 D where
    1: "visit n a (abs_path (l @ [x])) rep fs = Some (Inr (), rep1, fs1)" "deleted rep1 = deleted rep @ D"
      "swept a {k. strict_prefix (l @ [x]) k} fs fs1 D" unfolding visit_sweeps_def by blast
  obtain r rep2 fs2 where 2: "prune_dir a (abs_path (l @ [x])) rep1 fs1 = (r, rep2, fs2)"
    by (cases "prune_dir a (abs_path (l @ [x])) rep1 fs1")
  have "l @ [x] \<noteq> cwd fs" using vd(2) by (metis prefixI strict_prefix_def self_append_conv not_Cons_self2)
  with swept_dir [OF 1(3) _ _ _ _ 2] d True nolinks_child [OF vd(1), of x]
  have "r = Inr () \<and> deleted rep2 = deleted rep1 \<and> swept a (below (l @ [x])) fs fs2 D" by simp
  with 1 2 True show ?thesis by (auto simp: visit_entry_def path_join_Normal abs_path_snoc)
next
  case False
  from v have vd: "faults fs = []" "fs_wf fs" "nolinks fs l" "dent_at fs l = Some DDir" by (simp_all add: visitable_def)
  obtain r rep1 fs1 where
    1: "visit_file a (path_file_name (abs_path l) = Some QUARANTINE_DIR) (abs_path (l @ [x])) x rep fs = (r, rep1, fs1)"
    by (cases "visit_file a (path_file_name (abs_path l) = Some QUARANTINE_DIR) (abs_path (l @ [x])) x rep fs")
  from visit_file_swept [OF vd d False 1] 1 False show ?thesis
    by (auto simp: visit_entry_def path_join_Normal abs_path_snoc)
qed

lemma visit_loop_swept:
  assumes IH: "\<And>k fs. visitable n k fs \<Longrightarrow> visit_sweeps a n k fs"
  shows "visitable (Suc n) l fs \<Longrightarrow> distinct xs \<Longrightarrow> (\<And>x. x \<in> set xs \<Longrightarrow> dent_at fs (l @ [x]) \<noteq> None) \<Longrightarrow>
    \<exists>rep' fs' D. visit_loop n a (abs_path l) l xs rep fs = Some (Inr (), rep', fs') \<and>
      deleted rep' = deleted rep @ D \<and> swept a (\<Union>x \<in> set xs. below (l @ [x])) fs fs' D"
proof (induction xs arbitrary: rep fs)
  case Nil
  then have "faults fs = []" "fs_wf fs" by (simp_all add: visitable_def)
  with swept_empty [of fs a] show ?case by (simp add: fs_next_entry_def syscall_no_faults)
next
  case (Cons x xs)
  from Cons.prems(3) [of x] obtain d where d: "dent_at fs (l @ [x]) = Some d" by auto
  from Cons.prems(1) have nf: "faults fs = []" by (simp add: visitable_def)
  from visit_entry_swept [OF Cons.prems(1) d IH, of rep] obtain rep1 fs1 D1 where
    1: "visit_entry n a (abs_path l) x (d = DDir) rep fs = Some (Inr (), rep1, fs1)"
      "deleted rep1 = deleted rep @ D1" "swept a (below (l @ [x])) fs fs1 D1" by blast
  have vis: "visitable (Suc n) l fs1" by (rule visitable_swept [OF Cons.prems(1) 1(3)]) (simp add: prefix_def)
  have other: "dent_at fs1 (l @ [y]) \<noteq> None" if "y \<in> set xs" for y
    using sweptD(4) [OF 1(3), of "l @ [y]"] that Cons.prems(2) Cons.prems(3) [of y] by (cases "x = y") auto
  from Cons.IH [OF vis _ other, of rep1] Cons.prems(2) obtain rep2 fs2 D2 where
    2: "visit_loop n a (abs_path l) l xs rep1 fs1 = Some (Inr (), rep2, fs2)" "deleted rep2 = deleted rep1 @ D2"
      "swept a (\<Union>x \<in> set xs. below (l @ [x])) fs1 fs2 D2" by auto
  have "swept a (below (l @ [x]) \<union> (\<Union>x \<in> set xs. below (l @ [x]))) fs fs2 (D1 @ D2)"
    using Cons.prems(2) by (intro swept_trans [OF 1(3) 2(3)]) (auto simp: prefix_def)
  moreover have "visit_loop n a (abs_path l) l (x # xs) rep fs = Some (Inr (), rep2, fs2)"
    using 1(1) 2(1) d by (simp add: visit_loop_Cons fs_next_entry_def fs_entry_is_dir_def syscall_no_faults [OF nf])
  ultimately show ?case using 1(2) 2(2) by simp
qed

lemma visit_swept: "visitable n l fs \<Longrightarrow> visit_sweeps a n l fs"
proof (induction n arbitrary: l fs)
  case 0
  then show ?case by (auto simp: visitable_def)
next
  case (Suc n)
  then have nf: "faults fs = []" and wf: "fs_wf fs" and nl: "nolinks fs l" and dir: "dent_at fs l = Some DDir"
    by (simp_all add: visitable_def)
  have region: "swept a {k. strict_prefix l k} fs fs' D" if "swept a (\<Union>x \<in> set (children fs l). below (l @ [x])) fs fs' D" for fs' D
    by (rule swept_mono [OF that]) (auto simp: children_iff [OF wf] intro: below_missing [OF wf] strict_prefix_child)
  have "fs_read_dir (abs_path l) fs = (Inr (l, children fs l), fs)"
    using lookup_abs_Inr [OF wf nl, of l DDir] dir by (simp add: fs_read_dir_def syscall_no_faults [OF nf])
  moreover have "\<And>x. x \<in> set (children fs l) \<Longrightarrow> dent_at fs (l @ [x]) \<noteq> None" using children_iff [OF wf] by blast
  note visit_loop_swept [OF Suc.IH Suc.prems children_distinct [OF wf] this]
  ultimately show ?case unfolding visit_sweeps_def using region by fastforce
qed

lemma sweep_swept:
  assumes "faults fs = []" "fs_wf fs" "nolinks fs r" "dent_at fs r = Some DDir" "\<not> strict_prefix r (cwd fs)"
  shows "\<exists>rep fs'. sweep (abs_path r) a fs = Some (Inr rep, fs') \<and> swept a {k. strict_prefix r k} fs fs' (deleted rep)"
proof -
  have "visitable (Suc (depth fs)) r fs"
    using assms length_depth [of fs] by (auto simp: visitable_def less_Suc_eq_le trans_le_add1)
  from visit_swept [OF this, of a] obtain rep fs' D where
    v: "visit (Suc (depth fs)) a (abs_path r) \<lparr>deleted = [], pruned_dirs = []\<rparr> fs = Some (Inr (), rep, fs')"
      "deleted rep = D" and s: "swept a {k. strict_prefix r k} fs fs' D"
    unfolding visit_sweeps_def by fastforce
  from v(1) have "sweep (abs_path r) a fs = Some (Inr rep, fs')" by (simp add: sweep_def)
  with s v(2) show ?thesis by blast
qed

text \<open>
  (C19) The sweep deletes exactly what it should.  In an archive below a directory without symbolic
  links on the way to it, when no call fails, the sweep succeeds, and of the regular files below the
  root it deletes, and reports, exactly those older than their age limit: the retention, or the
  limit for staging files, or that for files in a quarantine directory.  Everything outside the root
  stays, no file content changes, and no empty directory is left below the root.  A dry run changes
  nothing and reports the same files.
\<close>

theorem sweep_exact:
  assumes "faults fs = []" "fs_wf fs" "nolinks fs r" "dent_at fs r = Some DDir" "\<not> strict_prefix r (cwd fs)"
  shows "\<exists>rep fs'. sweep (abs_path r) a fs = Some (Inr rep, fs') \<and> inodes fs' = inodes fs \<and>
    (\<forall>k. \<not> strict_prefix r k \<longrightarrow> dent_at fs' k = dent_at fs k) \<and>
    (\<forall>k i. strict_prefix r k \<and> dent_at fs k = Some (DFile i) \<longrightarrow>
       dent_at fs' k = (if expired a fs k i \<and> \<not> dry_run a then None else Some (DFile i)) \<and>
       (abs_path k \<in> set (deleted rep) \<longleftrightarrow> expired a fs k i)) \<and>
    (if dry_run a then fs' = fs
     else \<forall>k. strict_prefix r k \<and> dent_at fs' k = Some DDir \<longrightarrow> (\<exists>x. dent_at fs' (k @ [x]) \<noteq> None))"
proof -
  from sweep_swept [OF assms, of a] obtain rep fs' where
    "sweep (abs_path r) a fs = Some (Inr rep, fs')" and s: "swept a {k. strict_prefix r k} fs fs' (deleted rep)" by blast
  with sweptD [OF s] show ?thesis by (auto simp: fewer_def)
qed

definition demo_sweep :: "bool \<Rightarrow> sweep_args" where
  "demo_sweep dry = \<lparr>retention = 2, quarantine_ttl = 1, staging_ttl = 1, sweep_now = 9, dry_run = dry\<rparr>"

theorem sweep_exact_witness:
  "\<exists>rep fs'. sweep (abs_path [''srv'']) (demo_sweep False) demo_fs = Some (Inr rep, fs') \<and>
     dent_at fs' [''srv'', ''cam'', ''old.mp4''] = None \<and>
     abs_path [''srv'', ''cam'', ''old.mp4''] \<in> set (deleted rep)"
proof -
  have nl: "nolinks demo_fs [''srv'']"
    by (auto simp: nolinks_def dent_at_def demo_fs_def split: if_splits)
  have d: "dent_at demo_fs [''srv''] = Some DDir" "faults demo_fs = []" "\<not> strict_prefix [''srv''] (cwd demo_fs)"
    "dent_at demo_fs [''srv'', ''cam'', ''old.mp4''] = Some (DFile 0)"
    by (simp_all add: demo_fs_def dent_at_def)
  have e: "expired (demo_sweep False) demo_fs [''srv'', ''cam'', ''old.mp4''] 0" by code_simp
  have p: "strict_prefix [''srv''] [''srv'', ''cam'', ''old.mp4'']" by (simp add: strict_prefix_def)
  from sweep_exact [OF d(2) demo_fs_wf nl d(1,3), of "demo_sweep False"] d(4) e p show ?thesis
    by (fastforce simp: demo_sweep_def)
qed

section \<open>Dry runs\<close>

lemma dry_visit_file: "dry_run a \<Longrightarrow> visit_file a q p x rep fs = (r, rep', fs') \<Longrightarrow> \<exists>fl. fs' = fs\<lparr>faults := fl\<rparr>"
  by (auto simp: visit_file_def Let_def split: prod.splits if_splits dest!: older_than_state)

lemma dry_prune_dir: "dry_run a \<Longrightarrow> prune_dir a p rep fs = (r, rep', fs') \<Longrightarrow> \<exists>fl. fs' = fs\<lparr>faults := fl\<rparr>"
  by (auto simp: prune_dir_def Let_def split: prod.splits sum.splits if_splits
      dest!: fs_read_dir_state fs_next_entry_state)

lemma dry_visit:
  assumes dry: "dry_run a"
  shows "visit n a dir rep fs = Some (r, rep', fs') \<Longrightarrow> \<exists>fl. fs' = fs\<lparr>faults := fl\<rparr>"
proof (induction n arbitrary: dir rep fs r rep' fs')
  case (Suc n)
  have entry: "\<exists>fl. fs' = fs\<lparr>faults := fl\<rparr>" if "visit_entry n a dir x d rep fs = Some (r, rep', fs')" for x d rep fs r rep' fs'
    using that
    by (auto simp: visit_entry_def split: if_splits option.splits prod.splits sum.splits
        dest!: Suc.IH dry_visit_file [OF dry] dry_prune_dir [OF dry])
  have loop: "visit_loop n a dir l xs rep fs = Some (r, rep', fs') \<Longrightarrow> \<exists>fl. fs' = fs\<lparr>faults := fl\<rparr>" for l xs rep fs r rep' fs'
  proof (induction xs arbitrary: rep fs)
    case Nil
    then show ?case by (auto split: prod.splits dest!: fs_next_entry_state)
  next
    case (Cons x xs)
    then show ?case
      by (auto simp: visit_loop_Cons split: prod.splits sum.splits option.splits
          dest!: fs_next_entry_state fs_entry_is_dir_state entry Cons.IH)
  qed
  from Suc.prems show ?case
    by (auto split: prod.splits sum.splits dest!: fs_read_dir_state loop)
qed simp

text \<open>
  A dry run changes nothing, whatever the root, the settings, the symbolic links in the tree and
  the failures of the file system.
\<close>

theorem dry_run_changes_nothing:
  assumes "dry_run a" "sweep root a fs = Some (r, fs')"
  shows "ents fs' = ents fs \<and> inodes fs' = inodes fs"
proof -
  from assms(2) obtain q rep where "visit (Suc (depth fs)) a root \<lparr>deleted = [], pruned_dirs = []\<rparr> fs = Some (q, rep, fs')"
    by (auto simp: sweep_def split: option.splits prod.splits sum.splits)
  with dry_visit [OF assms(1)] show ?thesis by fastforce
qed

theorem dry_run_changes_nothing_witness:
  "\<exists>r fs'. sweep (path_new ''/srv'') (demo_sweep True) demo_fs = Some (r, fs') \<and> ents fs' = ents demo_fs"
proof -
  from sweep_total [OF demo_fs_wf] obtain r fs' where
    "sweep (path_new ''/srv'') (demo_sweep True) demo_fs = Some (r, fs')" by blast
  with dry_run_changes_nothing [of "demo_sweep True" "path_new ''/srv''" demo_fs r fs'] show ?thesis
    by (simp add: demo_sweep_def)
qed

end
