(* ===== verification/Cleanup_Effects.thy ===== *)
theory Cleanup_Effects
  imports Retention Archive
begin

text \<open>
  What the retention sweep means for the accounts: it prunes empty directories, and the home of a
  camera that has had nothing to upload for the retention period is one.  The daemon creates homes
  only when it starts or reloads its configuration, and a path is resolved against the existing home.
\<close>

lemma swept_empties:
  assumes s: "swept a R fs fs' D" and dry: "\<not> dry_run a" and R: "\<And>k. prefix l k \<Longrightarrow> k \<in> R"
    and old: "\<And>k i. prefix l k \<Longrightarrow> dent_at fs k = Some (DFile i) \<Longrightarrow> expired a fs k i"
    and nosym: "\<And>k t. prefix l k \<Longrightarrow> dent_at fs k \<noteq> Some (DSym t)"
  shows "prefix l k \<Longrightarrow> dent_at fs' k = None"
proof (induction "depth fs' - length k" arbitrary: k rule: less_induct)
  case (less k)
  show ?case
  proof (rule ccontr)
    assume "dent_at fs' k \<noteq> None"
    then obtain d where d: "dent_at fs' k = Some d" by auto
    with fewer_dent [OF sweptD(3) [OF s]] have fs: "dent_at fs k = Some d" by blast
    show False
    proof (cases d)
      case DDir
      with d sweptD(9) [OF s dry R [OF less.prems]] obtain x where x: "dent_at fs' (k @ [x]) \<noteq> None" by blast
      with length_depth [of fs' "k @ [x]"] have "depth fs' - length (k @ [x]) < depth fs' - length k" by simp
      from less.hyps [OF this] less.prems x show False by simp
    next
      case (DFile i)
      with sweptD(7) [OF s R [OF less.prems], of i] old [OF less.prems, of i] fs d dry show False by simp
    next
      case (DSym t)
      with nosym [OF less.prems, of t] fs show False by simp
    qed
  qed
qed

lemma dir_nolinks: "fs_wf fs \<Longrightarrow> dent_at fs l = Some DDir \<Longrightarrow> nolinks fs l"
  unfolding nolinks_def using tree_wf_prefix [OF fs_wf_tree] by (fastforce simp: prefix_def)

lemma resolve_no_home:
  assumes "fs_wf fs" "nolinks fs l" "dent_at fs l = None"
  shows "\<exists>e. resolve fs (scope_single (abs_path l)) v = Inl e"
  using lookup_abs [OF assms(1,2)] assms(3)
  by (auto simp: resolve_def scope_single_def contained_def canonicalize_def split: sum.splits)



end
