(* ===== verification/Daemon.thy ===== *)
theory Daemon
  imports Server
begin

text \<open>
  The running daemon as a whole: logins, user lookups, requests of the open sessions, presence events,
  configuration reloads and reaper ticks in any order, over the account table, the session tracker
  and the file system they share.  Requests are atomic here; \<open>Live_Daemon\<close> lets uploads overlap
  with everything else.  A reload brings its own parse of the configuration file, since the file may have
  been edited in the meantime.
\<close>

record world =
  w_daemon :: daemon
  principals :: "principal list"
  users :: "reo_user list"

datatype event =
  EAuth nat string credentials
| EUser nat
| ERequest nat request
| EPresence presence_event string
| ESighup toml path
| ETick nat

text \<open>What \<^verbatim>\<open>libunftp\<close> calls on each event, with the value of the account table at that moment.\<close>

fun world_step ::
    "('r, 'k, 'e, 's, 'd) age_lib \<Rightarrow> 'p argon2_lib \<Rightarrow> 'r list option \<Rightarrow> event \<Rightarrow> world \<Rightarrow> world" where
  "world_step age lib recips (EAuth now name creds) w =
     (case authenticate lib (d_accounts (w_daemon w)) now name creds (d_tracker (w_daemon w)) of
        (Inr pr, t) \<Rightarrow> w\<lparr>w_daemon := (w_daemon w)\<lparr>d_tracker := t\<rparr>, principals := principals w @ [pr]\<rparr>
      | (Inl _, t) \<Rightarrow> w\<lparr>w_daemon := (w_daemon w)\<lparr>d_tracker := t\<rparr>\<rparr>)"
| "world_step age lib recips (EUser j) w =
     (if j < length (principals w) then
        (case provide_user_detail (d_accounts (w_daemon w)) (principals w ! j) of
           Inr u \<Rightarrow> w\<lparr>users := users w @ [u]\<rparr>
         | Inl _ \<Rightarrow> w)
      else w)"
| "world_step age lib recips (ERequest j q) w =
     (if j < length (users w) then
        w\<lparr>w_daemon := (w_daemon w)\<lparr>d_fs := perform age recips (users w ! j, q) (d_fs (w_daemon w))\<rparr>\<rparr>
      else w)"
| "world_step age lib recips (EPresence e name) w =
     w\<lparr>w_daemon := (w_daemon w)\<lparr>d_tracker := receive_presence_event e name (d_tracker (w_daemon w))\<rparr>\<rparr>"
| "world_step age lib recips (ESighup toml p) w = w\<lparr>w_daemon := on_sighup age toml p (w_daemon w)\<rparr>"
| "world_step age lib recips (ETick now) w = w\<lparr>w_daemon := on_tick now (w_daemon w)\<rparr>"

definition start_world :: "daemon \<Rightarrow> world" where
  "start_world d = \<lparr>w_daemon = d, principals = [], users = []\<rparr>"

section \<open>Homes\<close>

definition no_links :: "fs \<Rightarrow> bool" where
  "no_links fs \<longleftrightarrow> list_all (\<lambda>(l, d). case d of DSym _ \<Rightarrow> False | _ \<Rightarrow> True) (ents fs)"

lemma no_links_iff:
  assumes "fs_wf fs"
  shows "no_links fs \<longleftrightarrow> (\<forall>k t. dent_at fs k \<noteq> Some (DSym t))"
proof
  assume "no_links fs"
  then show "\<forall>k t. dent_at fs k \<noteq> Some (DSym t)"
    using dent_at_ents [of fs] dent_at_root [of fs] by (fastforce simp: no_links_def list_all_iff)
next
  assume "\<forall>k t. dent_at fs k \<noteq> Some (DSym t)"
  with dent_at_mem [OF assms] show "no_links fs" by (fastforce simp: no_links_def list_all_iff split: dent.splits)
qed

lemma no_links_evolves: "fs_wf fs \<Longrightarrow> fs_wf fs' \<Longrightarrow> evolves R N I fs fs' \<Longrightarrow> no_links fs \<Longrightarrow> no_links fs'"
  unfolding no_links_iff evolves_def by blast

lemma no_links_clean: "no_links fs \<Longrightarrow> lookup fs h = Inr (b, DDir) \<Longrightarrow> clean_jail fs h b"
  by (auto simp: no_links_def clean_jail_def list_all_iff)

text \<open>The home of a role exists.\<close>

definition home_exists :: "fs \<Rightarrow> role \<Rightarrow> bool" where
  "home_exists fs r = (case r of Uploader h \<Rightarrow> (\<exists>b. lookup fs h = Inr (b, DDir)) | Viewer _ \<Rightarrow> True)"

definition homes_ok :: "fs \<Rightarrow> accounts \<Rightarrow> reo_user list \<Rightarrow> bool" where
  "homes_ok fs accts us \<longleftrightarrow>
     (\<forall>l a. accounts_get accts l = Some a \<longrightarrow> home_exists fs (role a)) \<and> (\<forall>u \<in> set us. home_exists fs (user_role u))"

lemma home_exists_evolves: "fs_wf fs \<Longrightarrow> evolves R N I fs fs' \<Longrightarrow> home_exists fs r \<Longrightarrow> home_exists fs' r"
  unfolding home_exists_def by (cases r) (auto dest: lookup_dir_evolves)

lemma homes_ok_evolves: "fs_wf fs \<Longrightarrow> evolves R N I fs fs' \<Longrightarrow> homes_ok fs accts us \<Longrightarrow> homes_ok fs' accts us"
  unfolding homes_ok_def using home_exists_evolves by blast

lemma homes_of_config:
  assumes "valid_config age cfg" "\<forall>p \<in> set (map (home_dir cfg) (camera cfg)). \<exists>b. lookup fs p = Inr (b, DDir)"
  shows "homes_ok fs (build cfg) []"
  using assms(2) unfolding homes_ok_def build_accounts [OF assms(1)]
  by (auto simp: home_exists_def camera_account_def viewer_account_def home_dir_def)

section \<open>The invariant\<close>

definition world_ok :: "world \<Rightarrow> bool" where
  "world_ok w \<longleftrightarrow> fs_wf (d_fs (w_daemon w)) \<and> no_links (d_fs (w_daemon w)) \<and>
     homes_ok (d_fs (w_daemon w)) (d_accounts (w_daemon w)) (users w)"

lemma load_state: "load age toml p fs = (r, fs') \<Longrightarrow> \<exists>fl. fs' = fs\<lparr>faults := fl\<rparr>"
  by (auto simp: load_def fs_read_to_string_def split: prod.splits sum.splits if_splits dest!: fs_open_read_state)

lemma load_valid: "load age toml p fs = (Inr cfg, fs') \<Longrightarrow> valid_config age cfg"
  using validate_Inr [of age cfg] by (auto simp: load_def split: prod.splits sum.splits)

lemma evolves_accounts_ok:
  assumes "fs_wf fs" "no_links fs" "homes_ok fs accts us" "fs_wf fs'" "evolves R N I fs fs'"
  shows "no_links fs' \<and> homes_ok fs' accts us"
  using assms no_links_evolves homes_ok_evolves by blast

lemma sighup_ok:
  assumes "world_ok w"
  shows "world_ok (w\<lparr>w_daemon := on_sighup age toml p (w_daemon w)\<rparr>) \<and>
    evolves {} UNIV {} (d_fs (w_daemon w)) (d_fs (on_sighup age toml p (w_daemon w)))"
proof -
  let ?d = "w_daemon w"
  from assms have ok: "fs_wf (d_fs ?d)" "no_links (d_fs ?d)" "homes_ok (d_fs ?d) (d_accounts ?d) (users w)"
    by (simp_all add: world_ok_def)
  obtain r fs1 where 1: "load age toml p (d_fs ?d) = (r, fs1)" by fastforce
  then obtain fl where fs1: "fs1 = (d_fs ?d)\<lparr>faults := fl\<rparr>" using load_state by blast
  show ?thesis
  proof (cases r)
    case (Inl e)
    with ok fs1 evolves_accounts_ok [OF ok, of fs1 "{}" UNIV "{}"] show ?thesis
      by (simp add: world_ok_def on_sighup_def reload_config_def 1)
  next
    case (Inr cfg)
    obtain r2 fs2 where 2: "ensure_home_dirs cfg fs1 = (r2, fs2)" by fastforce
    from ensure_dirs_any [OF 2 [unfolded ensure_home_dirs_def]] fs1 ok(1)
    have f2: "fs_wf fs2" "evolves {} UNIV {} (d_fs ?d) fs2"
      and homes: "r2 = Inr () \<Longrightarrow> \<forall>p \<in> set (map (home_dir cfg) (camera cfg)). \<exists>b. lookup fs2 p = Inr (b, DDir)"
      by simp_all
    note ok2 = evolves_accounts_ok [OF ok f2]
    have new: "homes_ok fs2 (build cfg) (users w)" if "r2 = Inr ()"
      using homes_of_config [OF load_valid [OF 1 [unfolded Inr]] homes [OF that]] ok2 by (auto simp: homes_ok_def)
    show ?thesis
      using f2 ok2 new by (cases r2) (auto simp: world_ok_def on_sighup_def reload_config_def 1 Inr 2)
  qed
qed

lemma request_ok:
  assumes ok: "world_ok w" and u: "u \<in> set (users w)"
  shows "world_ok (w\<lparr>w_daemon := (w_daemon w)\<lparr>d_fs := perform age recips (u, q) (d_fs (w_daemon w))\<rparr>\<rparr>)"
    and "sealed (recips \<noteq> None) (d_fs (w_daemon w)) k i bs \<Longrightarrow>
      sealed (recips \<noteq> None) (perform age recips (u, q) (d_fs (w_daemon w))) k i bs"
proof -
  let ?fs = "d_fs (w_daemon w)"
  from ok have f: "fs_wf ?fs" "no_links ?fs" "homes_ok ?fs (d_accounts (w_daemon w)) (users w)"
    by (simp_all add: world_ok_def)
  have clean: "\<exists>b. clean_jail ?fs h b" if "user_role u = Uploader h" for h
    using f(2,3) u that no_links_clean by (fastforce simp: homes_ok_def home_exists_def)
  from perform_evolves [OF f(1) clean, where age = age and recips = recips and q = q] obtain R N I where
    "fs_wf (perform age recips (u, q) ?fs)" "evolves R N I ?fs (perform age recips (u, q) ?fs)" by blast
  with evolves_accounts_ok [OF f this]
  show "world_ok (w\<lparr>w_daemon := (w_daemon w)\<lparr>d_fs := perform age recips (u, q) ?fs\<rparr>\<rparr>)"
    by (simp add: world_ok_def)
  show "sealed (recips \<noteq> None) (perform age recips (u, q) ?fs) k i bs" if "sealed (recips \<noteq> None) ?fs k i bs"
    by (rule perform_sealed [OF f(1) clean that])
qed

lemma world_step_ok:
  assumes inv: "world_ok w"
  shows "world_ok (world_step age lib recips e w)"
proof (cases e)
  case (EAuth now name creds)
  with inv show ?thesis by (auto simp: world_ok_def split: prod.splits sum.splits)
next
  case (EUser j)
  with inv show ?thesis
    by (auto simp: world_ok_def homes_ok_def provide_user_detail_def split: sum.splits option.splits)
next
  case (ERequest j q)
  with inv request_ok(1) [OF inv, of "users w ! j" age recips q] show ?thesis by simp
next
  case (ESighup toml p)
  with sighup_ok [OF inv, of age toml p] show ?thesis by simp
qed (use inv in \<open>auto simp: world_ok_def on_tick_def\<close>)

lemma world_step_sealed:
  assumes inv: "world_ok w" and s: "sealed (recips \<noteq> None) (d_fs (w_daemon w)) k i bs"
  shows "sealed (recips \<noteq> None) (d_fs (w_daemon (world_step age lib recips e w))) k i bs"
proof (cases e)
  case (ERequest j q)
  with s request_ok(2) [OF inv _ s, of "users w ! j" age q] show ?thesis by simp
next
  case (ESighup toml p)
  with s sighup_ok [OF inv, of age toml p] show ?thesis by (auto intro: sealed_evolves)
qed (use s in \<open>auto simp: on_tick_def split: prod.splits sum.splits\<close>)

interpretation daemon_wf: run_system "world_step age lib recips" "\<lambda>_. True" world_ok
  for age :: "('r, 'k, 'e, 's, 'd) age_lib" and lib :: "'p argon2_lib" and recips
  by unfold_locales (rule world_step_ok)

interpretation daemon_run: run_system "world_step age lib recips" "\<lambda>_. True"
    "\<lambda>w. world_ok w \<and> sealed (recips \<noteq> None) (d_fs (w_daemon w)) k i bs"
  for age :: "('r, 'k, 'e, 's, 'd) age_lib" and lib :: "'p argon2_lib" and recips k i bs
  by unfold_locales (blast intro: world_step_ok world_step_sealed)

section \<open>From start to finish\<close>

lemma run_start_ok:
  assumes "run_start age unftp_build cfg fs = (Inr (d, srv, addr), fs')" "validate age cfg = Inr ()"
    and "fs_wf fs" "no_links fs"
  shows "world_ok (start_world d) \<and> evolves {} UNIV {} fs (d_fs d)"
proof -
  obtain r fs1 where 1: "ensure_home_dirs cfg fs = (r, fs1)" by fastforce
  with assms(1) have r: "r = Inr ()" and d: "d_fs d = fs1" "d_accounts d = build cfg"
    by (auto simp: run_start_def Let_def split: prod.splits sum.splits)
  note f = ensure_dirs_any [OF 1 [unfolded ensure_home_dirs_def] assms(3)]
  with r homes_of_config [of age cfg fs1] assms(2) validate_Inr [of age cfg]
  have "homes_ok fs1 (build cfg) []" by blast
  with f d no_links_evolves [OF assms(3) _ _ assms(4)] show ?thesis by (auto simp: world_ok_def start_world_def)
qed

text \<open>
  (C24) The state of the daemon stays well formed: started on a sound archive without symbolic links,
  after any sequence of events, whatever fails, the file system is sound, has no symbolic link, and
  the home of every uploader in the account table and of every session is an existing directory.
\<close>

theorem daemon_stays_well_formed:
  assumes "run_start age unftp_build cfg fs = (Inr (d, srv, addr), fs')" "validate age cfg = Inr ()"
    and "fs_wf fs" "no_links fs"
  shows "world_ok (fold (world_step age lib recips) es (start_world d))"
  using daemon_wf.run_invar [OF conjunct1 [OF run_start_ok [OF assms]], of es] by (simp add: list_all_iff)

text \<open>
  (C2) From the start of the daemon on a sound archive without symbolic links, through any sequence
  of logins, user lookups, requests of any session, presence events, reloads of edited configurations
  and reaper ticks, whatever fails: a file that was finished before stays bound to its name with
  every byte unchanged.
\<close>

theorem daemon_keeps_finished_files:
  assumes "run_start age unftp_build cfg fs = (Inr (d, srv, addr), fs')" "validate age cfg = Inr ()"
    and "fs_wf fs" "no_links fs" "recips = None \<longleftrightarrow> encryption cfg = None"
    and "sealed (recips \<noteq> None) fs k i bs"
  shows "content (d_fs (w_daemon (fold (world_step age lib recips) es (start_world d)))) k = Some bs"
proof -
  from run_start_ok [OF assms(1-4)] assms(6)
  have "world_ok (start_world d) \<and> sealed (recips \<noteq> None) (d_fs (w_daemon (start_world d))) k i bs"
    by (auto simp: start_world_def intro: sealed_evolves)
  from daemon_run.run_invar [OF this, of es age lib] show ?thesis
    by (auto simp: sealed_def content_def list_all_iff)
qed

definition plain_fs :: fs where
  "plain_fs = demo_fs\<lparr>ents := [([''srv''], DDir), ([''srv'', ''cam''], DDir), ([''srv'', ''cam'', ''old.mp4''], DFile 0)]\<rparr>"

definition demo_start :: "(anyhow + daemon \<times> unit \<times> string) \<times> fs" where
  "demo_start = run_start toy_age (\<lambda>s. Inr ()) demo_config plain_fs"

definition demo_events :: "event list" where
  "demo_events = [EAuth 1 ''u-cam'' \<lparr>password = Some ''x'', command_channel_security = Tls\<rparr>, EUser 0,
     ERequest 0 (RPut ([''new''], None) ''/old.mp4'' 0), ETick 9]"

lemma demo_start_run:
  "\<exists>d. fst demo_start = Inr (d, (), ''0.0.0.0:21'') \<and>
     run_start toy_age (\<lambda>s. Inr ()) demo_config plain_fs = (Inr (d, (), ''0.0.0.0:21''), snd demo_start)"
proof -
  have "case fst demo_start of Inr (d, u, addr) \<Rightarrow> addr = ''0.0.0.0:21'' | Inl _ \<Rightarrow> False" by code_simp
  then obtain d where "fst demo_start = Inr (d, (), ''0.0.0.0:21'')" by (auto split: sum.splits)
  then show ?thesis by (simp add: demo_start_def prod_eq_iff)
qed

lemma plain_fs_ok: "fs_wf plain_fs" "no_links plain_fs"
  by (simp_all add: fs_wf_def no_links_def plain_fs_def demo_fs_def dent_at_def)

lemma demo_config_validates: "validate toy_age demo_config = Inr ()"
  using validate_Inr demo_config_valid by blast

theorem daemon_stays_well_formed_witness:
  "\<exists>d. fst demo_start = Inr (d, (), ''0.0.0.0:21'') \<and>
     world_ok (fold (world_step toy_age toy_argon2 None) demo_events (start_world d))"
proof -
  obtain d where d: "fst demo_start = Inr (d, (), ''0.0.0.0:21'')"
    and run: "run_start toy_age (\<lambda>s. Inr ()) demo_config plain_fs = (Inr (d, (), ''0.0.0.0:21''), snd demo_start)"
    using demo_start_run by blast
  from daemon_stays_well_formed [OF run demo_config_validates plain_fs_ok] d show ?thesis by blast
qed

theorem daemon_keeps_finished_files_witness:
  "\<exists>d. fst demo_start = Inr (d, (), ''0.0.0.0:21'') \<and>
     content (d_fs (w_daemon (fold (world_step toy_age toy_argon2 None) demo_events (start_world d))))
       [''srv'', ''cam'', ''old.mp4''] = Some ''abc''"
proof -
  obtain d where d: "fst demo_start = Inr (d, (), ''0.0.0.0:21'')"
    and run: "run_start toy_age (\<lambda>s. Inr ()) demo_config plain_fs = (Inr (d, (), ''0.0.0.0:21''), snd demo_start)"
    using demo_start_run by blast
  have reg: "dent_at plain_fs k = Some (DFile j) \<longleftrightarrow> k = [''srv'', ''cam'', ''old.mp4''] \<and> j = 0" for k j
    by (auto simp: dent_at_def plain_fs_def split: if_splits)
  have "sealed ((None :: string list option) \<noteq> None) plain_fs [''srv'', ''cam'', ''old.mp4''] 0 ''abc''"
    using demo_not_scratch by (auto simp: sealed_def reg) (simp add: plain_fs_def demo_fs_def bytes_of_def)
  from daemon_keeps_finished_files [OF run demo_config_validates plain_fs_ok _ this] d show ?thesis
    by (simp add: demo_config_def)
qed

end
