(* ===== verification/Encrypted_Interleaving.thy ===== *)
theory Encrypted_Interleaving
  imports Upload_System
begin

text \<open>
  \<^verbatim>\<open>store_encrypted\<close> call by call.  The encryption runs in a blocking task of its own, so its writes
  interleave with what other sessions do.  \<open>epc_step\<close> is one system call; \<open>store_encrypted\<close> of \<open>Store\<close>
  is this machine run without interruption.
\<close>

datatype 's epc =
  ECheck
| EMkdir
| EOpen
| EHead nat
| ECopy "nat \<times> nat" 's nat "bytes list"
| EFlush nat
| ELink nat
| EDrop "store_error + nat"
| EDone "store_error + nat"

fun epc_step ::
    "('r, 'k, 'e, 's, 'd) age_lib \<Rightarrow> 'r list \<Rightarrow> path \<Rightarrow> reader \<Rightarrow> 's epc \<Rightarrow> fs \<Rightarrow> 's epc \<times> fs" where
  "epc_step age rs p input ECheck fs =
     (case fs_try_exists p fs of
        (Inr True, fs) \<Rightarrow> (EDone (Inl SFinalized), fs)
      | (_, fs) \<Rightarrow> (EMkdir, fs))"
| "epc_step age rs p input EMkdir fs =
     (case (case path_parent (staging_path p) of
              Some parent \<Rightarrow> fs_create_dir_all parent fs
            | None \<Rightarrow> (Inr (), fs)) of
        (Inl e, fs) \<Rightarrow> (EDone (Inl (SIo e)), fs)
      | (Inr _, fs) \<Rightarrow> (EOpen, fs))"
| "epc_step age rs p input EOpen fs =
     (case fs_open_write True (staging_path p) fs of
        (Inl e, fs) \<Rightarrow> (EDone (Inl (SIo (io_other (CIo e)))), fs)
      | (Inr i, fs) \<Rightarrow> (EHead i, fs))"
| "epc_step age rs p input (EHead i) fs =
     (case with_recipients age rs of
        Inl e \<Rightarrow> (EDone (Inl (SIo (io_other (CEncrypt e)))), fs)
      | Inr encryptor \<Rightarrow>
          (case random_draw fs of (k, fs) \<Rightarrow>
          (case wrap_output age encryptor k of (header, s) \<Rightarrow>
             (case write_all (i, 0) header fs of
                (Inl e, fs) \<Rightarrow> (EDone (Inl (SIo (io_other (CEncrypt (io_display e))))), fs)
              | (Inr fd, fs) \<Rightarrow> (ECopy fd s 0 (fst input), fs)))))"
| "epc_step age rs p input (ECopy fd s n []) fs =
     (case snd input of
        Some e \<Rightarrow> (EDone (Inl (SIo (io_other (CIo e)))), fs)
      | None \<Rightarrow>
          (case write_all fd (stream_finish age s) fs of
             (Inl e, fs) \<Rightarrow> (EDone (Inl (SIo (io_other (CEncrypt (io_display e))))), fs)
           | (Inr _, fs) \<Rightarrow> (EFlush n, fs)))"
| "epc_step age rs p input (ECopy fd s n (c # cs)) fs =
     (case stream_write age s c of (out, s') \<Rightarrow>
        (case write_all fd out fs of
           (Inl e, fs) \<Rightarrow> (EDone (Inl (SIo (io_other (CIo e)))), fs)
         | (Inr fd', fs) \<Rightarrow> (ECopy fd' s' (n + length c) cs, fs)))"
| "epc_step age rs p input (EFlush n) fs =
     (case fs_flush fs of
        (Inl e, fs) \<Rightarrow> (EDone (Inl (SIo (io_other (CIo e)))), fs)
      | (Inr _, fs) \<Rightarrow> (ELink n, fs))"
| "epc_step age rs p input (ELink n) fs =
     (case fs_hard_link (staging_path p) p fs of
        (Inr _, fs) \<Rightarrow> (EDrop (Inr n), fs)
      | (Inl e, fs) \<Rightarrow> (EDrop (Inl (if e = EAlreadyExists then SFinalized else SIo e)), fs))"
| "epc_step age rs p input (EDrop r) fs = (EDone r, snd (fs_remove_file (staging_path p) fs))"
| "epc_step age rs p input (EDone r) fs = (EDone r, fs)"

section \<open>One upload alone\<close>

definition epc_run ::
    "('r, 'k, 'e, 's, 'd) age_lib \<Rightarrow> 'r list \<Rightarrow> path \<Rightarrow> reader \<Rightarrow> nat \<Rightarrow> 's epc \<times> fs \<Rightarrow> 's epc \<times> fs" where
  "epc_run age rs p input n = ((\<lambda>(pc, fs). epc_step age rs p input pc fs) ^^ n)"

lemma epc_run_0 [simp]: "epc_run age rs p input 0 x = x"
  by (simp add: epc_run_def)

lemma epc_run_Suc [simp]:
  "epc_run age rs p input (Suc n) (pc, fs) = epc_run age rs p input n (epc_step age rs p input pc fs)"
  by (simp add: epc_run_def funpow_swap1)

lemma epc_run_done [simp]: "epc_run age rs p input n (EDone r, fs) = (EDone r, fs)"
  by (induction n) simp_all

definition edone_of :: "(store_error + nat) \<times> fs \<Rightarrow> 's epc \<times> fs" where
  "edone_of x = (EDone (fst x), snd x)"

lemma edone_of_Pair [simp]: "edone_of (r, fs) = (EDone r, fs)"
  by (simp add: edone_of_def)

text \<open>The rest of \<^verbatim>\<open>store_encrypted\<close> from each program point on.\<close>

definition enc_result :: "path \<Rightarrow> (crypto_error + nat) \<times> fs \<Rightarrow> (store_error + nat) \<times> fs" where
  "enc_result p x = (case x of
       (Inl e, fs) \<Rightarrow> (Inl (SIo (io_other e)), fs)
     | (Inr n, fs) \<Rightarrow> finalize_link (staging_path p) p n fs)"

lemma enc_result_simps [simp]:
  "enc_result p (Inl e, fs) = (Inl (SIo (io_other e)), fs)"
  "enc_result p (Inr n, fs) = finalize_link (staging_path p) p n fs"
  by (simp_all add: enc_result_def)

lemma erun_link:
  assumes "2 \<le> n"
  shows "epc_run age rs p input n (ELink m, fs) = edone_of (finalize_link (staging_path p) p m fs)"
proof -
  obtain k where "n = Suc (Suc k)" using assms by (metis add_2_eq_Suc le_Suc_ex)
  then show ?thesis
    by (cases "fs_hard_link (staging_path p) p fs")
      (auto simp: finalize_link_def discard_def split: sum.splits)
qed

lemma erun_flush:
  assumes "3 \<le> n"
  shows "epc_run age rs p input n (EFlush m, fs) =
     edone_of (enc_result p (case fs_flush fs of (Inl e, fs) \<Rightarrow> (Inl (CIo e), fs) | (Inr _, fs) \<Rightarrow> (Inr m, fs)))"
proof -
  obtain k where "n = Suc k" "2 \<le> k" using assms by (cases n) auto
  then show ?thesis by (cases "fs_flush fs") (auto simp: erun_link split: sum.splits)
qed

lemma erun_copy:
  assumes "length cs + 4 \<le> n"
  shows "epc_run age rs p input n (ECopy fd s m cs, fs) =
     edone_of (enc_result p
       (case copy_encrypt age s fd cs (snd input) m fs of
          (Inl e, fs) \<Rightarrow> (Inl (CIo e), fs)
        | (Inr (m, s, fd), fs) \<Rightarrow>
            (case write_all fd (stream_finish age s) fs of
               (Inl e, fs) \<Rightarrow> (Inl (CEncrypt (io_display e)), fs)
             | (Inr _, fs) \<Rightarrow>
                 (case fs_flush fs of (Inl e, fs) \<Rightarrow> (Inl (CIo e), fs) | (Inr _, fs) \<Rightarrow> (Inr m, fs)))))"
  using assms
proof (induction cs arbitrary: n m s fd fs)
  case Nil
  then obtain k where "n = Suc k" "3 \<le> k" by (cases n) auto
  then show ?case
    by (cases "write_all fd (stream_finish age s) fs")
      (auto simp: erun_flush split: option.splits sum.splits)
next
  case (Cons c cs)
  then obtain k where k: "n = Suc k" "length cs + 4 \<le> k" by (cases n) auto
  obtain out s' where w: "stream_write age s c = (out, s')" by fastforce
  from k w Cons.IH [OF k(2)] show ?case
    by (cases "write_all fd out fs") (auto split: sum.splits)
qed

lemma erun_head:
  assumes "length (fst input) + 5 \<le> n"
  shows "epc_run age rs p input n (EHead i, fs) = edone_of (enc_result p (encrypt_stream age rs input i fs))"
proof (cases "with_recipients age rs")
  case (Inl e)
  with assms show ?thesis by (cases n) (simp_all add: encrypt_stream_def)
next
  case (Inr e)
  obtain h s where w: "wrap_output age e (draws fs) = (h, s)" by fastforce
  from assms obtain k where "n = Suc k" "length (fst input) + 4 \<le> k" by (cases n) auto
  with Inr w show ?thesis
    by (cases "write_all (i, 0) h (fs\<lparr>draws := Suc (draws fs)\<rparr>)")
      (auto simp: encrypt_stream_def random_draw_def erun_copy split: sum.splits)
qed

lemma erun_open:
  assumes "length (fst input) + 6 \<le> n"
  shows "epc_run age rs p input n (EOpen, fs) =
     edone_of (case fs_open_write True (staging_path p) fs of
        (Inl e, fs) \<Rightarrow> (Inl (SIo (io_other (CIo e))), fs)
      | (Inr i, fs) \<Rightarrow> enc_result p (encrypt_stream age rs input i fs))"
proof -
  from assms obtain k where "n = Suc k" "length (fst input) + 5 \<le> k" by (cases n) auto
  then show ?thesis
    by (cases "fs_open_write True (staging_path p) fs") (auto simp: erun_head split: sum.splits)
qed

lemma erun_check:
  assumes "length (fst input) + 8 \<le> m"
  shows "epc_run age rs p input m (ECheck, fs) = edone_of (store_encrypted age p rs input fs)"
proof -
  let ?st = "staging_path p"
  obtain r1 fs1 where 1: "fs_try_exists p fs = (r1, fs1)" by fastforce
  obtain r2 fs2 where 2: "(case path_parent ?st of Some parent \<Rightarrow> fs_create_dir_all parent fs1
      | None \<Rightarrow> (Inr (), fs1)) = (r2, fs2)" by fastforce
  from assms obtain k where k: "m = Suc (Suc k)" "length (fst input) + 6 \<le> k"
    by (auto intro!: that [of "m - 2"])
  have mk: "epc_run age rs p input (Suc k) (EMkdir, fs1) = edone_of
      (case r2 of Inl e \<Rightarrow> (Inl (SIo e), fs2) | Inr _ \<Rightarrow>
         (case fs_open_write True ?st fs2 of
            (Inl e, fs) \<Rightarrow> (Inl (SIo (io_other (CIo e))), fs)
          | (Inr i, fs) \<Rightarrow> enc_result p (encrypt_stream age rs input i fs)))"
    by (cases r2) (simp_all add: 2 erun_open [OF k(2)])
  have "epc_run age rs p input (Suc (Suc k)) (ECheck, fs) = edone_of (store_encrypted age p rs input fs)"
  proof (cases "r1 = Inr True")
    case True
    with 1 show ?thesis by (simp add: store_encrypted_def)
  next
    case False
    with 1 have "epc_step age rs p input ECheck fs = (EMkdir, fs1)" by (cases r1) (auto split: bool.splits)
    moreover have "store_encrypted age p rs input fs = (case r2 of Inl e \<Rightarrow> (Inl (SIo e), fs2) | Inr _ \<Rightarrow>
         (case fs_open_write True ?st fs2 of
            (Inl e, fs) \<Rightarrow> (Inl (SIo (io_other (CIo e))), fs)
          | (Inr i, fs) \<Rightarrow> enc_result p (encrypt_stream age rs input i fs)))"
      using False 1 2 unfolding store_encrypted_def enc_result_def Let_def
      by (cases r1) (auto split: bool.splits sum.splits)
    ultimately show ?thesis unfolding epc_run_Suc [of _ _ _ _ "Suc k"] using mk by simp
  qed
  then show ?thesis unfolding k(1) .
qed

text \<open>
  The step machine is \<^verbatim>\<open>store_encrypted\<close>: run without interruption it stops, after at most eight
  steps more than there are chunks, with the result and the file system of \<open>store_encrypted\<close>, for
  every library, path, input, state and schedule of failures.
\<close>

theorem machine_is_store_encrypted:
  "epc_run age rs p input (n + length (fst input) + 8) (ECheck, fs) =
     (case store_encrypted age p rs input fs of (r, fs') \<Rightarrow> (EDone r, fs'))"
  by (cases "store_encrypted age p rs input fs") (simp add: erun_check)

end
