(* ===== verification/Put_Machine.thy ===== *)
theory Put_Machine
  imports Encrypted_Interleaving
begin

text \<open>
  The whole of \<^verbatim>\<open>put\<close> of the backend as a task that waits for one system call per step: the checks
  and the resolution of the path come first (they wait for nothing), then one of the three ways to
  store the data, for a connection test, an encrypted and a plain upload.
\<close>

datatype ('r, 's) task =
  TMkdir path string reader
| TOpen path reader
| TCopy "nat \<times> nat" nat "bytes list" "io_kind option"
| TPlain path nat reader pc
| TEnc path "'r list" reader "'s epc"
| TEnd "storage_error + nat"

definition put_begin :: "'r list option \<Rightarrow> reo_user \<Rightarrow> reader \<Rightarrow> path \<Rightarrow> nat \<Rightarrow> fs \<Rightarrow> ('r, 's) task" where
  "put_begin recips u input virt start_pos fs =
     (if \<not> capability_allowed (user_role u) OpPut then TEnd (Inl (Kind PermissionDenied))
      else
        (case user_role u of
           Viewer _ \<Rightarrow> TEnd (Inl (Kind PermissionDenied))
         | Uploader h \<Rightarrow>
             (case lossy_file_name virt of
                None \<Rightarrow> TEnd (Inl (Kind FileNameNotAllowedError))
              | Some filename \<Rightarrow>
                  if is_reolink_test_file filename
                  then TMkdir (path_join h (path_new QUARANTINE_DIR)) filename input
                  else
                    (case resolve fs (user_view u) virt of
                       Inl e \<Rightarrow> TEnd (Inl (path_err_to_storage e))
                     | Inr resolved \<Rightarrow>
                         (case recips of
                            Some rs \<Rightarrow>
                              if start_pos \<noteq> 0 then TEnd (Inl (Kind PermissionDenied))
                              else TEnc (age_suffix resolved) rs input ECheck
                          | None \<Rightarrow> TPlain resolved start_pos input PCheck)))))"

definition answer :: "store_error + nat \<Rightarrow> storage_error + nat" where
  "answer r = (case r of Inl e \<Rightarrow> Inl (store_error_to_storage e) | Inr n \<Rightarrow> Inr n)"

fun task_step :: "('r, 'k, 'e, 's, 'd) age_lib \<Rightarrow> ('r, 's) task \<Rightarrow> fs \<Rightarrow> ('r, 's) task \<times> fs" where
  "task_step age (TMkdir quarantine_dir filename input) fs =
     (case fs_create_dir_all quarantine_dir fs of
        (Inl e, fs) \<Rightarrow> (TEnd (Inl (FromIo e)), fs)
      | (Inr _, fs) \<Rightarrow> (TOpen (path_join quarantine_dir (path_new filename)) input, fs))"
| "task_step age (TOpen dest input) fs =
     (case fs_open_write True dest fs of
        (Inl e, fs) \<Rightarrow> (TEnd (Inl (FromIo e)), fs)
      | (Inr i, fs) \<Rightarrow> (TCopy (i, 0) 0 (fst input) (snd input), fs))"
| "task_step age (TCopy fd n [] err) fs =
     (case err of
        Some e \<Rightarrow> (TEnd (Inl (FromIo e)), fs)
      | None \<Rightarrow>
          (case fs_flush fs of
             (Inl e, fs) \<Rightarrow> (TEnd (Inl (FromIo e)), fs)
           | (Inr _, fs) \<Rightarrow> (TEnd (Inr n), fs)))"
| "task_step age (TCopy fd n (c # cs) err) fs =
     (case write_all fd c fs of
        (Inl e, fs) \<Rightarrow> (TEnd (Inl (FromIo e)), fs)
      | (Inr fd', fs) \<Rightarrow> (TCopy fd' (n + length c) cs err, fs))"
| "task_step age (TPlain p start_pos input pc) fs =
     (case pc_step p start_pos input pc fs of
        (PDone r, fs) \<Rightarrow> (TEnd (answer r), fs)
      | (pc, fs) \<Rightarrow> (TPlain p start_pos input pc, fs))"
| "task_step age (TEnc p rs input pc) fs =
     (case epc_step age rs p input pc fs of
        (EDone r, fs) \<Rightarrow> (TEnd (answer r), fs)
      | (pc, fs) \<Rightarrow> (TEnc p rs input pc, fs))"
| "task_step age (TEnd r) fs = (TEnd r, fs)"

section \<open>One task alone\<close>

definition task_run ::
    "('r, 'k, 'e, 's, 'd) age_lib \<Rightarrow> nat \<Rightarrow> ('r, 's) task \<times> fs \<Rightarrow> ('r, 's) task \<times> fs" where
  "task_run age n = ((\<lambda>(t, fs). task_step age t fs) ^^ n)"

lemma task_run_0 [simp]: "task_run age 0 x = x"
  by (simp add: task_run_def)

lemma task_run_Suc [simp]: "task_run age (Suc n) (t, fs) = task_run age n (task_step age t fs)"
  by (simp add: task_run_def funpow_swap1)

lemma task_run_end [simp]: "task_run age n (TEnd r, fs) = (TEnd r, fs)"
  by (induction n) simp_all

definition ended :: "(storage_error + nat) \<times> fs \<Rightarrow> ('r, 's) task \<times> fs" where
  "ended x = (TEnd (fst x), snd x)"

lemma ended_pair [simp]: "ended (r, fs) = (TEnd r, fs)"
  by (simp add: ended_def)

text \<open>A store runs inside its task step by step.\<close>

lemma run_plain:
  assumes "pc_run p s input n (pc, fs) = (PDone r, fs')" "\<And>q. pc \<noteq> PDone q"
  shows "task_run age n (TPlain p s input pc, fs) = (TEnd (answer r), fs')"
  using assms
proof (induction n arbitrary: pc fs)
  case (Suc n)
  obtain pc1 fs1 where 1: "pc_step p s input pc fs = (pc1, fs1)" by fastforce
  with Suc.prems(1) have run: "pc_run p s input n (pc1, fs1) = (PDone r, fs')" by simp
  show ?case
  proof (cases "\<exists>q. pc1 = PDone q")
    case True
    with run 1 show ?thesis by auto
  next
    case False
    with Suc.IH [OF run] 1 show ?thesis by (auto split: pc.splits)
  qed
qed simp

lemma run_enc:
  assumes "epc_run age rs p input n (pc, fs) = (EDone r, fs')" "\<And>q. pc \<noteq> EDone q"
  shows "task_run age n (TEnc p rs input pc, fs) = (TEnd (answer r), fs')"
  using assms
proof (induction n arbitrary: pc fs)
  case (Suc n)
  obtain pc1 fs1 where 1: "epc_step age rs p input pc fs = (pc1, fs1)" by fastforce
  with Suc.prems(1) have run: "epc_run age rs p input n (pc1, fs1) = (EDone r, fs')" by simp
  show ?case
  proof (cases "\<exists>q. pc1 = EDone q")
    case True
    with run 1 show ?thesis by auto
  next
    case False
    with Suc.IH [OF run] 1 show ?thesis by (auto split: epc.splits)
  qed
qed simp

lemma run_test_copy:
  assumes "length cs < n"
  shows "task_run age n (TCopy fd m cs err, fs) =
    ended (case copy_write fd cs err m fs of (Inl e, fs) \<Rightarrow> (Inl (FromIo e), fs) | (Inr k, fs) \<Rightarrow> (Inr k, fs))"
  using assms
proof (induction cs arbitrary: n fd m fs)
  case Nil
  then obtain k where "n = Suc k" by (cases n) auto
  then show ?case by (cases "fs_flush fs") (auto split: option.splits sum.splits)
next
  case (Cons c cs)
  then obtain k where "n = Suc k" "length cs < k" by (cases n) auto
  with Cons.IH show ?case by (cases "write_all fd c fs") (auto split: sum.splits)
qed

lemma run_test_file:
  assumes "length (fst input) + 3 \<le> n"
  shows "task_run age n (TMkdir (path_join h (path_new QUARANTINE_DIR)) f input, fs) =
    ended (put_quarantine h f input fs)"
proof -
  obtain k where k: "n = Suc (Suc k)" "length (fst input) < k"
    using assms by (auto intro!: that [of "n - 2"])
  let ?q = "path_join h (path_new QUARANTINE_DIR)"
  obtain r1 fs1 where 1: "fs_create_dir_all ?q fs = (r1, fs1)" by fastforce
  obtain r2 fs2 where 2: "fs_open_write True (path_join ?q (path_new f)) fs1 = (r2, fs2)" by fastforce
  from 1 2 k(2) show ?thesis
    unfolding k(1) put_quarantine_def Let_def
    by (cases r1; cases r2) (simp_all add: run_test_copy split: sum.splits prod.splits)
qed

lemma run_put:
  assumes "length (fst input) + 8 \<le> n"
  shows "task_run age n (put_begin recips u input virt s fs, fs) = ended (put age recips u input virt s fs)"
proof -
  have plain: "task_run age n (TPlain p s input PCheck, fs) = ended (store_result (store_stream p s input fs))" for p
    using run_plain [of p s input n PCheck fs _ _ age] run_check [OF assms, of p s fs]
    by (cases "store_stream p s input fs") (simp add: store_result_def answer_def)
  have enc: "task_run age n (TEnc p rs input ECheck, fs) = ended (store_result (store_encrypted age p rs input fs))" for p rs
    using run_enc [of age rs p input n ECheck fs] erun_check [OF assms, of age rs p fs]
    by (cases "store_encrypted age p rs input fs") (simp add: store_result_def answer_def)
  have test: "task_run age n (TMkdir (path_join h (path_new QUARANTINE_DIR)) f input, fs) =
      ended (put_quarantine h f input fs)" for h f
    using assms by (simp add: run_test_file)
  show ?thesis
    unfolding put_begin_def put_def
    by (simp add: plain enc test split: role.splits option.splits sum.splits)
qed

text \<open>
  (C16) The task is \<^verbatim>\<open>put\<close>: for every user, path, offset, input, recipients, file system and schedule
  of failures, the task that a \<^verbatim>\<open>STOR\<close> begins, run without interruption, ends after at most eight steps
  more than there are chunks, with the answer and the file system of \<open>put\<close>.
\<close>

theorem machine_is_put:
  "task_run age (n + length (fst input) + 8) (put_begin recips u input virt s fs, fs) =
     (case put age recips u input virt s fs of (r, fs') \<Rightarrow> (TEnd r, fs'))"
  by (cases "put age recips u input virt s fs") (simp add: run_put)

section \<open>Steps of a task\<close>

text \<open>How many steps a task may still make, whatever happens to the file system in between.\<close>

fun pc_work :: "reader \<Rightarrow> pc \<Rightarrow> nat" where
  "pc_work input PCheck = length (fst input) + 8"
| "pc_work input PStat = length (fst input) + 7"
| "pc_work input PMkdir = length (fst input) + 6"
| "pc_work input POpen = length (fst input) + 5"
| "pc_work input (PCopy i n cs) = length cs + 4"
| "pc_work input (PFlush n) = 3"
| "pc_work input (PLink n) = 2"
| "pc_work input (PDrop r) = 1"
| "pc_work input (PDone r) = 0"

fun epc_work :: "reader \<Rightarrow> 's epc \<Rightarrow> nat" where
  "epc_work input ECheck = length (fst input) + 8"
| "epc_work input EMkdir = length (fst input) + 7"
| "epc_work input EOpen = length (fst input) + 6"
| "epc_work input (EHead i) = length (fst input) + 5"
| "epc_work input (ECopy fd s n cs) = length cs + 4"
| "epc_work input (EFlush n) = 3"
| "epc_work input (ELink n) = 2"
| "epc_work input (EDrop r) = 1"
| "epc_work input (EDone r) = 0"

fun work :: "('r, 's) task \<Rightarrow> nat" where
  "work (TMkdir d f input) = length (fst input) + 3"
| "work (TOpen d input) = length (fst input) + 2"
| "work (TCopy fd n cs err) = length cs + 1"
| "work (TPlain p s input pc) = max 1 (pc_work input pc)"
| "work (TEnc p rs input pc) = max 1 (epc_work input pc)"
| "work (TEnd r) = 0"

lemma pc_step_work: "pc_step p s input pc fs = (pc', fs') \<Longrightarrow> (\<And>r. pc \<noteq> PDone r) \<Longrightarrow> pc_work input pc' < pc_work input pc"
  by (cases "(p, s, input, pc, fs)" rule: pc_step.cases)
    (auto split: prod.splits sum.splits bool.splits option.splits offset_verdict.splits)

lemma epc_step_work: "epc_step age rs p input pc fs = (pc', fs') \<Longrightarrow> (\<And>r. pc \<noteq> EDone r) \<Longrightarrow> epc_work input pc' < epc_work input pc"
  by (cases "(age, rs, p, input, pc, fs)" rule: epc_step.cases)
    (auto split: prod.splits sum.splits bool.splits option.splits)

lemma task_step_work:
  assumes "task_step age t fs = (t', fs')" "work t \<noteq> 0"
  shows "work t' < work t"
proof (cases t)
  case (TPlain p s input pc)
  obtain pc1 fs1 where 1: "pc_step p s input pc fs = (pc1, fs1)" by fastforce
  show ?thesis
  proof (cases "\<exists>r. pc1 = PDone r")
    case True
    with assms(1) 1 TPlain show ?thesis by auto
  next
    case False
    then have "\<And>r. pc \<noteq> PDone r" "pc_work input pc1 \<noteq> 0" using 1 by (auto, cases pc1, auto)
    with False assms(1) 1 TPlain pc_step_work [OF 1] show ?thesis by (auto split: pc.splits)
  qed
next
  case (TEnc p rs input pc)
  obtain pc1 fs1 where 1: "epc_step age rs p input pc fs = (pc1, fs1)" by fastforce
  show ?thesis
  proof (cases "\<exists>r. pc1 = EDone r")
    case True
    with assms(1) 1 TEnc show ?thesis by auto
  next
    case False
    then have "\<And>r. pc \<noteq> EDone r" "epc_work input pc1 \<noteq> 0" using 1 by (auto, cases pc1, auto)
    with False assms(1) 1 TEnc epc_step_work [OF 1] show ?thesis by (auto split: epc.splits)
  qed
next
  case (TCopy fd n cs err)
  with assms(1) show ?thesis by (cases cs) (auto split: option.splits prod.splits sum.splits)
qed (use assms in \<open>auto split: prod.splits sum.splits\<close>)

lemma work_0: "work t = 0 \<longleftrightarrow> (\<exists>r. t = TEnd r)"
  by (cases t) auto

lemma put_begin_work: "work (put_begin recips u input virt s fs) \<le> length (fst input) + 8"
  by (auto simp: put_begin_def split: role.splits option.splits sum.splits)

end
