(* ===== verification/Encrypted_System.thy ===== *)
theory Encrypted_System
  imports Encrypted_Interleaving
begin

text \<open>
  Any number of encrypted uploads that overlap in time.  At most one upload of a name wins, and uploads
  to different names do not interfere, as for plain uploads.  Two uploads to the same name damage
  each other worse than plain ones do, since an encrypted upload opens the shared staging file with
  truncation and writes at its own offset.
\<close>

record 's eupl =
  e_loc :: loc
  e_input :: reader
  e_pc :: "'s epc"

definition eupl_step ::
    "('r, 'k, 'e, 's, 'd) age_lib \<Rightarrow> 'r list \<Rightarrow> 's eupl \<Rightarrow> fs \<Rightarrow> 's eupl \<times> fs" where
  "eupl_step age rs u fs =
     (case epc_step age rs (abs_path (e_loc u)) (e_input u) (e_pc u) fs of
        (pc', fs') \<Rightarrow> (u\<lparr>e_pc := pc'\<rparr>, fs'))"

definition eupl_new :: "fs \<Rightarrow> 's eupl \<Rightarrow> bool" where
  "eupl_new fs u \<longleftrightarrow> upload_ok fs (e_loc u) \<and> e_pc u = ECheck"

abbreviation esys_step ::
    "('r, 'k, 'e, 's, 'd) age_lib \<Rightarrow> 'r list \<Rightarrow> 's eupl par \<Rightarrow> 's eupl par \<Rightarrow> bool" where
  "esys_step age rs \<equiv> par_step (eupl_step age rs) eupl_new"

section \<open>The frame of one step\<close>

fun epc_inodes :: "'s epc \<Rightarrow> nat set" where
  "epc_inodes (EHead i) = {i}"
| "epc_inodes (ECopy fd s n cs) = {fst fd}"
| "epc_inodes _ = {}"

definition epc_ok :: "fs \<Rightarrow> 's epc \<Rightarrow> bool" where
  "epc_ok fs pc \<longleftrightarrow> (\<forall>i \<in> epc_inodes pc. i < next_ino fs)"

lemma frame_write:
  assumes "fs_wf fs" "write_all fd bs fs = (r, fs')" "fst fd < next_ino fs" "fst fd \<in> I"
  shows "up_frame l I fs fs' \<and> dent_at fs' = dent_at fs \<and> next_ino fs' = next_ino fs \<and>
    (\<forall>fd'. r = Inr fd' \<longrightarrow> fd' = (fst fd, snd fd + length bs) \<and>
       bytes_of fs' (fst fd) = overwrite (snd fd) bs (bytes_of fs (fst fd))) \<and>
    (\<forall>j. j \<noteq> fst fd \<longrightarrow> bytes_of fs' j = bytes_of fs j)"
proof -
  obtain i off where fd: "fd = (i, off)" by (cases fd)
  obtain r1 fs1 where 1: "fs_write_at i off bs fs = (r1, fs1)" by fastforce
  from assms(2) 1 have fs': "fs' = fs1" "\<And>fd'. r = Inr fd' \<Longrightarrow> r1 = Inr () \<and> fd' = (i, off + length bs)"
    by (auto simp: fd write_all_def split: sum.splits)
  from assms(3,4) have i: "i < next_ino fs" "i \<in> I" by (simp_all add: fd)
  note f = fs_write_at_frame [OF 1 assms(1) i(2,1), of "{stg l}" "upload_ents l"]
    and g = fs_write_at_frame [OF 1 assms(1) _ i(1), of "{i}" "{stg l}" "upload_ents l", simplified]
  from g have "\<forall>j. j \<noteq> i \<longrightarrow> bytes_of fs1 j = bytes_of fs j" by (auto dest: evolves_bytes)
  with f fs' show ?thesis by (auto simp: fd up_frame_def)
qed

lemma epc_step_frame:
  assumes ok: "upload_ok fs l" and pc: "epc_ok fs pc"
    and step: "epc_step age rs (abs_path l) input pc fs = (pc', fs')"
  shows "up_frame l (upload_inodes fs l \<union> epc_inodes pc) fs fs' \<and> epc_ok fs' pc'"
proof -
  from ok have wf: "fs_wf fs" and ne: "l \<noteq> []" by (simp_all add: upload_ok_def)
  note stgp = staging_path_abs [OF ne] staging_parent_abs
  note wr = frame_write [OF wf, of _ _ _ _ "upload_inodes fs l \<union> epc_inodes pc" l]
  show ?thesis
  proof (cases pc)
    case ECheck
    with step wf show ?thesis
      by (auto simp: epc_ok_def split: prod.splits sum.splits bool.splits dest!: fs_try_exists_state)
  next
    case EMkdir
    with step frame_mkdirs [OF ok] show ?thesis
      by (auto simp: stgp epc_ok_def split: prod.splits sum.splits)
  next
    case EOpen
    with step frame_open [OF ok] show ?thesis
      by (fastforce simp: stgp epc_ok_def split: prod.splits sum.splits)
  next
    case (EHead i)
    with pc have "i < next_ino fs" by (simp add: epc_ok_def)
    with step EHead wf wr [of "(i, 0)"] show ?thesis
      by (fastforce simp: epc_ok_def random_draw_def write_all_draws split: prod.splits sum.splits)
  next
    case (ECopy fd s n cs)
    with pc have "fst fd < next_ino fs" by (simp add: epc_ok_def)
    with step ECopy wf wr [of fd] show ?thesis
      by (cases cs) (fastforce simp: epc_ok_def split: option.splits prod.splits sum.splits)+
  next
    case (EFlush n)
    with step wf show ?thesis by (auto simp: epc_ok_def split: prod.splits sum.splits dest!: fs_flush_state)
  next
    case (ELink n)
    with step frame_link [OF ok] show ?thesis
      by (auto simp: stgp epc_ok_def split: prod.splits sum.splits)
  next
    case (EDrop r)
    with step frame_remove [OF ok, of "fst (fs_remove_file (abs_path (stg l)) fs)" fs'] show ?thesis
      by (auto simp: stgp epc_ok_def prod_eq_iff)
  next
    case (EDone r)
    with step wf show ?thesis by (auto simp: epc_ok_def)
  qed
qed

definition eupl_ok :: "fs \<Rightarrow> 's eupl \<Rightarrow> bool" where
  "eupl_ok fs u \<longleftrightarrow> upload_ok fs (e_loc u) \<and> epc_ok fs (e_pc u)"

lemma eupl_step_cases:
  assumes "eupl_step age rs u fs = (u', fs')"
  obtains pc' where "epc_step age rs (abs_path (e_loc u)) (e_input u) (e_pc u) fs = (pc', fs')"
    "u' = u\<lparr>e_pc := pc'\<rparr>"
  using assms by (auto simp: eupl_step_def split: prod.splits)

lemma epc_ok_frame: "up_frame l I fs fs' \<Longrightarrow> epc_ok fs pc \<Longrightarrow> epc_ok fs' pc"
  using evolves_next [OF up_frame_elims(2)] unfolding epc_ok_def by fastforce

lemma eupl_step_frame:
  assumes "eupl_ok fs u" "eupl_step age rs u fs = (u', fs')"
  shows "e_loc u' = e_loc u \<and> eupl_ok fs' u' \<and>
    up_frame (e_loc u) (upload_inodes fs (e_loc u) \<union> epc_inodes (e_pc u)) fs fs'"
  using assms(2)
proof (cases rule: eupl_step_cases)
  case (1 pc')
  from assms(1) have ok: "upload_ok fs (e_loc u)" "epc_ok fs (e_pc u)" by (simp_all add: eupl_ok_def)
  from epc_step_frame [OF this 1(1)] upload_ok_frame [OF _ ok(1)] show ?thesis
    by (auto simp: 1(2) eupl_ok_def)
qed

section \<open>One winner\<close>

fun ewon :: "'s epc \<Rightarrow> bool" where
  "ewon (EDrop (Inr n)) = True"
| "ewon (EDone (Inr n)) = True"
| "ewon _ = False"

lemma epc_step_wins:
  assumes "upload_ok fs l" "epc_step age rs (abs_path l) input pc fs = (pc', fs')" "ewon pc'" "\<not> ewon pc"
  shows "dent_at fs l = None \<and> dent_at fs' l \<noteq> None"
proof -
  from assms(1) have stgp: "staging_path (abs_path l) = abs_path (stg l)"
    by (simp add: upload_ok_def staging_path_abs)
  show ?thesis
  proof (cases pc)
    case (ELink n)
    with assms(2,3) have "fs_hard_link (abs_path (stg l)) (abs_path l) fs = (Inr (), fs')"
      by (auto simp: stgp split: prod.splits sum.splits)
    with frame_link [OF assms(1)] show ?thesis by fastforce
  next
    case (ECopy fd s n cs)
    with assms(2,3) show ?thesis by (cases cs) (auto split: option.splits prod.splits sum.splits)
  next
    case (EDrop r)
    with assms(2-4) show ?thesis by (cases r) auto
  qed (use assms(2-4) in \<open>auto split: prod.splits sum.splits bool.splits option.splits\<close>)
qed

interpretation enc: par_uploads "eupl_step age rs" eupl_new eupl_ok e_loc "\<lambda>u. ewon (e_pc u)"
  for age :: "('r, 'k, 'e, 's, 'd) age_lib" and rs
proof unfold_locales
  show "e_loc u' = e_loc u \<and> eupl_ok fs' u' \<and> (\<exists>I. up_frame (e_loc u) I fs fs')"
    if "eupl_ok fs u" "eupl_step age rs u fs = (u', fs')" for fs u u' fs'
    using eupl_step_frame [OF that] by blast
  show "eupl_ok fs' v" if "eupl_ok fs v" "up_frame l I fs fs'" for fs and v :: "'s eupl" and l I fs'
    using that by (auto simp: eupl_ok_def intro: upload_ok_frame epc_ok_frame)
  show "dent_at fs (e_loc u) = None \<and> dent_at fs' (e_loc u) \<noteq> None"
    if "eupl_ok fs u" "eupl_step age rs u fs = (u', fs')" "ewon (e_pc u')" "\<not> ewon (e_pc u)" for fs u u' fs'
    using that(2)
  proof (cases rule: eupl_step_cases)
    case (1 pc')
    with epc_step_wins [OF _ 1(1)] that show ?thesis by (simp add: eupl_ok_def)
  qed
qed (simp_all add: eupl_ok_def eupl_new_def epc_ok_def)

section \<open>Uploads to different names\<close>

text \<open>How far an upload that nobody interferes with has come.\<close>

definition efinished ::
    "('r, 'k, 'e, 's, 'd) age_lib \<Rightarrow> 'r list \<Rightarrow> reader \<Rightarrow> nat \<Rightarrow> loc \<Rightarrow> fs \<Rightarrow> bool" where
  "efinished age rs input n k fs \<longleftrightarrow> snd input = None \<and> n = length (concat (fst input)) \<and>
     (\<exists>e r. with_recipients age rs = Inr e \<and> content fs k = Some (age_ciphertext age e r (fst input)))"

fun eprogress ::
    "('r, 'k, 'e, 's, 'd) age_lib \<Rightarrow> 'r list \<Rightarrow> loc \<Rightarrow> reader \<Rightarrow> 's epc \<Rightarrow> fs \<Rightarrow> bool" where
  "eprogress age rs l input (EHead i) fs \<longleftrightarrow> dent_at fs (stg l) = Some (DFile i) \<and> bytes_of fs i = []"
| "eprogress age rs l input (ECopy fd s n cs) fs \<longleftrightarrow>
     dent_at fs (stg l) = Some (DFile (fst fd)) \<and> snd fd = length (bytes_of fs (fst fd)) \<and>
     n + length (concat cs) = length (concat (fst input)) \<and>
     (\<exists>e k. with_recipients age rs = Inr e \<and>
        bytes_of fs (fst fd) @ age_body age s cs = age_ciphertext age e k (fst input))"
| "eprogress age rs l input (EFlush n) fs \<longleftrightarrow> efinished age rs input n (stg l) fs"
| "eprogress age rs l input (ELink n) fs \<longleftrightarrow> efinished age rs input n (stg l) fs"
| "eprogress age rs l input (EDrop (Inr n)) fs \<longleftrightarrow> efinished age rs input n l fs"
| "eprogress age rs l input (EDone (Inr n)) fs \<longleftrightarrow> efinished age rs input n l fs"
| "eprogress age rs l input pc fs \<longleftrightarrow> True"

lemma eprogress_copy:
  assumes "eprogress age rs l input (ECopy fd s n cs) fs" "fs_wf fs" "fst fd < next_ino fs"
    and step: "epc_step age rs (abs_path l) input (ECopy fd s n cs) fs = (pc', fs')"
  shows "eprogress age rs l input pc' fs'"
proof -
  note wr = frame_write [OF assms(2) _ assms(3) insertI1, where l = l]
  from assms(1) obtain e k where p: "dent_at fs (stg l) = Some (DFile (fst fd))" "snd fd = length (bytes_of fs (fst fd))"
    "n + length (concat cs) = length (concat (fst input))" "with_recipients age rs = Inr e"
    "bytes_of fs (fst fd) @ age_body age s cs = age_ciphertext age e k (fst input)" by auto
  show ?thesis
  proof (cases cs)
    case Nil
    obtain r fs1 where 1: "write_all fd (stream_finish age s) fs = (r, fs1)" by fastforce
    from wr [OF 1] p Nil 1 step show ?thesis
      by (cases "snd input"; cases r) (auto simp: efinished_def content_def overwrite_end)
  next
    case (Cons c cs')
    obtain out s' where w: "stream_write age s c = (out, s')" by fastforce
    obtain r fs1 where 1: "write_all fd out fs = (r, fs1)" by fastforce
    from wr [OF 1] p Cons 1 w step show ?thesis by (cases r) (auto simp: overwrite_end)
  qed
qed

lemma eprogress_head:
  assumes "eprogress age rs l input (EHead i) fs" "fs_wf fs" "i < next_ino fs"
    and step: "epc_step age rs (abs_path l) input (EHead i) fs = (pc', fs')"
  shows "eprogress age rs l input pc' fs'"
proof (cases "with_recipients age rs")
  case (Inl e)
  with step show ?thesis by auto
next
  case (Inr e)
  let ?fs = "fs\<lparr>draws := Suc (draws fs)\<rparr>"
  obtain h s where w: "wrap_output age e (draws fs) = (h, s)" by fastforce
  obtain r fs1 where 1: "write_all (i, 0) h ?fs = (r, fs1)" by fastforce
  note wr = frame_write [OF _ 1, of "{i}" l, simplified, OF assms(2)]
  from wr assms(1,3) Inr w 1 step show ?thesis
    by (cases r) (auto simp: age_ciphertext_def overwrite_def random_draw_def intro!: exI [of _ "draws fs"])
qed

lemma eprogress_own:
  assumes ok: "upload_ok fs l" and pc: "epc_ok fs pc" and prog: "eprogress age rs l input pc fs"
    and step: "epc_step age rs (abs_path l) input pc fs = (pc', fs')"
  shows "eprogress age rs l input pc' fs'"
proof -
  from ok have wf: "fs_wf fs" and ne: "l \<noteq> []" by (simp_all add: upload_ok_def)
  note stgp = staging_path_abs [OF ne] staging_parent_abs
  show ?thesis
  proof (cases pc)
    case EOpen
    with step frame_open [OF ok, of True] show ?thesis by (auto simp: stgp split: prod.splits sum.splits)
  next
    case (EHead i)
    with pc have "i < next_ino fs" by (simp add: epc_ok_def)
    then show ?thesis using eprogress_head [OF prog [unfolded EHead] wf _ step [unfolded EHead]] by simp
  next
    case (ECopy fd s n cs)
    with pc have "fst fd < next_ino fs" by (simp add: epc_ok_def)
    then show ?thesis using eprogress_copy [OF prog [unfolded ECopy] wf _ step [unfolded ECopy]] by simp
  next
    case (EFlush n)
    with step prog show ?thesis by (auto simp: efinished_def split: prod.splits sum.splits dest!: fs_flush_state)
  next
    case (ELink n)
    with step prog frame_link [OF ok] show ?thesis
      by (fastforce simp: stgp efinished_def content_def split: prod.splits sum.splits)
  next
    case (EDrop r)
    with step prog remove_keeps_final [OF ok, of "fst (fs_remove_file (abs_path (stg l)) fs)" fs']
    show ?thesis by (cases r) (auto simp: stgp efinished_def prod_eq_iff)
  qed (use step prog in \<open>auto simp: stgp split: prod.splits sum.splits bool.splits\<close>)
qed

lemma epaired_step:
  assumes ok: "upload_ok fs l" and "paired fs" "\<not> scratch l" "epc_ok fs pc"
    and step: "epc_step age rs (abs_path l) input pc fs = (pc', fs')"
  shows "paired fs'"
proof -
  from ok have wf: "fs_wf fs" and ne: "l \<noteq> []" by (simp_all add: upload_ok_def)
  note stgp = staging_path_abs [OF ne] staging_parent_abs
  have wrt: "paired fs1" if "write_all fd bs fs = (r, fs1)" "fst fd < next_ino fs" for fd bs r fs1
    using frame_write [OF wf that UNIV_I, of l] paired_dents [of fs1 fs] assms(2) by blast
  show ?thesis
  proof (cases pc)
    case EMkdir
    with step paired_mkdirs [OF ok assms(2)] show ?thesis by (auto simp: stgp split: prod.splits sum.splits)
  next
    case EOpen
    with step paired_open [OF ok assms(2)] show ?thesis by (auto simp: stgp split: prod.splits sum.splits)
  next
    case (EHead i)
    with step wrt [of "(i, 0)"] assms(2,4) show ?thesis
      by (auto simp: epc_ok_def random_draw_def write_all_draws split: prod.splits sum.splits)
  next
    case (ECopy fd s n cs)
    with step wrt [of fd] assms(2,4) show ?thesis
      by (cases cs) (auto simp: epc_ok_def split: option.splits prod.splits sum.splits)
  next
    case (ELink n)
    with step paired_link [OF ok assms(2,3)] show ?thesis by (auto simp: stgp split: prod.splits sum.splits)
  next
    case (EDrop r)
    with step paired_remove [OF ok assms(2), of "fst (fs_remove_file (abs_path (stg l)) fs)"] show ?thesis
      by (auto simp: stgp prod_eq_iff)
  qed (use step assms(2) in \<open>auto simp: stgp split: prod.splits sum.splits bool.splits dest!: read_only_calls\<close>)
qed

subsection \<open>The final name\<close>

text \<open>
  The staging name leads to the finished file: left over when a finished upload was stopped before it
  could remove the staging name.  Unless this is so, what an upload does to its staging file does not
  show in a file that has the final name.
\<close>

definition linked :: "fs \<Rightarrow> loc \<Rightarrow> bool" where
  "linked fs l \<longleftrightarrow> (\<exists>i. dent_at fs l = Some (DFile i) \<and> dent_at fs (stg l) = Some (DFile i))"

lemma linked_same: "same_file fs fs' l \<Longrightarrow> same_file fs fs' (stg l) \<Longrightarrow> linked fs' l = linked fs l"
  by (simp add: linked_def same_file_def)

lemma linked_faults [simp]: "linked (fs\<lparr>faults := fl\<rparr>) l = linked fs l"
  by (simp add: linked_def)

definition final_kept :: "loc \<Rightarrow> fs \<Rightarrow> fs \<Rightarrow> bool" where
  "final_kept l fs fs' \<longleftrightarrow> content fs' l = content fs l \<and> \<not> linked fs' l"

lemma kept_faults [simp]: "final_kept l fs (fs\<lparr>faults := fl\<rparr>) \<longleftrightarrow> \<not> linked fs l"
  by (simp add: final_kept_def)

lemma kept_draws [simp]: "final_kept l fs (fs'\<lparr>draws := n\<rparr>) \<longleftrightarrow> final_kept l fs fs'"
  by (simp add: final_kept_def linked_def)

lemma kept_refl [simp]: "final_kept l fs fs \<longleftrightarrow> \<not> linked fs l"
  by (simp add: final_kept_def)

lemma kept_mkdirs:
  assumes "upload_ok fs l" "fs_create_dir_all (abs_path (butlast l)) fs = (r, fs')" "\<not> linked fs l"
  shows "final_kept l fs fs'"
proof -
  from up_mkdirs [OF up_inv_refl [OF assms(1)] assms(2)] have ev: "evolves {} (dirs_to (butlast l)) {} fs fs'" by blast
  from evolves_file [OF ev] assms(3) have "\<not> linked fs' l" unfolding linked_def by blast
  with mkdirs_content [OF assms(1,2)] show ?thesis by (simp add: final_kept_def)
qed

lemma kept_open:
  assumes "upload_ok fs l" "fs_open_write True (abs_path (stg l)) fs = (r, fs')" "\<not> linked fs l"
  shows "final_kept l fs fs'"
proof -
  note e = up_inv_elims [OF up_inv_refl [OF assms(1)]]
  let ?I = "insert (next_ino fs) {i. dent_at fs (stg l) = Some (DFile i)}"
  from fs_open_write_frame [OF assms(2) e(1,4) stg_simps(1), of ?I "{}"]
  have ev: "evolves {} {stg l} ?I fs fs'" by simp
  have d: "dent_at fs' l = dent_at fs l" using stg_neq(2) [OF e(2)] by (intro evolves_other [OF ev]) auto
  have apart: "i \<notin> ?I" if "dent_at fs l = Some (DFile i)" for i
    using that assms(3) fs_wf_inode [OF e(1) that] by (auto simp: linked_def)
  have "same_file fs fs' l"
    by (rule same_fileI) (use d apart evolves_bytes [OF ev] in auto)
  moreover have "\<not> linked fs' l"
    using d apart assms(3) evolves_file [OF ev, of "stg l"] unfolding linked_def by metis
  ultimately show ?thesis by (simp add: final_kept_def same_file_def)
qed

lemma kept_write:
  assumes "fs_wf fs" "write_all fd bs fs = (r, fs')" "fst fd < next_ino fs"
    and "dent_at fs (stg l) = Some (DFile (fst fd))" "\<not> linked fs l"
  shows "final_kept l fs fs'"
proof -
  from frame_write [OF assms(1-3) UNIV_I, of l] have d: "dent_at fs' = dent_at fs"
    and b: "\<And>j. j \<noteq> fst fd \<Longrightarrow> bytes_of fs' j = bytes_of fs j" by blast+
  from assms(4,5) have "dent_at fs l \<noteq> Some (DFile (fst fd))" by (auto simp: linked_def)
  then have "same_file fs fs' l" by (intro same_fileI) (use b d in auto)
  with d assms(5) show ?thesis by (simp add: final_kept_def same_file_def linked_def)
qed

lemma kept_remove:
  assumes "upload_ok fs l" "fs_remove_file (abs_path (stg l)) fs = (r, fs')" "\<not> linked fs l"
  shows "final_kept l fs fs'"
proof -
  from up_remove [OF up_inv_refl [OF assms(1)] assms(2)] have ev: "evolves {stg l} {} {} fs fs'" by blast
  from evolves_file [OF ev] assms(3) have "\<not> linked fs' l" unfolding linked_def by blast
  with remove_keeps_final [OF assms(1,2)] show ?thesis by (simp add: final_kept_def)
qed

lemma epc_step_keeps:
  assumes ok: "upload_ok fs l" and pc: "epc_ok fs pc" and prog: "eprogress age rs l input pc fs"
    and step: "epc_step age rs (abs_path l) input pc fs = (pc', fs')"
    and nl: "\<not> linked fs l" and lose: "\<not> ewon pc'"
  shows "final_kept l fs fs'"
proof -
  from ok have wf: "fs_wf fs" and ne: "l \<noteq> []" by (simp_all add: upload_ok_def)
  note stgp = staging_path_abs [OF ne] staging_parent_abs
  note wr = kept_write [OF wf _ _ _ nl]
  show ?thesis
  proof (cases pc)
    case EMkdir
    with step kept_mkdirs [OF ok _ nl] show ?thesis by (auto simp: stgp split: prod.splits sum.splits)
  next
    case EOpen
    with step kept_open [OF ok _ nl] show ?thesis by (auto simp: stgp split: prod.splits sum.splits)
  next
    case (EHead i)
    with step pc prog nl wr [of "(i, 0)"] show ?thesis
      by (auto simp: epc_ok_def random_draw_def write_all_draws split: prod.splits sum.splits)
  next
    case (ECopy fd s n cs)
    with step pc prog nl wr [of fd] show ?thesis
      by (cases cs) (auto simp: epc_ok_def split: option.splits prod.splits sum.splits)
  next
    case (ELink n)
    with step lose nl frame_link [OF ok] show ?thesis by (fastforce simp: stgp split: prod.splits sum.splits)
  next
    case (EDrop r)
    with step kept_remove [OF ok _ nl, of "fst (fs_remove_file (abs_path (stg l)) fs)" fs'] show ?thesis
      by (auto simp: stgp prod_eq_iff)
  qed (use step nl in \<open>auto simp: stgp split: prod.splits sum.splits bool.splits dest!: read_only_calls\<close>)
qed

subsection \<open>The system\<close>

definition eupl_prog ::
    "('r, 'k, 'e, 's, 'd) age_lib \<Rightarrow> 'r list \<Rightarrow> fs \<Rightarrow> 's eupl \<Rightarrow> fs \<Rightarrow> bool" where
  "eupl_prog age rs fs0 u fs \<longleftrightarrow>
     eprogress age rs (e_loc u) (e_input u) (e_pc u) fs \<and>
     (\<not> linked fs0 (e_loc u) \<longrightarrow>
        (if ewon (e_pc u) then content fs0 (e_loc u) = None else final_kept (e_loc u) fs0 fs))"

lemma eprogress_same:
  assumes "eprogress age rs l input pc fs" "same_file fs fs' l" "same_file fs fs' (stg l)"
  shows "eprogress age rs l input pc fs'"
proof -
  have b: "dent_at fs' (stg l) = Some (DFile i) \<and> bytes_of fs' i = bytes_of fs i"
    if "dent_at fs (stg l) = Some (DFile i)" for i
  proof -
    from that assms(3) have "dent_at fs' (stg l) = Some (DFile i)" by (simp add: same_file_def)
    with that assms(3) show ?thesis by (simp add: same_file_def content_def)
  qed
  show ?thesis
  proof (cases pc)
    case (EDrop r)
    with assms show ?thesis by (cases r) (simp_all add: efinished_def same_file_def)
  next
    case (EDone r)
    with assms show ?thesis by (cases r) (simp_all add: efinished_def same_file_def)
  next
    case (EHead i)
    with assms(1) b [of i] show ?thesis by simp
  next
    case (ECopy fd s n cs)
    with assms(1) b [of "fst fd"] show ?thesis by simp
  qed (use assms in \<open>simp_all add: efinished_def same_file_def\<close>)
qed

lemma ewon_stays: "epc_step age rs p input pc fs = (pc', fs') \<Longrightarrow> ewon pc \<Longrightarrow> ewon pc'"
  by (cases pc rule: ewon.cases) auto

lemma eupl_prog_own:
  assumes "eupl_ok fs u" "eupl_prog age rs fs0 u fs" "eupl_step age rs u fs = (u', fs')"
  shows "eupl_prog age rs fs0 u' fs'"
  using assms(3)
proof (cases rule: eupl_step_cases)
  case (1 pc')
  let ?l = "e_loc u"
  from assms(1) have ok: "upload_ok fs ?l" "epc_ok fs (e_pc u)" by (simp_all add: eupl_ok_def)
  from assms(2) have p: "eprogress age rs ?l (e_input u) (e_pc u) fs" by (simp add: eupl_prog_def)
  have "if ewon pc' then content fs0 ?l = None else final_kept ?l fs0 fs'" if nl: "\<not> linked fs0 ?l"
  proof (cases "ewon (e_pc u)")
    case True
    with assms(2) nl ewon_stays [OF 1(1)] show ?thesis by (simp add: eupl_prog_def)
  next
    case False
    with assms(2) nl have k: "content fs ?l = content fs0 ?l" "\<not> linked fs ?l"
      by (simp_all add: eupl_prog_def final_kept_def)
    show ?thesis
    proof (cases "ewon pc'")
      case True
      with epc_step_wins [OF ok(1) 1(1) True False] k(1) show ?thesis by (simp add: content_def)
    next
      case False
      with epc_step_keeps [OF ok p 1(1) k(2)] k(1) show ?thesis by (simp add: final_kept_def)
    qed
  qed
  with eprogress_own [OF ok p 1(1)] show ?thesis by (simp add: 1(2) eupl_prog_def)
qed

interpretation enc: apart_uploads "eupl_step age rs" eupl_new eupl_ok e_loc "\<lambda>u. ewon (e_pc u)" "eupl_prog age rs"
  for age :: "('r, 'k, 'e, 's, 'd) age_lib" and rs
proof unfold_locales
  fix fs u fs0 u' fs'
  assume a: "eupl_ok fs u" "eupl_prog age rs fs0 u fs" "eupl_step age rs u fs = (u', fs')"
  from a(2) have "epc_inodes (e_pc u) \<subseteq> upload_inodes fs (e_loc u)"
    unfolding eupl_prog_def by (cases "e_pc u") (auto simp: upload_inodes_def)
  with eupl_step_frame [OF a(1,3)] show "up_frame (e_loc u) (upload_inodes fs (e_loc u)) fs fs'"
    by (simp add: Un_absorb2)
  show "eupl_prog age rs fs0 u' fs'" using a by (rule eupl_prog_own)
  show "paired fs'" if "\<not> scratch (e_loc u)" "paired fs"
    using a(3)
  proof (cases rule: eupl_step_cases)
    case (1 pc')
    with a(1) that show ?thesis by (auto simp: eupl_ok_def intro: epaired_step [of fs "e_loc u"])
  qed
next
  fix fs0 u fs fs'
  assume a: "eupl_prog age rs fs0 u fs" "same_file fs fs' (e_loc u)" "same_file fs fs' (stg (e_loc u))"
  moreover from this have "content fs' (e_loc u) = content fs (e_loc u)" by (simp add: same_file_def)
  ultimately show "eupl_prog age rs fs0 u fs'"
    unfolding eupl_prog_def final_kept_def using eprogress_same linked_same [OF a(2,3)] by metis
next
  fix fs fs0 and u :: "'s eupl"
  assume "eupl_new fs u" "same_file fs0 fs (e_loc u)" "same_file fs0 fs (stg (e_loc u))"
  then show "eupl_prog age rs fs0 u fs"
    using linked_same [of fs0 fs "e_loc u"] by (simp add: eupl_new_def eupl_prog_def final_kept_def same_file_def)
qed

text \<open>
  (C17) Encrypted uploads to different names, in any interleaving, with any failures, and stopped at
  any point: a name whose content differs from before was free and now holds the complete
  ciphertext, for the configured recipients, of an upload to it.  (No staging name may be left over
  as a second name of a finished file.)
\<close>

theorem encrypted_uploads_atomic:
  assumes "(esys_step age rs)\<^sup>*\<^sup>* \<lparr>uploads = [], disk = fs\<rparr> s" "fs_wf fs" "paired fs"
    and "distinct (map e_loc (uploads s))" "\<forall>u \<in> set (uploads s). \<not> scratch (e_loc u)"
    and "l \<noteq> []" "\<not> scratch l" "\<not> linked fs l" "content (disk s) l \<noteq> content fs l"
  shows "content fs l = None \<and>
    (\<exists>u \<in> set (uploads s). \<exists>e k. e_loc u = l \<and> snd (e_input u) = None \<and> with_recipients age rs = Inr e \<and>
       content (disk s) l = Some (age_ciphertext age e k (fst (e_input u))))"
proof -
  note inv = enc.par_invD [OF enc.par_inv_reach [OF assms(1-5)]]
  from inv(5) [OF assms(6,7)] assms(9) obtain u where u: "u \<in> set (uploads s)" "e_loc u = l"
    unfolding same_file_def by blast
  from inv(4) [OF u(1)] u(2) assms(8,9) have w: "ewon (e_pc u)" "content fs l = None"
    "eprogress age rs l (e_input u) (e_pc u) (disk s)"
    by (auto simp: eupl_prog_def final_kept_def split: if_splits)
  from w(1,3) have "\<exists>n. efinished age rs (e_input u) n l (disk s)"
    by (cases "e_pc u" rule: ewon.cases) auto
  with u w(2) show ?thesis by (fastforce simp: efinished_def)
qed

lemma encrypted_one_upload_wins:
  assumes "(esys_step age rs)\<^sup>*\<^sup>* \<lparr>uploads = [], disk = fs\<rparr> s" "fs_wf fs" "\<not> scratch l"
  shows "length (filter (\<lambda>u. e_loc u = l \<and> ewon (e_pc u)) (uploads s)) \<le> 1"
  using assms by (rule enc.one_wins)

section \<open>Schedules\<close>

definition esched ::
    "('r, 'k, 'e, 's, 'd) age_lib \<Rightarrow> 'r list \<Rightarrow> nat \<Rightarrow> 's eupl par \<Rightarrow> 's eupl par" where
  "esched age rs j s =
     (if j < length (uploads s) then
        let (u', fs') = eupl_step age rs (uploads s ! j) (disk s)
        in s\<lparr>uploads := (uploads s)[j := u'], disk := fs'\<rparr>
      else s)"

definition earrivals :: "(loc \<times> reader) list \<Rightarrow> fs \<Rightarrow> 's eupl par" where
  "earrivals as fs = \<lparr>uploads = map (\<lambda>(l, input). \<lparr>e_loc = l, e_input = input, e_pc = ECheck\<rparr>) as, disk = fs\<rparr>"

lemma esched_reach: "(esys_step age rs)\<^sup>*\<^sup>* s (fold (esched age rs) js s)"
proof (induction js arbitrary: s)
  case (Cons j js)
  have "(esys_step age rs)\<^sup>*\<^sup>* s (esched age rs j s)"
  proof (cases "j < length (uploads s)")
    case True
    obtain u' fs' where "eupl_step age rs (uploads s ! j) (disk s) = (u', fs')" by fastforce
    with True run [of j s "eupl_step age rs" u' fs' eupl_new] show ?thesis by (simp add: esched_def r_into_rtranclp)
  qed (simp add: esched_def)
  with Cons.IH [of "esched age rs j s"] show ?case by simp
qed simp

lemma earrivals_reach:
  assumes "\<forall>(l, input) \<in> set as. upload_ok fs l"
  shows "(esys_step age rs)\<^sup>*\<^sup>* \<lparr>uploads = [], disk = fs\<rparr> (earrivals as fs)"
  using assms
proof (induction as rule: rev_induct)
  case (snoc a as)
  obtain l input where a: "a = (l, input)" by (cases a)
  with snoc.prems arrive [of eupl_new "earrivals as fs" "\<lparr>e_loc = l, e_input = input, e_pc = ECheck\<rparr>" "eupl_step age rs"]
  have "esys_step age rs (earrivals as fs) (earrivals (as @ [a]) fs)"
    by (simp add: earrivals_def eupl_new_def)
  with snoc show ?case by auto
qed (simp add: earrivals_def)

definition bare_fs :: fs where
  "bare_fs = demo_fs\<lparr>ents := [], inodes := Map.empty, next_ino := 0\<rparr>"

lemma bare_fs_ok: "fs_wf bare_fs" "paired bare_fs" "x \<noteq> [] \<Longrightarrow> upload_ok bare_fs [x]"
proof -
  have d: "dent_at bare_fs k = (if k = [] then Some DDir else None)" for k
    by (simp add: dent_at_def bare_fs_def)
  show wf: "fs_wf bare_fs" by (simp add: fs_wf_def d) (simp add: bare_fs_def demo_fs_def)
  show "paired bare_fs" by (simp add: paired_def d)
  show "x \<noteq> [] \<Longrightarrow> upload_ok bare_fs [x]" using wf by (simp add: upload_ok_def nolinks_def d)
qed

text \<open>An upload to \<open>x\<close> finishes while one to \<open>y\<close> is under way.\<close>

definition enc_two :: "unit eupl par" where
  "enc_two = fold (esched toy_age [''age1k'']) ([1, 1, 1] @ replicate 9 0)
     (earrivals [([''x''], ([''abc''], None)), ([''y''], ([''XYZ''], None))] bare_fs)"

lemma enc_two_reach: "(esys_step toy_age [''age1k''])\<^sup>*\<^sup>* \<lparr>uploads = [], disk = bare_fs\<rparr> enc_two"
  unfolding enc_two_def
  by (rule rtranclp_trans [OF earrivals_reach esched_reach]) (simp add: bare_fs_ok)

theorem encrypted_uploads_atomic_witness:
  "content bare_fs [''x''] = None \<and> content (disk enc_two) [''x''] = Some ''headabcend''"
proof -
  have locs: "map e_loc (uploads enc_two) = [[''x''], [''y'']]"
    "list_all (\<lambda>u. \<not> scratch (e_loc u)) (uploads enc_two)" by code_simp+
  have x: "content (disk enc_two) [''x''] = Some ''headabcend''" by code_simp
  have y: "content bare_fs [''x''] = None" "\<not> scratch [''x'']" by code_simp+
  have "\<not> linked bare_fs [''x'']" by (simp add: linked_def dent_at_def bare_fs_def)
  with encrypted_uploads_atomic [OF enc_two_reach bare_fs_ok(1,2), of "[''x'']"] locs x y
  show ?thesis by (simp add: list_all_iff)
qed

definition enc_race1 :: "unit eupl par" where
  "enc_race1 = fold (esched toy_age [''age1k'']) ([1, 1, 1] @ replicate 9 0)
     (earrivals [([''x''], ([''abc''], None)), ([''x''], ([''XYZ''], None))] bare_fs)"

definition enc_race2 :: "unit eupl par" where
  "enc_race2 = fold (esched toy_age [''age1k'']) [1, 1] enc_race1"


definition open1 :: "(store_error + nat) \<times> fs" where
  "open1 = store_encrypted toy_age (abs_path [''x'']) [''age1k''] ([''abc''], None)
     (bare_fs\<lparr>faults := replicate 9 None @ [Some ''EIO'']\<rparr>)"

definition open2 :: "(store_error + nat) \<times> fs" where
  "open2 = store_encrypted toy_age (abs_path [''x'']) [''age1k''] ([], Some (EOther ''reset''))
     ((snd open1)\<lparr>faults := [Some ''EIO'']\<rparr>)"

text \<open>
  The encrypted store treats a failed existence check as absence.  One upload finishes, but its
  staging name cannot be removed; a second upload of the same name, whose existence check fails and
  which breaks off at once, has truncated the finished file: its data is lost.
\<close>

theorem encrypted_check_fails_open:
  "fst open1 = Inr 3 \<and> content (snd open1) [''x''] = Some ''headabcend'' \<and>
   content (snd open2) [''x''] = Some ''head''"
proof (intro conjI)
  show "fst open1 = Inr 3" by code_simp
  show "content (snd open1) [''x''] = Some ''headabcend''" by code_simp
  show "content (snd open2) [''x''] = Some ''head''" by code_simp
qed

end
