(* ===== verification/Live_Tasks.thy ===== *)
theory Live_Tasks
  imports Put_Machine Encrypted_System
begin

text \<open>
  What a running task may do to the files of the others.  \<open>within\<close> is the guarantee of a step: it removes
  scratch names only, and writes only to new files, to files that have a scratch name, and to the
  files its task holds open.  The interface \<open>guarded_tasks\<close> asks for this guarantee and that a task can
  rely on it; a file that is \<open>settled\<close> (no scratch name leads to it and no task holds it open) then
  stays as it is for ever.  The tasks of \<^verbatim>\<open>put\<close> provide the interface.
\<close>

definition within :: "nat set \<Rightarrow> fs \<Rightarrow> fs \<Rightarrow> bool" where
  "within H fs fs' \<longleftrightarrow> fs_wf fs' \<and>
     (\<exists>R N I. evolves R N I fs fs' \<and> (\<forall>l \<in> R. scratch l) \<and>
        (\<forall>i \<in> I. next_ino fs \<le> i \<or> i \<in> H \<or> (\<exists>l. scratch l \<and> dent_at fs l = Some (DFile i))))"

lemma withinI:
  assumes "fs_wf fs'" "evolves R N I fs fs'" "\<forall>l \<in> R. scratch l"
    and "\<And>i. i \<in> I \<Longrightarrow> next_ino fs \<le> i \<or> i \<in> H \<or> (\<exists>l. scratch l \<and> dent_at fs l = Some (DFile i))"
  shows "within H fs fs'"
  using assms unfolding within_def by blast

lemma within_wf: "within H fs fs' \<Longrightarrow> fs_wf fs'"
  by (simp add: within_def)

lemma within_evolves:
  assumes "within H fs fs'"
  obtains R N I where "evolves R N I fs fs'"
  using assms unfolding within_def by blast

lemma within_faults [simp]: "fs_wf fs \<Longrightarrow> within H fs (fs\<lparr>faults := fl\<rparr>)"
  by (rule withinI [of _ "{}" "{}" "{}"]) simp_all

lemma within_refl [simp]: "fs_wf fs \<Longrightarrow> within H fs fs"
  by (rule withinI [of _ "{}" "{}" "{}"]) simp_all

lemma within_frame:
  assumes "up_frame l (upload_inodes fs l \<union> H) fs fs'"
  shows "within H fs fs'"
  by (rule withinI [OF up_frame_elims(1,2) [OF assms]]) (use scratch_stg in \<open>auto simp: upload_inodes_def\<close>)

definition settled :: "fs \<Rightarrow> nat set \<Rightarrow> loc \<Rightarrow> nat \<Rightarrow> bytes \<Rightarrow> bool" where
  "settled fs H k i bs \<longleftrightarrow> dent_at fs k = Some (DFile i) \<and> bytes_of fs i = bs \<and> \<not> scratch k \<and> i \<notin> H \<and>
     (\<forall>l. scratch l \<longrightarrow> dent_at fs l \<noteq> Some (DFile i))"

lemma settled_content: "settled fs H k i bs \<Longrightarrow> content fs k = Some bs"
  by (simp add: settled_def content_def)

lemma settled_within:
  assumes "settled fs H k i bs" "fs_wf fs" "within G fs fs'" "i \<notin> G"
  shows "settled fs' H k i bs"
proof -
  from assms(3) obtain R N I where e: "evolves R N I fs fs'" "\<forall>l \<in> R. scratch l"
    "\<forall>i \<in> I. next_ino fs \<le> i \<or> i \<in> G \<or> (\<exists>l. scratch l \<and> dent_at fs l = Some (DFile i))"
    unfolding within_def by blast
  from assms(1) have s: "dent_at fs k = Some (DFile i)" "\<not> scratch k" "\<And>l. scratch l \<Longrightarrow> dent_at fs l \<noteq> Some (DFile i)"
    by (auto simp: settled_def)
  have i: "i \<notin> I" using e(3) s fs_wf_inode [OF assms(2) s(1)] assms(4) by fastforce
  have "dent_at fs' k = Some (DFile i)" using evolves_kept [OF e(1) s(1)] e(2) s(2) by blast
  moreover have "dent_at fs' l \<noteq> Some (DFile i)" if "scratch l" for l
    using evolves_file [OF e(1), of l i] s(3) [OF that] i by blast
  ultimately show ?thesis using evolves_bytes [OF e(1) i] assms(1) by (simp add: settled_def)
qed

section \<open>Rely and guarantee\<close>

text \<open>The files that some task holds open.\<close>

definition held :: "('t \<Rightarrow> nat set) \<Rightarrow> 't list \<Rightarrow> nat set" where
  "held holds ts = (\<Union>t \<in> set ts. holds t)"

lemma held_upd: "held holds (ts[j := t']) \<subseteq> held holds ts \<union> holds t'"
  using set_update_subset_insert [of ts j t'] unfolding held_def by blast

locale guarded_tasks =
  fixes move :: "'t \<Rightarrow> fs \<Rightarrow> 't \<times> fs"
    and good :: "fs \<Rightarrow> 't \<Rightarrow> bool"
    and holds :: "'t \<Rightarrow> nat set"
  assumes guarantee: "fs_wf fs \<Longrightarrow> good fs t \<Longrightarrow> move t fs = (t', fs') \<Longrightarrow> within (holds t) fs fs' \<and> good fs' t'"
    and opened: "fs_wf fs \<Longrightarrow> good fs t \<Longrightarrow> move t fs = (t', fs') \<Longrightarrow> i \<in> holds t' \<Longrightarrow>
      i \<in> holds t \<or> (\<exists>l. scratch l \<and> dent_at fs' l = Some (DFile i))"
    and rely: "fs_wf fs \<Longrightarrow> good fs t \<Longrightarrow> within H fs fs' \<Longrightarrow> good fs' t"
begin

lemma step_good:
  assumes "fs_wf fs" "list_all (good fs) ts" "j < length ts" "move (ts ! j) fs = (t', fs')"
  shows "fs_wf fs' \<and> list_all (good fs') (ts[j := t'])"
proof -
  from assms(2,3) have "good fs (ts ! j)" by (simp add: list_all_length)
  from guarantee [OF assms(1) this assms(4)] have w: "within (holds (ts ! j)) fs fs'" "good fs' t'" by blast+
  with assms(1-3) rely show ?thesis
    by (auto simp: list_all_length nth_list_update intro: within_wf)
qed

lemma others_good:
  assumes "fs_wf fs" "list_all (good fs) ts" "within H fs fs'"
  shows "list_all (good fs') ts"
  using assms rely by (auto simp: list_all_iff)

lemma step_settled:
  assumes "fs_wf fs" "list_all (good fs) ts" "j < length ts" "move (ts ! j) fs = (t', fs')"
    and "settled fs (held holds ts) k i bs"
  shows "settled fs' (held holds (ts[j := t'])) k i bs"
proof -
  from assms(2,3) have g: "good fs (ts ! j)" by (simp add: list_all_length)
  from assms(5) have i: "i \<notin> held holds ts" by (simp add: settled_def)
  with assms(3) have "i \<notin> holds (ts ! j)" by (auto simp: held_def)
  with settled_within [OF assms(5,1)] guarantee [OF assms(1) g assms(4)]
  have s: "settled fs' (held holds ts) k i bs" by blast
  with opened [OF assms(1) g assms(4), of i] \<open>i \<notin> holds (ts ! j)\<close> have "i \<notin> holds t'" by (auto simp: settled_def)
  with i s held_upd [of holds ts j t'] show ?thesis unfolding settled_def by blast
qed

end

section \<open>The tasks of put\<close>

fun task_holds :: "('r, 's) task \<Rightarrow> nat set" where
  "task_holds (TCopy fd n cs err) = {fst fd}"
| "task_holds (TPlain p s input pc) = pc_inodes pc"
| "task_holds (TEnc p rs input pc) = epc_inodes pc"
| "task_holds _ = {}"

definition quarantine_ok :: "fs \<Rightarrow> path \<Rightarrow> loc \<Rightarrow> string \<Rightarrow> bool" where
  "quarantine_ok fs h b f \<longleftrightarrow> clean_jail fs h b \<and> plain_name f \<and> is_reolink_test_file f"

fun task_ok :: "fs \<Rightarrow> ('r, 's) task \<Rightarrow> bool" where
  "task_ok fs (TMkdir d f input) \<longleftrightarrow> (\<exists>h b. d = path_join h (path_new QUARANTINE_DIR) \<and> quarantine_ok fs h b f)"
| "task_ok fs (TOpen d input) \<longleftrightarrow>
     (\<exists>h b f. d = path_join (path_join h (path_new QUARANTINE_DIR)) (path_new f) \<and> quarantine_ok fs h b f)"
| "task_ok fs (TCopy fd n cs err) \<longleftrightarrow> fst fd < next_ino fs"
| "task_ok fs (TPlain p s input pc) \<longleftrightarrow> (\<exists>l. p = abs_path l \<and> upload_ok fs l \<and> pc_ok fs pc)"
| "task_ok fs (TEnc p rs input pc) \<longleftrightarrow> (\<exists>l. p = abs_path l \<and> upload_ok fs l \<and> epc_ok fs pc)"
| "task_ok fs (TEnd r) \<longleftrightarrow> True"

lemma task_ok_within:
  assumes "fs_wf fs" "task_ok fs t" "within H fs fs'"
  shows "task_ok fs' t"
proof -
  from assms(3) obtain R N I where ev: "evolves R N I fs fs'" by (rule within_evolves)
  note wf' = within_wf [OF assms(3)]
  have q: "quarantine_ok fs' h b f" if "quarantine_ok fs h b f" for h b f
    using that clean_jail_evolves [OF assms(1) wf' ev] by (simp add: quarantine_ok_def)
  have u: "upload_ok fs' l" if "upload_ok fs l" for l
    using that wf' nolinks_evolves [OF ev] by (simp add: upload_ok_def)
  from evolves_next [OF ev] have n: "pc_ok fs pc \<Longrightarrow> pc_ok fs' pc" "epc_ok fs epc \<Longrightarrow> epc_ok fs' epc"
    for pc and epc :: "'b epc" by (auto simp: pc_ok_def epc_ok_def)
  show ?thesis using assms(2) q u n evolves_next [OF ev] by (cases t) (simp_all, blast+)
qed

lemma pc_step_opens:
  assumes ok: "upload_ok fs l" and step: "pc_step (abs_path l) s input pc fs = (pc', fs')" and i: "i \<in> pc_inodes pc'"
  shows "i \<in> pc_inodes pc \<or> dent_at fs' (stg l) = Some (DFile i)"
proof -
  from ok have stgp: "staging_path (abs_path l) = abs_path (stg l)" by (simp add: upload_ok_def staging_path_abs)
  show ?thesis
  proof (cases pc)
    case POpen
    with step i frame_open [OF ok, of False] show ?thesis by (fastforce simp: stgp split: prod.splits sum.splits)
  next
    case (PCopy j n cs)
    with step i show ?thesis by (cases cs) (auto split: option.splits prod.splits sum.splits)
  qed (use step i in \<open>auto split: prod.splits sum.splits bool.splits offset_verdict.splits\<close>)
qed

lemma epc_step_opens:
  assumes ok: "upload_ok fs l" and step: "epc_step age rs (abs_path l) input pc fs = (pc', fs')" and i: "i \<in> epc_inodes pc'"
  shows "i \<in> epc_inodes pc \<or> dent_at fs' (stg l) = Some (DFile i)"
proof -
  from ok have stgp: "staging_path (abs_path l) = abs_path (stg l)" by (simp add: upload_ok_def staging_path_abs)
  have fd: "fst fd' = fst fd" if "write_all fd bs fs = (Inr fd', fs1)" for fd fd' bs fs1
    using that by (cases fd) (auto simp: write_all_def split: prod.splits sum.splits)
  show ?thesis
  proof (cases pc)
    case EOpen
    with step i frame_open [OF ok, of True] show ?thesis by (fastforce simp: stgp split: prod.splits sum.splits)
  next
    case (EHead j)
    with step i fd [of "(j, 0)"] show ?thesis
      by (fastforce simp: random_draw_def write_all_draws split: prod.splits sum.splits)
  next
    case (ECopy fd s n cs)
    with step i show ?thesis
      by (cases cs) (auto dest!: fd split: option.splits prod.splits sum.splits)
  qed (use step i in \<open>auto split: prod.splits sum.splits bool.splits\<close>)
qed

text \<open>The calls of a connection test.\<close>

lemma quarantine_mkdir:
  assumes wf: "fs_wf fs" and q: "quarantine_ok fs h b f"
    and run: "fs_create_dir_all (path_join h (path_new QUARANTINE_DIR)) fs = (r, fs')"
  shows "within H fs fs'"
  using quarantine_mkdir_frame [OF wf _ _ run] q
  by (intro withinI [of _ "{}" "dirs_to (b @ [QUARANTINE_DIR])" "{}"]) (auto simp: quarantine_ok_def)

lemma quarantine_open:
  assumes wf: "fs_wf fs" and q: "quarantine_ok fs h b f"
    and run: "fs_open_write True (path_join (path_join h (path_new QUARANTINE_DIR)) (path_new f)) fs = (r, fs')"
  shows "within H fs fs' \<and> (\<forall>i. r = Inr i \<longrightarrow> i < next_ino fs' \<and> (\<exists>l. scratch l \<and> dent_at fs' l = Some (DFile i)))"
proof -
  let ?dest = "b @ [QUARANTINE_DIR, f]"
  have sc: "scratch ?dest" using q by (simp add: quarantine_ok_def scratch_def butlast_append)
  from q have "clean_jail fs h b" "plain_name f" by (simp_all add: quarantine_ok_def)
  note f = quarantine_open_frame [OF wf this run]
  then have "within H fs fs'" using sc by (intro withinI [of _ "{}" "{?dest}"]) auto
  with f sc show ?thesis by blast
qed

lemma write_within:
  assumes "fs_wf fs" "fst fd < next_ino fs" "write_all fd bs fs = (r, fs')"
  shows "within {fst fd} fs fs' \<and> next_ino fs' = next_ino fs \<and> (\<forall>fd'. r = Inr fd' \<longrightarrow> fst fd' = fst fd)"
  using frame_write [OF assms(1,3,2), of "upload_inodes fs [] \<union> {fst fd}" "[]"] within_frame [of "[]" fs "{fst fd}" fs']
  by auto

lemma flush_within: "fs_wf fs \<Longrightarrow> fs_flush fs = (r, fs') \<Longrightarrow> within H fs fs'"
  by (auto dest!: fs_flush_state)

lemma task_step_ok:
  assumes wf: "fs_wf fs" and ok: "task_ok fs t" and step: "task_step age t fs = (t', fs')"
  shows "within (task_holds t) fs fs' \<and> task_ok fs' t' \<and>
    (\<forall>i \<in> task_holds t'. i \<in> task_holds t \<or> (\<exists>l. scratch l \<and> dent_at fs' l = Some (DFile i)))"
proof (cases t)
  case (TMkdir d f input)
  with ok obtain h b where q: "d = path_join h (path_new QUARANTINE_DIR)" "quarantine_ok fs h b f" by auto
  obtain r fs1 where 1: "fs_create_dir_all d fs = (r, fs1)" by fastforce
  from quarantine_mkdir [OF wf q(2)] 1 q(1) have w: "within {} fs fs1" by blast
  moreover from this have "task_ok fs1 (TOpen (path_join d (path_new f)) input :: ('a, 'b) task)"
    using q by (intro task_ok_within [OF wf _ w]) auto
  ultimately show ?thesis using step 1 TMkdir by (auto simp del: task_ok.simps(2) split: sum.splits)
next
  case (TOpen d input)
  with ok obtain h b f where q: "d = path_join (path_join h (path_new QUARANTINE_DIR)) (path_new f)" "quarantine_ok fs h b f"
    by auto
  obtain r fs1 where 1: "fs_open_write True d fs = (r, fs1)" by fastforce
  with quarantine_open [OF wf q(2)] q(1) step TOpen show ?thesis by (fastforce split: sum.splits)
next
  case (TCopy fd n cs err)
  with ok have fd: "fst fd < next_ino fs" by simp
  show ?thesis
  proof (cases cs)
    case Nil
    with step TCopy wf flush_within [OF wf] show ?thesis by (auto split: option.splits prod.splits sum.splits)
  next
    case (Cons c cs')
    with step TCopy fd write_within [OF wf fd, of c] show ?thesis by (fastforce split: prod.splits sum.splits)
  qed
next
  case (TPlain p s input pc)
  with ok obtain l where l: "p = abs_path l" "upload_ok fs l" "pc_ok fs pc" by auto
  obtain pc1 fs1 where 1: "pc_step p s input pc fs = (pc1, fs1)" by fastforce
  note f = pc_step_frame [OF l(2,3) 1 [unfolded l(1)]] and o = pc_step_opens [OF l(2) 1 [unfolded l(1)]]
  from f have w: "within (pc_inodes pc) fs fs1" by (auto simp: step_frame_def intro: within_frame)
  have "upload_ok fs1 l" using f upload_ok_frame [OF _ l(2)] by (auto simp: step_frame_def)
  with w f o scratch_stg [of l] step 1 TPlain l(1) show ?thesis by (cases pc1) auto
next
  case (TEnc p rs input pc)
  with ok obtain l where l: "p = abs_path l" "upload_ok fs l" "epc_ok fs pc" by auto
  obtain pc1 fs1 where 1: "epc_step age rs p input pc fs = (pc1, fs1)" by fastforce
  note f = epc_step_frame [OF l(2,3) 1 [unfolded l(1)]] and o = epc_step_opens [OF l(2) 1 [unfolded l(1)]]
  from f have w: "within (epc_inodes pc) fs fs1" by (auto intro: within_frame)
  have "upload_ok fs1 l" using f upload_ok_frame [OF _ l(2)] by blast
  with w f o scratch_stg [of l] step 1 TEnc l(1) show ?thesis by (cases pc1) auto
qed (use step wf in auto)

interpretation puts: guarded_tasks "task_step age" task_ok task_holds
  for age :: "('r, 'k, 'e, 's, 'd) age_lib"
  by unfold_locales (use task_step_ok task_ok_within in \<open>blast+\<close>)

end
