(* ===== verification/Live_Daemon.thy ===== *)
theory Live_Daemon
  imports Daemon Live_Tasks
begin

text \<open>
  The running daemon with uploads in progress.  A \<^verbatim>\<open>STOR\<close> begins a task of its own; its system calls
  interleave with those of the other uploads and with every other event of the daemon (logins, all
  other requests, presence events, reloads, reaper ticks).
\<close>

record ('r, 's) live_state =
  live_world :: world
  tasks :: "('r, 's) task list"

datatype live_event =
  LEvent event
| LPut nat reader string nat
| LStep nat

abbreviation live_fs :: "('r, 's) live_state \<Rightarrow> fs" where
  "live_fs s \<equiv> d_fs (w_daemon (live_world s))"

fun live_step ::
    "('r, 'k, 'e, 's, 'd) age_lib \<Rightarrow> 'p argon2_lib \<Rightarrow> 'r list option \<Rightarrow> live_event \<Rightarrow> ('r, 's) live_state \<Rightarrow> ('r, 's) live_state" where
  "live_step age lib recips (LEvent e) s = s\<lparr>live_world := world_step age lib recips e (live_world s)\<rparr>"
| "live_step age lib recips (LPut j input p n) s =
     (if j < length (users (live_world s)) then
        s\<lparr>tasks := tasks s @ [put_begin recips (users (live_world s) ! j) input (path_new p) n (live_fs s)]\<rparr>
      else s)"
| "live_step age lib recips (LStep j) s =
     (if j < length (tasks s) then
        (case task_step age (tasks s ! j) (live_fs s) of (t, fs) \<Rightarrow>
           s\<lparr>live_world := (live_world s)\<lparr>w_daemon := (w_daemon (live_world s))\<lparr>d_fs := fs\<rparr>\<rparr>,
             tasks := (tasks s)[j := t]\<rparr>)
      else s)"

definition live_start :: "daemon \<Rightarrow> ('r, 's) live_state" where
  "live_start d = \<lparr>live_world = start_world d, tasks = []\<rparr>"

section \<open>The invariant\<close>

definition live_ok :: "('r, 's) live_state \<Rightarrow> bool" where
  "live_ok s \<longleftrightarrow> world_ok (live_world s) \<and> list_all (task_ok (live_fs s)) (tasks s)"

lemma live_okD:
  assumes "live_ok s"
  shows "world_ok (live_world s)" "fs_wf (live_fs s)" "list_all (task_ok (live_fs s)) (tasks s)"
  using assms by (simp_all add: live_ok_def world_ok_def)

text \<open>The other events give the same guarantee as a task that holds no file.\<close>

lemma perform_within:
  assumes "fs_wf fs" "\<And>h. user_role u = Uploader h \<Longrightarrow> \<exists>b. clean_jail fs h b"
  shows "within {} fs (perform age recips (u, q) fs)"
proof (cases "user_role u")
  case (Uploader h)
  with assms(2) obtain b where "clean_jail fs h b" by blast
  from perform_effect [OF assms(1) Uploader this, of age recips q] show ?thesis
    unfolding uploader_effect_def within_def by blast
next
  case (Viewer sc)
  with perform_read_only [of u q age recips fs] assms(1) show ?thesis by auto
qed

lemma session_jail:
  assumes "world_ok w" "u \<in> set (users w)" "user_role u = Uploader h"
  shows "\<exists>b. clean_jail (d_fs (w_daemon w)) h b"
  using assms no_links_clean by (fastforce simp: world_ok_def homes_ok_def home_exists_def)

lemma world_step_within:
  assumes ok: "world_ok w"
  shows "within {} (d_fs (w_daemon w)) (d_fs (w_daemon (world_step age lib recips e w)))"
proof -
  from ok have wf: "fs_wf (d_fs (w_daemon w))" by (simp add: world_ok_def)
  show ?thesis
  proof (cases e)
    case (ERequest j q)
    have "within {} (d_fs (w_daemon w)) (perform age recips (users w ! j, q) (d_fs (w_daemon w)))" if "j < length (users w)"
      using that by (intro perform_within [OF wf] session_jail [OF ok, of "users w ! j"]) simp_all
    with ERequest wf show ?thesis by simp
  next
    case (ESighup toml p)
    with sighup_ok [OF ok, of age toml p] show ?thesis
      by (intro withinI [of _ "{}" UNIV "{}"]) (simp_all add: world_ok_def)
  qed (use wf in \<open>auto simp: on_tick_def split: prod.splits sum.splits\<close>)
qed

lemma put_begin_ok:
  assumes wf: "fs_wf fs" and jail: "\<And>h. user_role u = Uploader h \<Longrightarrow> \<exists>b. clean_jail fs h b"
  shows "task_ok fs (put_begin recips u input (path_new v) n fs) \<and> task_holds (put_begin recips u input (path_new v) n fs) = {}"
proof (cases "user_role u")
  case (Uploader h)
  with jail obtain b where clean: "clean_jail fs h b" by blast
  show ?thesis
  proof (cases "lossy_file_name (path_new v)")
    case (Some f)
    note ok = upload_loc_ok(1) [OF wf clean Some, of recips]
    have ne: "b @ virtual_names (path_new v) \<noteq> []" using virtual_names_last [OF Some] by simp
    have test: "task_ok fs (TMkdir (path_join h (path_new QUARANTINE_DIR)) f input)" if "is_reolink_test_file f"
      using clean file_name_plain [OF Some] that by (auto simp: quarantine_ok_def)
    show ?thesis
      using Uploader Some ok test resolve_single_clean [OF wf clean, of v] age_suffix_abs [OF ne]
      by (auto simp del: task_ok.simps(1) simp: put_begin_def user_view_def upload_loc_def Let_def pc_ok_def epc_ok_def
          split: option.splits sum.splits if_splits)
  qed (use Uploader in \<open>simp add: put_begin_def\<close>)
qed (simp add: put_begin_def)

lemma session_put_ok:
  assumes "world_ok w" "j < length (users w)"
  shows "task_ok (d_fs (w_daemon w)) (put_begin recips (users w ! j) input (path_new v) n (d_fs (w_daemon w)))"
    and "task_holds (put_begin recips (users w ! j) input (path_new v) n (d_fs (w_daemon w))) = {}"
proof -
  from assms have wf: "fs_wf (d_fs (w_daemon w))" and u: "users w ! j \<in> set (users w)" by (simp_all add: world_ok_def)
  show "task_ok (d_fs (w_daemon w)) (put_begin recips (users w ! j) input (path_new v) n (d_fs (w_daemon w)))"
    by (rule conjunct1 [OF put_begin_ok [OF wf session_jail [OF assms(1) u]]])
  show "task_holds (put_begin recips (users w ! j) input (path_new v) n (d_fs (w_daemon w))) = {}"
    by (rule conjunct2 [OF put_begin_ok [OF wf session_jail [OF assms(1) u]]])
qed

lemma world_fs_ok:
  assumes "world_ok w" "within H (d_fs (w_daemon w)) fs"
  shows "world_ok (w\<lparr>w_daemon := (w_daemon w)\<lparr>d_fs := fs\<rparr>\<rparr>)"
proof -
  from assms(2) obtain R N I where ev: "evolves R N I (d_fs (w_daemon w)) fs" by (rule within_evolves)
  from assms(1) have o: "fs_wf (d_fs (w_daemon w))" "no_links (d_fs (w_daemon w))"
    "homes_ok (d_fs (w_daemon w)) (d_accounts (w_daemon w)) (users w)" by (simp_all add: world_ok_def)
  from evolves_accounts_ok [OF o within_wf [OF assms(2)] ev] within_wf [OF assms(2)] show ?thesis
    by (simp add: world_ok_def)
qed

lemma live_step_ok:
  assumes ok: "live_ok s"
  shows "live_ok (live_step age lib recips e s)"
proof (cases e)
  case (LEvent ev)
  note o = live_okD [OF ok]
  from puts.others_good [OF o(2,3) world_step_within [OF o(1), of age lib recips ev]]
    world_step_ok [OF o(1), of age lib recips ev] LEvent show ?thesis
    by (simp add: live_ok_def)
next
  case (LPut j input p n)
  with live_okD [OF ok] show ?thesis by (auto simp: live_ok_def intro: session_put_ok(1))
next
  case (LStep j)
  show ?thesis
  proof (cases "j < length (tasks s)")
    case True
    obtain t fs where 1: "task_step age (tasks s ! j) (live_fs s) = (t, fs)" by fastforce
    note o = live_okD [OF ok]
    from o(3) True have "task_ok (live_fs s) (tasks s ! j)" by (simp add: list_all_length)
    from task_step_ok [OF o(2) this 1] world_fs_ok [OF o(1)] puts.step_good [OF o(2,3) True 1] LStep True 1
    show ?thesis by (auto simp: live_ok_def)
  qed (use LStep ok in simp)
qed

lemma live_step_settled:
  assumes ok: "live_ok s" and st: "settled (live_fs s) (held task_holds (tasks s)) k i bs"
  shows "settled (live_fs (live_step age lib recips e s)) (held task_holds (tasks (live_step age lib recips e s))) k i bs"
proof (cases e)
  case (LEvent ev)
  with settled_within [OF st live_okD(2) [OF ok] world_step_within [OF live_okD(1) [OF ok], of age lib recips ev]]
  show ?thesis by simp
next
  case (LPut j input p n)
  with st show ?thesis by (auto simp: held_def settled_def session_put_ok(2) [OF live_okD(1) [OF ok]])
next
  case (LStep j)
  obtain t fs where 1: "task_step age (tasks s ! j) (live_fs s) = (t, fs)" by fastforce
  with LStep st puts.step_settled [OF live_okD(2,3) [OF ok] _ 1 st] show ?thesis by simp
qed

interpretation live_run: run_system "live_step age lib recips" "\<lambda>_. True"
    "\<lambda>s. live_ok s \<and> settled (live_fs s) (held task_holds (tasks s)) k i bs"
  for age :: "('r, 'k, 'e, 's, 'd) age_lib" and lib :: "'p argon2_lib" and recips k i bs
  by unfold_locales (blast intro: live_step_ok live_step_settled)

interpretation live_wf: run_system "live_step age lib recips" "\<lambda>_. True" live_ok
  for age :: "('r, 'k, 'e, 's, 'd) age_lib" and lib :: "'p argon2_lib" and recips
  by unfold_locales (rule live_step_ok)

lemma live_start_ok:
  assumes "run_start age unftp_build cfg fs = (Inr (d, srv, addr), fs')" "validate age cfg = Inr ()"
    and "fs_wf fs" "no_links fs"
  shows "live_ok (live_start d)"
  using run_start_ok [OF assms] by (simp add: live_ok_def live_start_def)

text \<open>
  (C3) Settled files never change, whatever overlaps.  Started on a sound archive without symbolic
  links, after any events, uploads of any kind in progress included: a file that no staging or
  quarantine name leads to and that no upload holds open keeps its name and every byte through all
  further events, in any interleaving of the system calls of all uploads with each other and with
  logins, requests, reloads and ticks, whatever fails.
\<close>

theorem settled_files_never_change:
  assumes "run_start age unftp_build cfg fs = (Inr (d, srv, addr), fs')" "validate age cfg = Inr ()"
    and "fs_wf fs" "no_links fs" and "s = fold (live_step age lib recips) es (live_start d)"
    and "settled (live_fs s) (held task_holds (tasks s)) k i bs"
  shows "content (live_fs (fold (live_step age lib recips) es' s)) k = Some bs"
proof -
  have "live_ok s"
    using live_wf.run_invar [OF live_start_ok [OF assms(1-4)], of es age lib recips] assms(5) by (simp add: list_all_iff)
  with live_run.run_invar [of s k i bs es' age lib recips] assms(6) show ?thesis
    by (auto simp: list_all_iff intro: settled_content)
qed

lemma run_start_within:
  assumes "run_start age unftp_build cfg fs = (Inr (d, srv, addr), fs')" "validate age cfg = Inr ()"
    and "fs_wf fs" "no_links fs"
  shows "within {} fs (d_fs d)"
  using run_start_ok [OF assms] by (intro withinI [of _ "{}" UNIV "{}"]) (simp_all add: world_ok_def start_world_def)

text \<open>
  The daemon may be killed in the middle of all this and started again, with another configuration
  and other failures to come: the settled files are still there, and settled.
\<close>

lemma settled_files_survive_restart:
  assumes "live_ok s" "settled (live_fs s) (held task_holds (tasks s)) k i bs"
    and "run_start age unftp_build cfg ((live_fs s)\<lparr>faults := fl\<rparr>) = (Inr (d, srv, addr), fs')" "validate age cfg = Inr ()"
  shows "live_ok (live_start d) \<and> settled (live_fs (live_start d)) (held task_holds (tasks (live_start d))) k i bs"
proof -
  let ?fs = "(live_fs s)\<lparr>faults := fl\<rparr>"
  from assms(1) have fs: "fs_wf ?fs" "no_links ?fs" by (simp_all add: live_ok_def world_ok_def no_links_def)
  from assms(2) have "settled ?fs {} k i bs" by (simp add: settled_def bytes_of_def)
  from settled_within [OF this fs(1) run_start_within [OF assms(3,4) fs]] live_start_ok [OF assms(3,4) fs]
  show ?thesis by (simp add: live_start_def start_world_def held_def)
qed

definition overlap :: "live_event list" where
  "overlap = [LEvent (EAuth 1 ''u-cam'' \<lparr>password = Some ''x'', command_channel_security = Tls\<rparr>), LEvent (EUser 0),
     LPut 0 ([''new''], None) ''/old.mp4'' 0, LPut 0 ([''new''], None) ''/old.mp4'' 0, LStep 0, LStep 1, LEvent (ETick 9), LStep 0]"

theorem settled_files_never_change_witness:
  "\<exists>d. fst demo_start = Inr (d, (), ''0.0.0.0:21'') \<and>
     content (live_fs (fold (live_step toy_age toy_argon2 None) overlap (live_start d))) [''srv'', ''cam'', ''old.mp4''] = Some ''abc''"
proof -
  obtain d where d: "fst demo_start = Inr (d, (), ''0.0.0.0:21'')"
    and run: "run_start toy_age (\<lambda>s. Inr ()) demo_config plain_fs = (Inr (d, (), ''0.0.0.0:21''), snd demo_start)"
    using demo_start_run by blast
  have reg: "dent_at plain_fs k = Some (DFile j) \<longleftrightarrow> k = [''srv'', ''cam'', ''old.mp4''] \<and> j = 0" for k j
    by (auto simp: dent_at_def plain_fs_def split: if_splits)
  have "settled plain_fs {} [''srv'', ''cam'', ''old.mp4''] 0 ''abc''"
    using demo_not_scratch by (auto simp: settled_def reg) (simp add: plain_fs_def demo_fs_def bytes_of_def)
  from settled_within [OF this plain_fs_ok(1) run_start_within [OF run demo_config_validates plain_fs_ok]]
  have "settled (live_fs (live_start d)) (held task_holds (tasks (live_start d))) [''srv'', ''cam'', ''old.mp4''] 0 ''abc''"
    by (simp add: live_start_def start_world_def held_def)
  from settled_files_never_change [OF run demo_config_validates plain_fs_ok, of _ toy_argon2 None "[]", simplified, OF refl this] d
  show ?thesis by blast
qed

section \<open>Every upload ends\<close>

lemma live_step_work:
  assumes "j < length (tasks s)"
  shows "j < length (tasks (live_step age lib recips e s)) \<and>
    work (tasks (live_step age lib recips e s) ! j) \<le> work (tasks s ! j) - (if e = LStep j then 1 else 0)"
proof (cases e)
  case (LStep i)
  obtain t fs where 1: "task_step age (tasks s ! i) (live_fs s) = (t, fs)" by fastforce
  have "work t \<le> work (tasks s ! i) - 1"
    using task_step_work [OF 1] work_0 [of "tasks s ! i"] 1 by (cases "work (tasks s ! i) = 0") auto
  with assms LStep 1 show ?thesis by (cases "i = j") auto
qed (use assms in \<open>auto simp: nth_append\<close>)

lemma live_run_work:
  assumes "j < length (tasks s)"
  shows "j < length (tasks (fold (live_step age lib recips) es s)) \<and>
    work (tasks (fold (live_step age lib recips) es s) ! j) \<le> work (tasks s ! j) - count_list es (LStep j)"
  using assms
proof (induction es arbitrary: s)
  case (Cons e es)
  note 1 = live_step_work [OF Cons.prems, of age lib recips e]
  with Cons.IH [of "live_step age lib recips e s"] show ?case by (auto split: if_splits)
qed simp

text \<open>
  (C4) Every upload ends: whatever all other uploads, requests, reloads and failures do in between, an
  upload that gets eight steps more than its input has chunks has ended with an answer.
\<close>

theorem uploads_end:
  assumes "j < length (users (live_world s))"
    and "length (fst input) + 8 \<le> count_list es (LStep (length (tasks s)))"
  shows "\<exists>r. tasks (fold (live_step age lib recips) es (live_step age lib recips (LPut j input p n) s)) !
    length (tasks s) = TEnd r"
proof -
  let ?s = "live_step age lib recips (LPut j input p n) s"
  have "length (tasks s) < length (tasks ?s)"
    "work (tasks ?s ! length (tasks s)) \<le> length (fst input) + 8"
    using assms(1) put_begin_work by simp_all
  with live_run_work [OF this(1), of age lib recips es] assms(2) show ?thesis
    by (auto simp: work_0 [symmetric])
qed

definition demo_live :: "(string, unit) live_state" where
  "demo_live = \<lparr>live_world = \<lparr>w_daemon = \<lparr>d_accounts = build demo_config, d_tracker = tracker_new 4 (Some 2), d_fs = demo_fs\<rparr>,
     principals = [], users = [demo_uploader]\<rparr>, tasks = []\<rparr>"

definition ticking :: "live_event list" where
  "ticking = concat (replicate 9 [LStep 0, LEvent (ETick 1)])"

theorem uploads_end_witness:
  "\<exists>r. tasks (fold (live_step toy_age toy_argon2 None) ticking
     (live_step toy_age toy_argon2 None (LPut 0 ([''ab''], None) ''/x.mp4'' 0) demo_live)) ! 0 = TEnd r"
proof -
  have "0 < length (users (live_world demo_live))" "length (tasks demo_live) = 0" by (simp_all add: demo_live_def)
  moreover have "9 \<le> count_list ticking (LStep 0)" by (simp add: ticking_def numeral_eq_Suc)
  ultimately show ?thesis
    using uploads_end [of 0 demo_live "([''ab''], None)" ticking toy_age toy_argon2 None "''/x.mp4''" 0]
    by (simp del: live_step.simps)
qed

section \<open>An upload that nobody interrupts\<close>

lemma steps_alone:
  assumes "j < length (tasks s)" "task_run age n (tasks s ! j, live_fs s) = (t, fs)"
  shows "fold (live_step age lib recips) (replicate n (LStep j)) s =
    s\<lparr>live_world := (live_world s)\<lparr>w_daemon := (w_daemon (live_world s))\<lparr>d_fs := fs\<rparr>\<rparr>, tasks := (tasks s)[j := t]\<rparr>"
  using assms
proof (induction n arbitrary: s)
  case (Suc n)
  obtain t1 fs1 where 1: "task_step age (tasks s ! j) (live_fs s) = (t1, fs1)" by fastforce
  let ?s1 = "live_step age lib recips (LStep j) s"
  from Suc.prems 1 have "j < length (tasks ?s1)" "task_run age n (tasks ?s1 ! j, live_fs ?s1) = (t, fs)" by simp_all
  from Suc.IH [OF this] Suc.prems(1) 1 show ?case by simp
qed (auto simp: list_update_id)



end
