(* ===== verification/Cli.thy ===== *)
theory Cli
  imports Rust_Path
begin

text \<open>
  \<^verbatim>\<open>src/cli.rs\<close>: the commands with their arguments, as \<^verbatim>\<open>clap\<close> delivers them, and the text of the
  entries that \<^verbatim>\<open>add-camera\<close> and \<^verbatim>\<open>add-viewer\<close> append to the configuration file.
\<close>

datatype command =
  Serve (serve_config: path)
| Cleanup (cleanup_config: path) (cleanup_dry_run: bool)
| AddCamera (add_name: string) (add_username: "string option") (add_require_tls: bool)
| AddViewer (add_viewer_name: string) (add_scope: string)
| HashPassword
| Nftables (nft_config: path)
| Gencert (hostnames: "string list") (cert_path: path) (key_path: path)
| Genkey (key_output: "path option")
| Decrypt (identity: path) (decrypt_output: "path option") (decrypt_files: "path list")

definition quote :: char where "quote = CHR 0x22"
definition newline :: char where "newline = CHR 0x0A"

text \<open>\<^verbatim>\<open>key = "value"\<close> and a newline.\<close>

definition string_line :: "string \<Rightarrow> string \<Rightarrow> string" where
  "string_line k v = k @ '' = '' @ [quote] @ v @ [quote, newline]"

definition render_camera_entry :: "string \<Rightarrow> string option \<Rightarrow> string \<Rightarrow> bool \<Rightarrow> string" where
  "render_camera_entry name username hash require_tls =
     [newline] @ ''[[camera]]'' @ [newline] @ string_line ''name'' name @
     (case username of Some u \<Rightarrow> string_line ''username'' u | None \<Rightarrow> []) @
     string_line ''upload_password_hash'' hash @
     (if require_tls then ''require_tls = true'' @ [newline] else [])"

fun str_join :: "string \<Rightarrow> string list \<Rightarrow> string" where
  "str_join sep [] = []"
| "str_join sep [x] = x"
| "str_join sep (x # y # xs) = x @ sep @ str_join sep (y # xs)"

definition render_viewer_entry :: "string \<Rightarrow> string \<Rightarrow> string \<Rightarrow> string" where
  "render_viewer_entry name hash sc =
     (let scope_toml =
            (if sc = ''all'' then [quote] @ ''all'' @ [quote]
             else ''['' @ str_join '', '' (map (\<lambda>x. [quote] @ str_trim x @ [quote]) (str_split (CHR '','') sc)) @ '']'')
      in [newline] @ ''[[viewer]]'' @ [newline] @ string_line ''name'' name @
         string_line ''password_hash'' hash @ ''scope = '' @ scope_toml @ [newline])"

section \<open>What an entry says\<close>

lemma until_quote:
  assumes "quote \<notin> set s" "quote \<notin> set t"
  shows "s @ quote # u = t @ quote # v \<longleftrightarrow> s = t \<and> u = v"
proof
  assume eq: "s @ quote # u = t @ quote # v"
  have "takeWhile (\<lambda>c. c \<noteq> quote) (x @ quote # y) = x" if "quote \<notin> set x" for x y
    using that by (induction x) auto
  with eq assms have "s = t" by metis
  with eq show "s = t \<and> u = v" by simp
qed simp

lemma string_line_inj:
  assumes "quote \<notin> set v" "quote \<notin> set w"
  shows "string_line k v @ s = string_line k w @ t \<longleftrightarrow> v = w \<and> s = t"
  using until_quote [OF assms, of "newline # s" "newline # t"] by (simp add: string_line_def)

lemma string_line_clash: "string_line ''username'' v @ s \<noteq> string_line ''upload_password_hash'' w @ t"
  by (simp add: string_line_def)

text \<open>
  A camera entry says exactly what was registered: for a name, a username and a hash without
  quotation marks, two entries are the same text only if they register the same camera, with the
  same username, hash and TLS requirement.
\<close>

theorem camera_entry_unambiguous:
  assumes "quote \<notin> set n \<union> set h \<union> set (case u of Some x \<Rightarrow> x | None \<Rightarrow> [])"
    and "quote \<notin> set n' \<union> set h' \<union> set (case u' of Some x \<Rightarrow> x | None \<Rightarrow> [])"
  shows "render_camera_entry n u h t = render_camera_entry n' u' h' t' \<longleftrightarrow> n = n' \<and> u = u' \<and> h = h' \<and> t = t'"
proof
  assume same: "render_camera_entry n u h t = render_camera_entry n' u' h' t'"
  let ?user = "\<lambda>u. case u of Some x \<Rightarrow> string_line ''username'' x | None \<Rightarrow> []"
  let ?rest = "\<lambda>h t. string_line ''upload_password_hash'' h @ (if t then ''require_tls = true'' @ [newline] else [])"
  from assms same have "n = n'" and eq: "?user u @ ?rest h t = ?user u' @ ?rest h' t'"
    by (simp_all add: render_camera_entry_def string_line_inj)
  moreover from eq assms(1,2) have "u = u' \<and> ?rest h t = ?rest h' t'"
    using string_line_clash string_line_clash [symmetric]
    by (cases u; cases u') (auto simp: string_line_inj simp del: append_assoc)
  moreover from this assms(1,2) have "h = h' \<and> t = t'" by (auto simp: string_line_inj split: if_splits)
  ultimately show "n = n' \<and> u = u' \<and> h = h' \<and> t = t'" by simp
qed simp

theorem camera_entry_unambiguous_witness:
  "render_camera_entry ''door'' None ''h'' True \<noteq> render_camera_entry ''door'' (Some ''d'') ''h'' True"
  using camera_entry_unambiguous [of "''door''" "''h''" None "''door''" "''h''" "Some ''d''" True True]
  by (simp add: quote_def)

text \<open>
  Nothing is escaped: a name with a quotation mark ends its own line.  One \<^verbatim>\<open>add-camera\<close> with a
  crafted name writes what two would have written, the first with a hash of the caller's choosing.
\<close>

theorem camera_entry_injection:
  "render_camera_entry
     (a @ [quote, newline] @ ''upload_password_hash = '' @ [quote] @ h1 @ [quote, newline, newline] @
      ''[[camera]]'' @ [newline] @ ''name = '' @ [quote] @ b) u h t =
   render_camera_entry a None h1 False @ render_camera_entry b u h t"
  by (simp add: render_camera_entry_def string_line_def)

end
