(* ===== verification/Tls.thy ===== *)
theory Tls
  imports Store
begin

text \<open>
  \<^verbatim>\<open>src/tls.rs\<close>: the self-signed certificate and the files it is written to.  The certificate
  generator is a parameter.  File permissions matter here and nowhere else, so they are kept beside
  the file system: a map from inodes to permission bits.  \<^verbatim>\<open>open\<close> gives a mode to a file it creates
  and leaves the mode of an existing file alone.
\<close>

datatype tls_error = TlsGen string

definition generate_self_signed ::
    "(string list \<Rightarrow> string + string \<times> string) \<Rightarrow> string list \<Rightarrow> tls_error + string \<times> string" where
  "generate_self_signed rcgen hostnames =
     (case rcgen hostnames of Inl e \<Rightarrow> Inl (TlsGen e) | Inr (cert, key) \<Rightarrow> Inr (cert, key))"

type_synonym modes = "nat \<rightharpoonup> nat"

text \<open>Opening a file for writing, created with the mode \<open>m\<close> if it is new, and truncated.\<close>

definition open_create :: "nat \<Rightarrow> path \<Rightarrow> fs \<times> modes \<Rightarrow> (io_kind + nat) \<times> fs \<times> modes" where
  "open_create m p s =
     (case s of (fs, md) \<Rightarrow>
        (case fs_open_write True p fs of
           (Inl e, fs') \<Rightarrow> (Inl e, fs', md)
         | (Inr i, fs') \<Rightarrow> (Inr i, fs', if i = next_ino fs then md(i \<mapsto> m) else md)))"

text \<open>\<^verbatim>\<open>std::fs::write\<close> and \<^verbatim>\<open>open(..)\<close> followed by \<^verbatim>\<open>write_all\<close>.\<close>

definition write_file :: "nat \<Rightarrow> path \<Rightarrow> bytes \<Rightarrow> fs \<times> modes \<Rightarrow> (io_kind + unit) \<times> fs \<times> modes" where
  "write_file m p bs s =
     (case open_create m p s of
        (Inl e, s) \<Rightarrow> (Inl e, s)
      | (Inr i, (fs, md)) \<Rightarrow>
          (case write_all (i, 0) bs fs of
             (Inl e, fs) \<Rightarrow> (Inl e, fs, md)
           | (Inr _, fs) \<Rightarrow> (Inr (), fs, md)))"

text \<open>The default mode 0666 with the process's umask taken away is the argument \<open>dflt\<close>; 0600 is 384.\<close>

definition PRIVATE_MODE :: nat where
  "PRIVATE_MODE = 6 * 64"

definition write_cert_files ::
    "nat \<Rightarrow> string \<Rightarrow> string \<Rightarrow> path \<Rightarrow> path \<Rightarrow> fs \<times> modes \<Rightarrow> (io_kind + unit) \<times> fs \<times> modes" where
  "write_cert_files dflt cert_pem key_pem cert_path key_path s =
     (case write_file dflt cert_path cert_pem s of
        (Inl e, s) \<Rightarrow> (Inl e, s)
      | (Inr _, s) \<Rightarrow> write_file PRIVATE_MODE key_path key_pem s)"

section \<open>The files\<close>

lemma write_file_effect:
  assumes "write_file m (abs_path l) bs (fs, md) = (Inr (), fs', md')" "fs_wf fs" "nolinks fs l" "l \<noteq> []"
  shows "\<exists>i. fs_wf fs' \<and> nolinks fs' l \<and> dent_at fs' l = Some (DFile i) \<and> bytes_of fs' i = bs \<and>
    evolves {} {l} (insert (next_ino fs) {j. dent_at fs l = Some (DFile j)}) fs fs' \<and>
    (case dent_at fs l of
       None \<Rightarrow> i = next_ino fs \<and> md' = md(i \<mapsto> m)
     | Some d \<Rightarrow> d = DFile i \<and> md' = md)"
proof -
  let ?I = "insert (next_ino fs) {j. dent_at fs l = Some (DFile j)}"
  obtain r1 fs1 where 1: "fs_open_write True (abs_path l) fs = (r1, fs1)" by fastforce
  with assms(1) obtain i where r1: "r1 = Inr i" by (cases r1) (auto simp: write_file_def open_create_def)
  have ne: "i \<noteq> next_ino fs" if "dent_at fs l = Some (DFile i)" using fs_wf_inode [OF assms(2) that] by simp
  from fs_open_write_frame [OF 1 assms(2-4), of ?I "{}"] r1
  have f1: "fs_wf fs1" "evolves {} {l} ?I fs fs1" "dent_at fs1 l = Some (DFile i)" "i \<in> ?I" "i < next_ino fs1"
    "bytes_of fs1 i = []" "dent_at fs l = Some (DFile i) \<or> dent_at fs l = None \<and> i = next_ino fs" by auto
  obtain r2 fs2 where 2: "write_all (i, 0) bs fs1 = (r2, fs2)" by fastforce
  from write_all_frame [OF 2 f1(1,4,5), of "{}" "{l}"] f1(6)
  have f2: "fs_wf fs2" "evolves {} {l} ?I fs1 fs2" "dent_at fs2 = dent_at fs1"
    "\<And>fd. r2 = Inr fd \<Longrightarrow> bytes_of fs2 i = bs" by auto
  from assms(1) 1 r1 2 have r2: "\<exists>fd. r2 = Inr fd" "fs' = fs2" "md' = (if i = next_ino fs then md(i \<mapsto> m) else md)"
    by (cases r2; simp add: write_file_def open_create_def)+
  have ev: "evolves {} {l} ?I fs fs'" using evolves_trans [OF f1(2) f2(2)] r2(2) by simp
  with f1(3,7) f2 r2 ne nolinks_evolves [OF ev assms(3)] show ?thesis by (intro exI [of _ i]) (auto split: option.splits)
qed

text \<open>
  Writing the certificate files to two different, link-free paths leaves the certificate in the
  one and the key in the other.  A key file that did not exist is readable by its owner only; one
  that existed keeps the permissions it had, whatever they are.
\<close>

theorem key_file_private:
  assumes "write_cert_files dflt cert key (abs_path lc) (abs_path lk) (fs, md) = (Inr (), fs', md')" "fs_wf fs"
    and "nolinks fs lc" "nolinks fs lk" "lc \<noteq> []" "lk \<noteq> []" "lc \<noteq> lk"
    and "\<And>i. dent_at fs lc = Some (DFile i) \<Longrightarrow> dent_at fs lk \<noteq> Some (DFile i)"
  shows "content fs' lc = Some cert \<and> content fs' lk = Some key \<and>
    (\<exists>j. dent_at fs' lk = Some (DFile j) \<and>
       (if dent_at fs lk = None then md' j = Some PRIVATE_MODE else dent_at fs lk = Some (DFile j) \<and> md' j = md j))"
proof -
  obtain r1 fs1 md1 where 1: "write_file dflt (abs_path lc) cert (fs, md) = (r1, fs1, md1)"
    by (cases "write_file dflt (abs_path lc) cert (fs, md)")
  with assms(1) have 1: "write_file dflt (abs_path lc) cert (fs, md) = (Inr (), fs1, md1)"
    and 2: "write_file PRIVATE_MODE (abs_path lk) key (fs1, md1) = (Inr (), fs', md')"
    by (cases r1; simp add: write_cert_files_def)+
  from write_file_effect [OF 1 assms(2,3,5)] obtain i where
    i: "fs_wf fs1" "dent_at fs1 lc = Some (DFile i)" "bytes_of fs1 i = cert"
      "evolves {} {lc} (insert (next_ino fs) {j. dent_at fs lc = Some (DFile j)}) fs fs1"
      "case dent_at fs lc of None \<Rightarrow> i = next_ino fs \<and> md1 = md(i \<mapsto> dflt) | Some d \<Rightarrow> d = DFile i \<and> md1 = md" by blast
  from write_file_effect [OF 2 i(1) nolinks_evolves [OF i(4) assms(4)] assms(6)] obtain j where
    j: "dent_at fs' lk = Some (DFile j)" "bytes_of fs' j = key"
      "evolves {} {lk} (insert (next_ino fs1) {j. dent_at fs1 lk = Some (DFile j)}) fs1 fs'"
      "case dent_at fs1 lk of None \<Rightarrow> j = next_ino fs1 \<and> md' = md1(j \<mapsto> PRIVATE_MODE) | Some d \<Rightarrow> d = DFile j \<and> md' = md1" by blast
  have lk: "dent_at fs1 lk = dent_at fs lk" using evolves_other [OF i(4), of lk] assms(7) by simp
  have "dent_at fs lk \<noteq> Some (DFile i)"
    using i(5) assms(8) [of i] fs_wf_inode [OF assms(2), of lk "next_ino fs"] by (auto split: option.splits)
  with lk fs_wf_inode [OF i(1,2)]
  have fresh: "i \<notin> insert (next_ino fs1) {j. dent_at fs1 lk = Some (DFile j)}" by simp
  have "dent_at fs' lc = Some (DFile i)" using evolves_other [OF j(3), of lc] assms(7) i(2) by simp
  with evolves_bytes [OF j(3) fresh] i(3) have "content fs' lc = Some cert" by (simp add: content_def)
  moreover have "content fs' lk = Some key" using j(1,2) by (simp add: content_def)
  moreover have "if dent_at fs lk = None then md' j = Some PRIVATE_MODE else dent_at fs lk = Some (DFile j) \<and> md' j = md j"
    using j(4) lk i(5) \<open>dent_at fs lk \<noteq> Some (DFile i)\<close> by (auto split: option.splits)
  ultimately show ?thesis using j(1) by blast
qed

definition demo_cert :: "(io_kind + unit) \<times> fs \<times> modes" where
  "demo_cert = write_cert_files 420 ''CERT'' ''KEY'' (abs_path [''srv'', ''c'']) (abs_path [''srv'', ''k'']) (demo_fs, Map.empty)"

theorem key_file_private_witness:
  "content (fst (snd demo_cert)) [''srv'', ''k''] = Some ''KEY'' \<and>
   (\<exists>j. dent_at (fst (snd demo_cert)) [''srv'', ''k''] = Some (DFile j) \<and> snd (snd demo_cert) j = Some PRIVATE_MODE)"
proof -
  have r: "fst demo_cert = Inr ()" by code_simp
  have d: "dent_at demo_fs [''srv'', ''c''] = None" "dent_at demo_fs [''srv'', ''k''] = None" by code_simp+
  have nl: "nolinks demo_fs [''srv'', x]" if "x \<noteq> ''door''" for x
    using that by (auto simp: nolinks_def dent_at_def demo_fs_def split: if_splits)
  have "write_cert_files 420 ''CERT'' ''KEY'' (abs_path [''srv'', ''c'']) (abs_path [''srv'', ''k'']) (demo_fs, Map.empty) =
      (Inr (), fst (snd demo_cert), snd (snd demo_cert))"
    using r by (simp add: demo_cert_def prod_eq_iff)
  from key_file_private [OF this demo_fs_wf nl nl] d show ?thesis by auto
qed

end
