(* ===== verification/Nftables.thy ===== *)
theory Nftables
  imports Config Rust_Fmt
begin

text \<open>\<^verbatim>\<open>src/nftables.rs\<close>: the firewall rules printed for the administrator.\<close>

definition tab :: char where "tab = CHR 0x09"
definition nl :: char where "nl = CHR 0x0A"

definition render_nftables :: "config \<Rightarrow> string" where
  "render_nftables cfg =
     (let port = word_str (port (server cfg));
          plo = word_str (fst (passive_ports (server cfg)));
          phi = word_str (snd (passive_ports (server cfg)));
          per_ip = word_str (max_connections_per_ip (limits cfg));
          glob = word_str (max_connections (limits cfg))
      in ''table inet reoftpd {'' @ [nl] @
         [tab] @ ''chain input {'' @ [nl] @
         [tab, tab] @ ''type filter hook input priority filter; policy accept;'' @ [nl] @
         [tab, tab] @ ''# Global cap on the FTP control port (backstop to the in-process session cap)'' @ [nl] @
         [tab, tab] @ ''tcp dport '' @ port @ '' ct state new ct count over '' @ glob @ '' drop'' @ [nl] @
         [tab, tab] @ ''# Per-source-IP cap on control + passive data ports'' @ [nl] @
         [tab, tab] @ ''tcp dport { '' @ port @ '', '' @ plo @ ''-'' @ phi @
           '' } ct state new meter reoftpd_perip { ip saddr ct count over '' @ per_ip @ '' } drop'' @ [nl] @
         [tab] @ ''}'' @ [nl] @ ''}'' @ [nl])"

text \<open>
  The rules say all of, and only, the control port, the passive range and the two connection caps:
  two configurations are given the same rules exactly when they agree on these five settings.
  In particular the limit on new connections per minute has no influence on the rules.
\<close>

theorem nftables_settings:
  "render_nftables c = render_nftables c' \<longleftrightarrow>
     port (server c) = port (server c') \<and> passive_ports (server c) = passive_ports (server c') \<and>
     max_connections (limits c) = max_connections (limits c') \<and>
     max_connections_per_ip (limits c) = max_connections_per_ip (limits c')"
proof -
  have nd: "\<not> is_digit (CHR '' '')" "\<not> is_digit (CHR '','')" "\<not> is_digit (CHR ''-'')" by (simp_all add: is_digit_def)
  show ?thesis
    unfolding render_nftables_def Let_def
    by (auto simp: nat_str_cons nd prod_eq_iff word_unat_eq_iff)
qed

end
