(* ===== verification/Main_Cmd.thy ===== *)
theory Main_Cmd
  imports Cli Tls Nftables Retention Server File_Transfer
begin

text \<open>
  \<^verbatim>\<open>src/main.rs\<close>: the commands of the program.  A command has access to the environment variables it
  reads, one line of standard input, and the file system with its permissions; it yields an error or
  not, what it printed, and the new file system.  A path is printed in its normal form.  \<^verbatim>\<open>clap\<close>,
  which turns the command line into a \<open>command\<close>, and the logger are not modelled.
\<close>

datatype printed = Stdout string | Stderr string

definition println :: "string \<Rightarrow> printed" where
  "println s = Stdout (s @ [newline])"

definition eprintln :: "string \<Rightarrow> printed" where
  "eprintln s = Stderr (s @ [newline])"

record environ =
  REOFTPD_PASSWORD :: "string option"
  REOFTPD_CONFIG :: "string option"
  stdin_line :: "io_kind + string"

type_synonym outcome = "(anyhow + unit) \<times> printed list \<times> fs"

fun component_str :: "component \<Rightarrow> string" where
  "component_str (Prefix s) = s"
| "component_str RootDir = []"
| "component_str CurDir = ''.''"
| "component_str ParentDir = ''..''"
| "component_str (Normal s) = s"

definition path_display :: "path \<Rightarrow> string" where
  "path_display p = (if p = [RootDir] then ''/'' else str_join ''/'' (map component_str p))"

text \<open>
  \<^verbatim>\<open>{:?}\<close> of a string: quotation marks, backslashes and ASCII control characters are escaped; other
  characters are taken to be printable.
\<close>

fun hex_str :: "nat \<Rightarrow> string" where
  "hex_str n = (let d = (\<lambda>k. char_of (if k < 10 then 48 + k else 87 + k :: nat))
     in if n < 16 then [d n] else hex_str (n div 16) @ [d (n mod 16)])"

definition debug_char :: "char \<Rightarrow> string" where
  "debug_char c =
     (let n = (of_char c :: nat)
      in if n = 0x22 \<or> n = 0x5C then [CHR 0x5C, c]
         else if n = 0 then [CHR 0x5C, CHR ''0'']
         else if n = 9 then [CHR 0x5C, CHR ''t'']
         else if n = 10 then [CHR 0x5C, CHR ''n'']
         else if n = 13 then [CHR 0x5C, CHR ''r'']
         else if n < 0x20 \<or> n = 0x7F then [CHR 0x5C] @ ''u{'' @ hex_str n @ ''}''
         else [c])"

definition str_debug :: "string \<Rightarrow> string" where
  "str_debug s = [quote] @ concat (map debug_char s) @ [quote]"

definition trim_newlines :: "string \<Rightarrow> string" where
  "trim_newlines s = rev (dropWhile (\<lambda>c. c = CHR 0x0A \<or> c = CHR 0x0D) (rev s))"

definition read_password :: "environ \<Rightarrow> string \<Rightarrow> (anyhow + string) \<times> printed list" where
  "read_password env prompt =
     (case REOFTPD_PASSWORD env of
        Some pw \<Rightarrow> (Inr pw, [])
      | None \<Rightarrow>
          (case stdin_line env of
             Inl e \<Rightarrow> (Inl [io_display e], [Stderr prompt])
           | Inr line \<Rightarrow> (Inr (trim_newlines line), [Stderr prompt])))"

section \<open>cleanup\<close>

text \<open>\<^verbatim>\<open>retention_days * 86_400\<close> in \<^verbatim>\<open>u64\<close>: the release profile has no overflow check, the product wraps.\<close>

definition retention_secs :: "u64 \<Rightarrow> u64" where
  "retention_secs days = days * 86400"

definition from_secs :: "u64 \<Rightarrow> nat" where
  "from_secs s = unat s * 1000000000"

definition QUARANTINE_TTL :: nat where "QUARANTINE_TTL = from_secs 3600"
definition STAGING_TTL :: nat where "STAGING_TTL = from_secs 3600"

definition cleanup_args :: "config \<Rightarrow> nat \<Rightarrow> bool \<Rightarrow> sweep_args" where
  "cleanup_args cfg now dry =
     \<lparr>retention = from_secs (retention_secs (retention_days (archive cfg))), quarantine_ttl = QUARANTINE_TTL,
      staging_ttl = STAGING_TTL, sweep_now = now, dry_run = dry\<rparr>"

definition cmd_cleanup ::
    "('r, 'k, 'e, 's, 'd) age_lib \<Rightarrow> toml \<Rightarrow> nat \<Rightarrow> path \<Rightarrow> bool \<Rightarrow> fs \<Rightarrow> outcome option" where
  "cmd_cleanup age toml now config dry fs =
     (case load age toml config fs of
        (Inl e, fs) \<Rightarrow> Some (Inl [config_error_display e], [], fs)
      | (Inr cfg, fs) \<Rightarrow>
          (case sweep (root (archive cfg)) (cleanup_args cfg now dry) fs of
             None \<Rightarrow> None
           | Some (Inl e, fs) \<Rightarrow> Some (Inl [io_display e], [], fs)
           | Some (Inr rep, fs) \<Rightarrow>
               Some (Inr (),
                 [println (''deleted '' @ nat_str (length (deleted rep)) @ '' file(s):'')] @
                 map (\<lambda>p. println (''  '' @ path_display p)) (deleted rep) @
                 [println (''pruned '' @ nat_str (length (pruned_dirs rep)) @ '' empty director(ies):'')] @
                 map (\<lambda>p. println (''  '' @ path_display p)) (pruned_dirs rep), fs)))"

section \<open>add-camera, add-viewer, hash-password, nftables\<close>

text \<open>Opening an existing file for appending.\<close>

definition fs_open_append :: "path \<Rightarrow> nat io" where
  "fs_open_append p = syscall (\<lambda>fs.
     (case lookup fs p of
        Inl e \<Rightarrow> Inl e
      | Inr (l, d) \<Rightarrow> (case d of DFile i \<Rightarrow> Inr i | _ \<Rightarrow> Inl EIsADirectory), fs))"

definition config_path :: "environ \<Rightarrow> path" where
  "config_path env =
     path_new (case REOFTPD_CONFIG env of Some s \<Rightarrow> s | None \<Rightarrow> ''/etc/reoftpd/reoftpd.toml'')"

text \<open>The common part of the two: password, hash, snippet, append.\<close>

definition append_entry ::
    "'p argon2_lib \<Rightarrow> string \<Rightarrow> environ \<Rightarrow> string \<Rightarrow> (string \<Rightarrow> string) \<Rightarrow> string \<Rightarrow> fs \<Rightarrow> outcome" where
  "append_entry lib salt env prompt snippet added fs =
     (let config = config_path env
      in case read_password env prompt of
           (Inl e, out) \<Rightarrow> (Inl e, out, fs)
         | (Inr pw, out) \<Rightarrow>
             (case hash_password lib salt pw of
                Inl e \<Rightarrow> (Inl [hash_error_display e], out, fs)
              | Inr hash \<Rightarrow>
                  (case fs_open_append config fs of
                     (Inl e, fs) \<Rightarrow> (Inl [''opening '' @ path_display config @ '': '' @ io_display e], out, fs)
                   | (Inr i, fs) \<Rightarrow>
                       (case fs_append i (snippet hash) fs of
                          (Inl e, fs) \<Rightarrow> (Inl [io_display e], out, fs)
                        | (Inr _, fs) \<Rightarrow> (Inr (), out @ [println (added @ path_display config @ ''.'')], fs)))))"

definition cmd_add_camera ::
    "'p argon2_lib \<Rightarrow> string \<Rightarrow> environ \<Rightarrow> string \<Rightarrow> string option \<Rightarrow> bool \<Rightarrow> fs \<Rightarrow> outcome" where
  "cmd_add_camera lib salt env name user tls =
     append_entry lib salt env (''Password for camera '' @ name @ '': '')
       (\<lambda>hash. render_camera_entry name user hash tls)
       (''Camera '' @ str_debug name @ '' added to '')"

definition cmd_add_viewer ::
    "'p argon2_lib \<Rightarrow> string \<Rightarrow> environ \<Rightarrow> string \<Rightarrow> string \<Rightarrow> fs \<Rightarrow> outcome" where
  "cmd_add_viewer lib salt env name sc =
     append_entry lib salt env (''Password for viewer '' @ name @ '': '')
       (\<lambda>hash. render_viewer_entry name hash sc)
       (''Viewer '' @ str_debug name @ '' added to '')"

definition cmd_hash_password :: "'p argon2_lib \<Rightarrow> string \<Rightarrow> environ \<Rightarrow> fs \<Rightarrow> outcome" where
  "cmd_hash_password lib salt env fs =
     (case read_password env ''Password: '' of
        (Inl e, out) \<Rightarrow> (Inl e, out, fs)
      | (Inr pw, out) \<Rightarrow>
          (case hash_password lib salt pw of
             Inl e \<Rightarrow> (Inl [hash_error_display e], out, fs)
           | Inr hash \<Rightarrow> (Inr (), out @ [println hash], fs)))"

definition cmd_nftables :: "('r, 'k, 'e, 's, 'd) age_lib \<Rightarrow> toml \<Rightarrow> path \<Rightarrow> fs \<Rightarrow> outcome" where
  "cmd_nftables age toml config fs =
     (case load age toml config fs of
        (Inl e, fs) \<Rightarrow> (Inl [config_error_display e], [], fs)
      | (Inr cfg, fs) \<Rightarrow> (Inr (), [Stdout (render_nftables cfg)], fs))"

section \<open>gencert, genkey\<close>

type_synonym outcome_m = "(anyhow + unit) \<times> printed list \<times> fs \<times> modes"

definition cmd_gencert ::
    "(string list \<Rightarrow> string + string \<times> string) \<Rightarrow> nat \<Rightarrow> string list \<Rightarrow> path \<Rightarrow> path \<Rightarrow> fs \<times> modes \<Rightarrow> outcome_m" where
  "cmd_gencert rcgen dflt hosts cert key s =
     (case generate_self_signed rcgen hosts of
        Inl (TlsGen e) \<Rightarrow> (Inl [''Gen('' @ str_debug e @ '')''], [], s)
      | Inr (cert_pem, key_pem) \<Rightarrow>
          (case write_cert_files dflt cert_pem key_pem cert key s of
             (Inl e, s) \<Rightarrow> (Inl [io_display e], [], s)
           | (Inr _, s) \<Rightarrow>
               (Inr (), [println (''Certificate written to '' @ path_display cert @ '' and key to '' @ path_display key @ ''.'')], s)))"

definition add_recipient_note :: string where
  "add_recipient_note = ''Add this PUBLIC recipient to [encryption].recipients (and keep a backup key):''"

definition cmd_genkey ::
    "('r, 'k, 'e, 's, 'd) age_lib \<Rightarrow> 'k \<Rightarrow> path option \<Rightarrow> fs \<times> modes \<Rightarrow> outcome_m" where
  "cmd_genkey age idn out s =
     (case generate_identity age idn of (public, secret) \<Rightarrow>
        (case out of
           Some p \<Rightarrow>
             (case write_file PRIVATE_MODE p (secret @ [newline]) s of
                (Inl e, s) \<Rightarrow> (Inl [io_display e], [], s)
              | (Inr _, s) \<Rightarrow>
                  (Inr (),
                   [eprintln (''Private identity written to '' @ path_display p @ '' (mode 0600). KEEP IT OFF THE SERVER.''),
                    eprintln add_recipient_note, println public], s))
         | None \<Rightarrow>
             (Inr (),
              [eprintln ''# KEEP THE SECRET BELOW OFF THE SERVER. Losing it = unrecoverable archive.'',
               println secret, eprintln add_recipient_note, println public], s)))"

section \<open>decrypt\<close>

text \<open>\<^verbatim>\<open>str::lines\<close>: no carriage return before the newline, no empty line after the last one.\<close>

definition strip_cr :: "string \<Rightarrow> string" where
  "strip_cr s = (if s \<noteq> [] \<and> last s = CHR 0x0D then butlast s else s)"

definition str_lines :: "string \<Rightarrow> string list" where
  "str_lines s =
     (let ls = str_split newline s
      in map strip_cr (butlast ls) @ (if last ls = [] then [] else [last ls]))"

definition identity_of ::
    "('r, 'k, 'e, 's, 'd) age_lib \<Rightarrow> path \<Rightarrow> string \<Rightarrow> anyhow + 'k" where
  "identity_of age idp text =
     (case find (\<lambda>l. str_starts_with (trim_start l) ''AGE-SECRET-KEY-'') (str_lines text) of
        None \<Rightarrow> Inl [''no AGE-SECRET-KEY- line in '' @ path_display idp]
      | Some l \<Rightarrow>
          (case identity_from_str age (str_trim l) of
             Inl _ \<Rightarrow> Inl [''identity file does not contain a valid AGE-SECRET-KEY-... value'']
           | Inr k \<Rightarrow> Inr k))"

definition stem_of :: "path \<Rightarrow> string option" where
  "stem_of p =
     (case path_file_name p of
        None \<Rightarrow> None
      | Some n \<Rightarrow> if utf8_valid (map of_char n) then str_strip_suffix n ''.age'' else None)"

text \<open>
  One file.  The ciphertext is read from the open file; reading it and writing the plaintext alternate
  in the program, which is the same unless both are one file.
\<close>

definition decrypt_one :: "('r, 'k, 'e, 's, 'd) age_lib \<Rightarrow> 'k \<Rightarrow> path option \<Rightarrow> path \<Rightarrow> fs \<Rightarrow> outcome" where
  "decrypt_one age idn out p fs =
     (case stem_of p of
        None \<Rightarrow> (Inl [path_display p @ '' does not end in .age''], [], fs)
      | Some stem \<Rightarrow>
          (let out_path = (case out of Some dir \<Rightarrow> path_join dir (path_new stem) | None \<Rightarrow> path_with_file_name p stem)
           in case fs_open_read p fs of
                (Inl e, fs) \<Rightarrow> (Inl [io_display e], [], fs)
              | (Inr rd, fs) \<Rightarrow>
                  (case fs_open_write True out_path fs of
                     (Inl e, fs) \<Rightarrow> (Inl [io_display e], [], fs)
                   | (Inr wr, fs) \<Rightarrow>
                       (case (case read_all fs rd of
                                Inl e \<Rightarrow> (Inl (CDecrypt (io_display e)), fs)
                              | Inr ct \<Rightarrow> decrypt_stream age idn ct wr fs) of
                          (Inl e, fs) \<Rightarrow>
                            (Inl [path_display p @ '': '' @ crypto_error_display e], [], snd (fs_remove_file out_path fs))
                        | (Inr _, fs) \<Rightarrow>
                            (Inr (), [eprintln (''decrypted '' @ path_display p @ '' -> '' @ path_display out_path)], fs)))))"

fun decrypt_files_loop :: "('r, 'k, 'e, 's, 'd) age_lib \<Rightarrow> 'k \<Rightarrow> path option \<Rightarrow> path list \<Rightarrow> fs \<Rightarrow> outcome" where
  "decrypt_files_loop age idn out [] fs = (Inr (), [], fs)"
| "decrypt_files_loop age idn out (p # ps) fs =
     (case decrypt_one age idn out p fs of
        (Inl e, o1, fs) \<Rightarrow> (Inl e, o1, fs)
      | (Inr _, o1, fs) \<Rightarrow>
          (case decrypt_files_loop age idn out ps fs of (r, o2, fs) \<Rightarrow> (r, o1 @ o2, fs)))"

definition cmd_decrypt ::
    "('r, 'k, 'e, 's, 'd) age_lib \<Rightarrow> path \<Rightarrow> path option \<Rightarrow> path list \<Rightarrow> fs \<Rightarrow> outcome" where
  "cmd_decrypt age idp out files fs =
     (case fs_read_to_string idp fs of
        (Inl e, fs) \<Rightarrow> (Inl [io_display e], [], fs)
      | (Inr text, fs) \<Rightarrow>
          (case identity_of age idp text of
             Inl e \<Rightarrow> (Inl e, [], fs)
           | Inr idn \<Rightarrow> decrypt_files_loop age idn out files fs))"

section \<open>serve and the dispatch\<close>

text \<open>
  \<^verbatim>\<open>serve\<close> up to the point where the server listens; \<open>listens\<close> says how the listening itself ends.
\<close>

definition cmd_serve ::
    "('r, 'k, 'e, 's, 'd) age_lib \<Rightarrow> toml \<Rightarrow> ('r unftp_settings \<Rightarrow> string + 'srv) \<Rightarrow>
     ('srv \<Rightarrow> string \<Rightarrow> daemon \<Rightarrow> (string + unit) \<times> fs) \<Rightarrow> path \<Rightarrow> fs \<Rightarrow> outcome" where
  "cmd_serve age toml unftp_build listens config fs =
     (case load age toml config fs of
        (Inl e, fs) \<Rightarrow> (Inl [config_error_display e], [], fs)
      | (Inr cfg, fs) \<Rightarrow>
          (case run_start age unftp_build cfg fs of
             (Inl e, fs) \<Rightarrow> (Inl e, [], fs)
           | (Inr (d, srv, addr), fs) \<Rightarrow>
               (case listens srv addr d of
                  (Inl e, fs) \<Rightarrow> (Inl [''FTP server listen failed'', e], [], fs)
                | (Inr _, fs) \<Rightarrow> (Inr (), [], fs))))"

text \<open>The libraries, the random values and the surroundings of one run of the program.\<close>

record ('r, 'k, 'e, 's, 'd, 'p, 'srv) host =
  h_age :: "('r, 'k, 'e, 's, 'd) age_lib"
  h_argon2 :: "'p argon2_lib"
  h_toml :: toml
  h_rcgen :: "string list \<Rightarrow> string + string \<times> string"
  h_unftp_build :: "'r unftp_settings \<Rightarrow> string + 'srv"
  h_listens :: "'srv \<Rightarrow> string \<Rightarrow> daemon \<Rightarrow> (string + unit) \<times> fs"
  h_salt :: string
  h_identity :: 'k
  h_mode :: nat
  h_env :: environ
  h_now :: nat

definition keep_modes :: "modes \<Rightarrow> outcome \<Rightarrow> outcome_m option" where
  "keep_modes md r = (case r of (res, out, fs) \<Rightarrow> Some (res, out, fs, md))"

fun main_run :: "('r, 'k, 'e, 's, 'd, 'p, 'srv) host \<Rightarrow> command \<Rightarrow> fs \<times> modes \<Rightarrow> outcome_m option" where
  "main_run h (Serve config) (fs, md) =
     keep_modes md (cmd_serve (h_age h) (h_toml h) (h_unftp_build h) (h_listens h) config fs)"
| "main_run h (Cleanup config dry) (fs, md) =
     (case cmd_cleanup (h_age h) (h_toml h) (h_now h) config dry fs of
        None \<Rightarrow> None
      | Some r \<Rightarrow> keep_modes md r)"
| "main_run h (AddCamera name user tls) (fs, md) =
     keep_modes md (cmd_add_camera (h_argon2 h) (h_salt h) (h_env h) name user tls fs)"
| "main_run h (AddViewer name sc) (fs, md) =
     keep_modes md (cmd_add_viewer (h_argon2 h) (h_salt h) (h_env h) name sc fs)"
| "main_run h HashPassword (fs, md) =
     keep_modes md (cmd_hash_password (h_argon2 h) (h_salt h) (h_env h) fs)"
| "main_run h (Nftables config) (fs, md) = keep_modes md (cmd_nftables (h_age h) (h_toml h) config fs)"
| "main_run h (Gencert hosts cert key) (fs, md) =
     Some (cmd_gencert (h_rcgen h) (h_mode h) hosts cert key (fs, md))"
| "main_run h (Genkey out) (fs, md) = Some (cmd_genkey (h_age h) (h_identity h) out (fs, md))"
| "main_run h (Decrypt idp out files) (fs, md) = keep_modes md (cmd_decrypt (h_age h) idp out files fs)"

section \<open>The retention setting\<close>

text \<open>
  (C26) The retention of a cleanup is the configured number of days exactly up to 213503982334601
  days; beyond that the product wraps, and one day more is a retention of 61184 seconds (17 hours).
\<close>

theorem retention_exact:
  "(unat (retention_secs days) = unat days * 86400 \<longleftrightarrow> unat days \<le> 213503982334601) \<and>
   retention_secs 213503982334602 = 61184"
proof -
  have "unat (retention_secs days) = unat days * 86400 mod 2 ^ 64"
    by (simp add: retention_secs_def unat_word_ariths)
  moreover have "unat days * 86400 mod 2 ^ 64 = unat days * 86400 \<longleftrightarrow> unat days * 86400 < 2 ^ 64"
    by (metis mod_less mod_less_divisor zero_less_numeral zero_less_power)
  ultimately show ?thesis by (auto simp: retention_secs_def)
qed

section \<open>Decryption\<close>

lemma fs_write_at_ok: "faults fs = [] \<Longrightarrow> fs_write_at i off bs fs = (Inr (), put_inode i (overwrite off bs (bytes_of fs i)) fs)"
  by (simp add: fs_write_at_def syscall_no_faults)

lemma decrypt_loop_ok:
  assumes "faults fs = []" "[] \<notin> set cs" "off = length (bytes_of fs i)"
  shows "\<exists>fs'. decrypt_loop cs None (i, off) tot fs = (Inr (tot + length (concat cs)), fs') \<and>
    dent_at fs' = dent_at fs \<and> bytes_of fs' = (bytes_of fs)(i := bytes_of fs i @ concat cs)"
  using assms
proof (induction cs arbitrary: off tot fs)
  case (Cons c cs)
  let ?fs = "put_inode i (bytes_of fs i @ c) fs"
  have "write_all (i, off) c fs = (Inr (i, off + length c), ?fs)"
    using Cons.prems by (simp add: write_all_def fs_write_at_ok overwrite_end)
  moreover have "c \<noteq> []" "[] \<notin> set cs" using Cons.prems(2) by auto
  moreover have "faults ?fs = []" "off + length c = length (bytes_of ?fs i)" using Cons.prems(1,3) by simp_all
  from Cons.IH [OF this(1) \<open>[] \<notin> set cs\<close> this(2), of "tot + length c"] obtain fs' where
    "decrypt_loop cs None (i, off + length c) (tot + length c) ?fs = (Inr (tot + length c + length (concat cs)), fs')"
    "dent_at fs' = dent_at ?fs" "bytes_of fs' = (bytes_of ?fs)(i := bytes_of ?fs i @ concat cs)" by blast
  ultimately show ?case by (auto simp: add.assoc fun_eq_iff)
qed simp

lemma decrypt_one_ok:
  assumes wf: "fs_wf fs" and nf: "faults fs = []" and nl: "nolinks fs l" "nolinks fs lo" "lo \<noteq> []"
    and src: "content fs l = Some ct" and dst: "dent_at fs lo = None" "dent_at fs (butlast lo) = Some DDir"
    and stem: "stem_of (abs_path l) = Some x"
    and out: "(case out of Some dir \<Rightarrow> path_join dir (path_new x) | None \<Rightarrow> path_with_file_name (abs_path l) x) = abs_path lo"
    and dec: "decryptor_new age ct = Inr d" "decrypt_with age d idn = Inr (cs, None)" "[] \<notin> set cs"
  shows "\<exists>o1 fs'. decrypt_one age idn out (abs_path l) fs = (Inr (), o1, fs') \<and> content fs' = (content fs)(lo \<mapsto> concat cs)"
proof -
  from src obtain i where i: "dent_at fs l = Some (DFile i)" "ct = bytes_of fs i" by (auto simp: content_Some)
  let ?j = "next_ino fs" and ?fs1 = "new_file lo fs"
  have ij: "i \<noteq> ?j" using fs_wf_inode [OF wf i(1)] by simp
  have rd: "fs_open_read (abs_path l) fs = (Inr (OFile i 0), fs)"
    using lookup_abs_Inr [OF wf nl(1), of l "DFile i"] i(1) by (simp add: fs_open_read_def syscall_no_faults [OF nf])
  have wr: "fs_open_write True (abs_path lo) fs = (Inr ?j, ?fs1)"
    using locate_abs [OF wf nl(2,3)] dst by (simp add: fs_open_write_def syscall_no_faults [OF nf])
  have nf1: "faults ?fs1 = []" using nf by (simp add: new_file_def Let_def put_ent_def put_inode_def)
  from decrypt_loop_ok [OF nf1 dec(3), of 0 ?j 0] obtain fs' where
    run: "decrypt_loop cs None (?j, 0) 0 ?fs1 = (Inr (length (concat cs)), fs')" "dent_at fs' = dent_at ?fs1"
      "bytes_of fs' = (bytes_of ?fs1)(?j := concat cs)" by auto
  have "decrypt_one age idn out (abs_path l) fs =
      (Inr (), [eprintln (''decrypted '' @ path_display (abs_path l) @ '' -> '' @ path_display (abs_path lo))], fs')"
    unfolding decrypt_one_def stem option.case Let_def out rd prod.case sum.case wr
    using ij i(2) dec run(1) by (simp add: read_all_def decrypt_stream_def)
  moreover have "content fs' k = ((content fs)(lo \<mapsto> concat cs)) k" for k
    using run(2,3) nl(3) fs_wf_inode [OF wf, of k]
    by (auto simp: content_def split: option.splits dent.splits if_splits)
  ultimately show ?thesis by (auto simp: fun_eq_iff)
qed

lemma stem_of_age: "utf8_valid (map of_char (f @ ''.age'')) \<Longrightarrow> stem_of (abs_path (d @ [f @ ''.age''])) = Some f"
  by (simp add: stem_of_def abs_path_snoc path_file_name_snoc str_strip_suffix_def suffix_def)

text \<open>
  (C21) What a camera uploads with encryption on can be decrypted again: after a successful encrypted
  upload, decrypting the stored file with the identity of any of the recipients writes exactly the
  received bytes under the name without \<^verbatim>\<open>.age\<close> and touches no other file.  (The library is assumed
  to decrypt what it encrypted to a recipient, the name to be UTF-8 and free, and no call of the
  decryption to fail.)
\<close>

theorem upload_decrypt_roundtrip:
  assumes "fs_wf fs" and "user_role u = Uploader h" and "clean_jail fs h b"
    and "lossy_file_name (path_new v) = Some f" and "\<not> is_reolink_test_file f"
    and "d = butlast (b @ virtual_names (path_new v))"
    and "put age (Some rs) u input (path_new v) n fs = (Inr m, fs')"
    and "age_correct age" and "identity_to_public age idn \<in> set rs"
    and "faults fs' = []" and "dent_at fs' (d @ [f]) = None" and "utf8_valid (map of_char (f @ ''.age''))"
  shows "\<exists>o1 fs''. decrypt_one age idn None (abs_path (d @ [f @ ''.age''])) fs' = (Inr (), o1, fs'') \<and>
    content fs'' = (content fs')(d @ [f] \<mapsto> concat (fst input))"
proof -
  let ?l = "d @ [f @ ''.age'']"
  have l: "?l = butlast (b @ virtual_names (path_new v)) @ [f @ ''.age'']" by (simp add: assms(6))
  note p = put_encrypted_published [OF assms(1-5) l assms(7)]
  note inv = up_inv_elims [OF p(4)]
  from p(5) obtain e k where e: "with_recipients age rs = Inr e" and
    pub: "published fs ?l (age_ciphertext age e k (fst input)) fs'" by blast
  from pub have c: "content fs' ?l = Some (age_ciphertext age e k (fst input))" by (auto simp: published_def content_def)
  from assms(8,9) e obtain dc cs where dec: "decryptor_new age (age_ciphertext age e k (fst input)) = Inr dc"
    "decrypt_with age dc idn = Inr (cs, None)" "[] \<notin> set cs" "concat cs = concat (fst input)"
    unfolding age_correct_def by blast
  have nl: "nolinks fs' (d @ [f])"
    using nolinks_child [of fs' d f] nolinks_prefix [OF inv(3), of d] assms(11) by simp
  have dir: "dent_at fs' (butlast (d @ [f])) = Some DDir"
    using c tree_wf_parent [OF fs_wf_tree [OF inv(1)], of ?l] by (auto simp: content_Some)
  have "plain_name f" using file_name_plain [OF assms(4)] by simp
  then have out: "(case None of Some dir \<Rightarrow> path_join dir (path_new f) | None \<Rightarrow> path_with_file_name (abs_path ?l) f) =
      abs_path (d @ [f])"
    by (simp add: path_with_file_name_def abs_path_snoc path_simps)
  from decrypt_one_ok [OF inv(1) assms(10) inv(3) nl _ c assms(11) dir stem_of_age [OF assms(12)] out dec(1-3)] dec(4)
  show ?thesis by simp
qed

definition demo_rt :: "(storage_error + nat) \<times> fs" where
  "demo_rt = put toy_age (Some [''age1AGE-SECRET-KEY-1'']) demo_uploader ([''ab'', ''c''], None) (path_new ''/new.mp4'') 0 demo_fs"

theorem upload_decrypt_roundtrip_witness:
  "\<exists>o1 fs''. decrypt_one toy_age ''AGE-SECRET-KEY-1'' None (abs_path [''srv'', ''cam'', ''new.mp4.age'']) (snd demo_rt) = (Inr (), o1, fs'') \<and>
     content fs'' [''srv'', ''cam'', ''new.mp4''] = Some ''abc''"
proof -
  have ev: "(case demo_rt of (r, fs) \<Rightarrow> (r, faults fs, dent_at fs [''srv'', ''cam'', ''new.mp4''])) = (Inr 3, [], None)"
    by code_simp
  then have r: "fst demo_rt = Inr 3" by (simp add: split_beta)
  have names: "[''srv'', ''cam''] = butlast ([''srv'', ''cam''] @ virtual_names (path_new ''/new.mp4''))" by code_simp
  have f: "lossy_file_name (path_new ''/new.mp4'') = Some ''new.mp4''" by code_simp
  have n: "\<not> is_reolink_test_file ''new.mp4''" by code_simp
  have u: "user_role demo_uploader = Uploader (path_new ''/srv/cam'')" by (simp add: demo_uploader_def)
  have run: "put toy_age (Some [''age1AGE-SECRET-KEY-1'']) demo_uploader ([''ab'', ''c''], None) (path_new ''/new.mp4'') 0 demo_fs =
      (Inr 3, snd demo_rt)"
    using r by (simp add: demo_rt_def prod_eq_iff)
  have i: "identity_to_public toy_age ''AGE-SECRET-KEY-1'' \<in> set [''age1AGE-SECRET-KEY-1'']" by (simp add: toy_age_def)
  have utf8: "utf8_valid (map of_char (''new.mp4'' @ ''.age''))" by code_simp
  from ev have s: "faults (snd demo_rt) = []" "dent_at (snd demo_rt) ([''srv'', ''cam''] @ [''new.mp4'']) = None"
    by (simp_all add: split_beta)
  from upload_decrypt_roundtrip [OF demo_fs_wf u demo_clean f n names run toy_age_correct i s utf8] show ?thesis by auto
qed

section \<open>Failed decryption\<close>

text \<open>The outcomes of the library that make \<^verbatim>\<open>decrypt_stream\<close> fail.\<close>

definition decryption_fails :: "('r, 'k, 'e, 's, 'd) age_lib \<Rightarrow> 'k \<Rightarrow> bytes \<Rightarrow> bool" where
  "decryption_fails age idn ct =
     (case decryptor_new age ct of
        Inl _ \<Rightarrow> True
      | Inr d \<Rightarrow>
          (case decrypt_with age d idn of
             Inl _ \<Rightarrow> True
           | Inr (cs, err) \<Rightarrow> err \<noteq> None \<and> [] \<notin> set cs))"

lemma decrypt_loop_fails:
  assumes "faults fs = []" "[] \<notin> set cs" "fs_wf fs" "i < next_ino fs"
  shows "\<exists>e' fs'. decrypt_loop cs (Some e) (i, off) tot fs = (Inl e', fs') \<and> faults fs' = [] \<and> fs_wf fs' \<and>
    dent_at fs' = dent_at fs \<and> (\<forall>j. j \<noteq> i \<longrightarrow> bytes_of fs' j = bytes_of fs j)"
  using assms
proof (induction cs arbitrary: off tot fs)
  case (Cons c cs)
  let ?fs = "put_inode i (overwrite off c (bytes_of fs i)) fs"
  have "write_all (i, off) c fs = (Inr (i, off + length c), ?fs)"
    using Cons.prems by (simp add: write_all_def fs_write_at_ok)
  moreover have "c \<noteq> []" "[] \<notin> set cs" "faults ?fs = []" "fs_wf ?fs" "i < next_ino ?fs"
    using Cons.prems by (auto simp: fs_wf_put_inode)
  ultimately show ?case using Cons.IH [of ?fs "off + length c" "tot + length c"] by auto
qed simp

lemma decrypt_stream_fails:
  assumes "faults fs = []" "decryption_fails age idn ct" "fs_wf fs" "i < next_ino fs"
  shows "\<exists>e' fs'. decrypt_stream age idn ct i fs = (Inl e', fs') \<and> faults fs' = [] \<and> fs_wf fs' \<and>
    dent_at fs' = dent_at fs \<and> (\<forall>j. j \<noteq> i \<longrightarrow> bytes_of fs' j = bytes_of fs j)"
proof (cases "decryptor_new age ct")
  case (Inr d)
  show ?thesis
  proof (cases "decrypt_with age d idn")
    case Inr2: (Inr x)
    obtain cs err where x: "x = (cs, err)" by (cases x)
    with assms(2) Inr Inr2 obtain e where "err = Some e" "[] \<notin> set cs" by (auto simp: decryption_fails_def)
    with decrypt_loop_fails [OF assms(1) _ assms(3,4)] Inr Inr2 x show ?thesis by (simp add: decrypt_stream_def)
  qed (use assms(1,3) Inr in \<open>simp add: decrypt_stream_def\<close>)
qed (use assms(1,3) in \<open>simp add: decrypt_stream_def\<close>)

lemma open_trunc_ok:
  assumes wf: "fs_wf fs" and nf: "faults fs = []" and nl: "nolinks fs lo" "lo \<noteq> []"
    and dst: "dent_at fs (butlast lo) = Some DDir" "dent_at fs lo = None \<or> (\<exists>j. dent_at fs lo = Some (DFile j))"
    and un: "unaliased fs lo"
  shows "\<exists>i fs'. fs_open_write True (abs_path lo) fs = (Inr i, fs') \<and> faults fs' = [] \<and>
    dent_at fs' = (dent_at fs)(lo \<mapsto> DFile i) \<and> (\<forall>j. j \<noteq> i \<longrightarrow> bytes_of fs' j = bytes_of fs j) \<and>
    (\<forall>k. k \<noteq> lo \<longrightarrow> dent_at fs k \<noteq> Some (DFile i))"
proof (cases "dent_at fs lo")
  case None
  have "dent_at fs k \<noteq> Some (DFile (next_ino fs))" for k
    using fs_wf_inode [OF wf, of k "next_ino fs"] by auto
  moreover have "fs_open_write True (abs_path lo) fs = (Inr (next_ino fs), new_file lo fs)"
    using None locate_abs [OF wf nl] dst(1) by (simp add: fs_open_write_def syscall_no_faults [OF nf])
  ultimately show ?thesis using nf nl(2) by simp
next
  case (Some d)
  with dst(2) obtain j where j: "dent_at fs lo = Some (DFile j)" by auto
  then have "fs_open_write True (abs_path lo) fs = (Inr j, put_inode j [] fs)"
    using locate_abs [OF wf nl] dst(1) by (simp add: fs_open_write_def syscall_no_faults [OF nf])
  moreover have "(dent_at fs)(lo \<mapsto> DFile j) = dent_at fs" using j by auto
  moreover have "\<forall>k. k \<noteq> lo \<longrightarrow> dent_at fs k \<noteq> Some (DFile j)" using un j unfolding unaliased_def by blast
  ultimately show ?thesis using nf by simp
qed

text \<open>
  (C22) A decryption that fails (a wrong key, a damaged file) removes the output file, also one that
  existed before: the name without \<^verbatim>\<open>.age\<close> is free afterwards, whatever file it named, and nothing
  else has changed.
\<close>

theorem failed_decryption_removes_output:
  assumes wf: "fs_wf fs" and nf: "faults fs = []" and nl: "nolinks fs l" "nolinks fs lo" "lo \<noteq> []" "lo \<noteq> l"
    and src: "content fs l = Some ct" and bad: "decryption_fails age idn ct"
    and dst: "dent_at fs (butlast lo) = Some DDir" "dent_at fs lo = None \<or> (\<exists>j. dent_at fs lo = Some (DFile j))"
    and un: "unaliased fs lo" and stem: "stem_of (abs_path l) = Some x"
    and out: "(case out of Some dir \<Rightarrow> path_join dir (path_new x) | None \<Rightarrow> path_with_file_name (abs_path l) x) = abs_path lo"
  shows "\<exists>e fs'. decrypt_one age idn out (abs_path l) fs = (Inl e, [], fs') \<and> content fs' = (content fs)(lo := None)"
proof -
  from src obtain i where i: "dent_at fs l = Some (DFile i)" "ct = bytes_of fs i" by (auto simp: content_Some)
  have rd: "fs_open_read (abs_path l) fs = (Inr (OFile i 0), fs)"
    using lookup_abs_Inr [OF wf nl(1), of l "DFile i"] i(1) by (simp add: fs_open_read_def syscall_no_faults [OF nf])
  from open_trunc_ok [OF wf nf nl(2,3) dst un] obtain w fs1 where
    wr: "fs_open_write True (abs_path lo) fs = (Inr w, fs1)" and 1: "faults fs1 = []"
      "dent_at fs1 = (dent_at fs)(lo \<mapsto> DFile w)" "\<And>j. j \<noteq> w \<Longrightarrow> bytes_of fs1 j = bytes_of fs j"
      "\<And>k. k \<noteq> lo \<Longrightarrow> dent_at fs k \<noteq> Some (DFile w)" by blast
  have "i \<noteq> w" using 1(4) [of l] i(1) nl(4) by auto
  then have ct: "read_all fs1 (OFile i 0) = Inr ct" using 1(3) i(2) by (simp add: read_all_def)
  have wf1: "fs_wf fs1" "w < next_ino fs1"
    using fs_open_write_frame [OF wr wf nl(2,3) UNIV_I UNIV_I, of "{}"] by simp_all
  from decrypt_stream_fails [OF 1(1) bad wf1] obtain e fs2 where
    ds: "decrypt_stream age idn ct w fs1 = (Inl e, fs2)" and 2: "faults fs2 = []" "dent_at fs2 = dent_at fs1"
      "\<And>j. j \<noteq> w \<Longrightarrow> bytes_of fs2 j = bytes_of fs1 j" "fs_wf fs2" by blast
  have "nolinks fs2 lo" using nl(2) by (simp add: nolinks_def 1(2) 2(2))
  moreover have "butlast lo \<noteq> lo" using nl(3) by (cases lo rule: rev_cases) simp_all
  ultimately have "entry_of fs2 (abs_path lo) = Inr lo"
    using dst(1) nl(3) by (simp add: entry_of_abs_Inr [OF 2(4)] 1(2) 2(2))
  then have rm: "fs_remove_file (abs_path lo) fs2 = (Inr (), del_ent lo fs2)"
    using 1(2) 2(2) by (simp add: fs_remove_file_def syscall_no_faults [OF 2(1)])
  have "content (del_ent lo fs2) k = ((content fs)(lo := None)) k" for k
  proof (cases "k = lo")
    case False
    have "bytes_of fs2 i = bytes_of fs i" if "dent_at fs k = Some (DFile i)" for i
      using that 1(3) [of i] 1(4) [OF False] 2(3) [of i] by auto
    then have "same_file fs fs2 k"
      by (intro same_fileI) (use False 1(2) 2(2) in \<open>auto split: if_splits\<close>)
    with False nl(3) show ?thesis by (simp add: content_del same_file_def)
  qed (simp add: content_del [OF nl(3)])
  then show ?thesis
    unfolding decrypt_one_def stem option.case Let_def out rd prod.case sum.case wr ct ds rm
    by (auto simp: fun_eq_iff)
qed

definition damaged_fs :: fs where
  "damaged_fs = demo_fs\<lparr>ents := [([''srv''], DDir), ([''srv'', ''old''], DFile 0), ([''srv'', ''old.age''], DFile 1)],
     inodes := [0 \<mapsto> \<lparr>ibytes = ''clip'', imtime = 5\<rparr>, 1 \<mapsto> \<lparr>ibytes = ''junk'', imtime = 5\<rparr>], next_ino := 2\<rparr>"

theorem failed_decryption_removes_output_witness:
  "content damaged_fs [''srv'', ''old''] = Some ''clip'' \<and>
   (\<exists>e fs'. decrypt_one toy_age ''k'' None (abs_path [''srv'', ''old.age'']) damaged_fs = (Inl e, [], fs') \<and>
      content fs' [''srv'', ''old''] = None)"
proof -
  have d: "dent_at damaged_fs k = (if k = [] \<or> k = [''srv''] then Some DDir else
      if k = [''srv'', ''old''] then Some (DFile 0) else if k = [''srv'', ''old.age''] then Some (DFile 1) else None)" for k
    by (simp add: dent_at_def damaged_fs_def)
  have wf: "fs_wf damaged_fs" by (simp add: fs_wf_def damaged_fs_def demo_fs_def dent_at_def)
  have nf: "faults damaged_fs = []" by (simp add: damaged_fs_def demo_fs_def)
  have nl: "nolinks damaged_fs k" for k by (simp add: nolinks_def d)
  have un: "unaliased damaged_fs [''srv'', ''old'']" by (simp add: unaliased_def d)
  have src: "content damaged_fs [''srv'', ''old.age''] = Some ''junk''" by code_simp
  have old: "content damaged_fs [''srv'', ''old''] = Some ''clip''" by code_simp
  have bad: "decryption_fails toy_age ''k'' ''junk''" by code_simp
  have stem: "stem_of (abs_path [''srv'', ''old.age'']) = Some ''old''" by code_simp
  have out: "path_with_file_name (abs_path [''srv'', ''old.age'']) ''old'' = abs_path [''srv'', ''old'']" by code_simp
  from failed_decryption_removes_output [OF wf nf nl nl _ _ src bad _ _ un stem, of None] out old show ?thesis
    by (auto simp: d)
qed

section \<open>New entries\<close>

text \<open>
  \<^verbatim>\<open>add-camera\<close> only appends to the configuration file: on success the rendered entry, with the
  hash of the password that was read, follows the old text; on every failure the file is as before.
  No other file and no directory changes.
\<close>

theorem add_camera_appends:
  assumes "lookup fs (config_path env) = Inr (l, DFile i)" "cmd_add_camera lib salt env name user tls fs = (r, out, fs')"
  shows "ents fs' = ents fs \<and> (\<forall>j. j \<noteq> i \<longrightarrow> bytes_of fs' j = bytes_of fs j) \<and>
    (case r of
       Inl _ \<Rightarrow> bytes_of fs' i = bytes_of fs i
     | Inr _ \<Rightarrow> \<exists>pw hash. fst (read_password env (''Password for camera '' @ name @ '': '')) = Inr pw \<and>
         hash_password lib salt pw = Inr hash \<and> bytes_of fs' i = bytes_of fs i @ render_camera_entry name user hash tls)"
proof -
  obtain rp o1 where rp: "read_password env (''Password for camera '' @ name @ '': '') = (rp, o1)" by fastforce
  obtain r1 fs1 where op: "fs_open_append (config_path env) fs = (r1, fs1)" by fastforce
  then have s1: "\<exists>fl. fs1 = fs\<lparr>faults := fl\<rparr>" "\<And>j. r1 = Inr j \<Longrightarrow> j = i"
    unfolding fs_open_append_def by (cases rule: syscall_cases; use assms(1) in auto)+
  have app: "ents fs2 = ents fs1 \<and> (\<forall>j. j \<noteq> i \<longrightarrow> bytes_of fs2 j = bytes_of fs1 j) \<and>
      bytes_of fs2 i = (case r2 of Inl _ \<Rightarrow> bytes_of fs1 i | Inr _ \<Rightarrow> bytes_of fs1 i @ c)"
    if "fs_append i c fs1 = (r2, fs2)" for c r2 fs2
    using that unfolding fs_append_def by (cases rule: syscall_cases) (auto simp: put_inode_def bytes_of_def)
  show ?thesis
  proof (cases rp)
    case (Inr pw)
    show ?thesis
    proof (cases "hash_password lib salt pw")
      case hash: (Inr h)
      obtain r2 fs2 where 2: "fs_append i (render_camera_entry name user h tls) fs1 = (r2, fs2)" by fastforce
      from assms(2) rp op Inr hash s1 2 app [OF 2] show ?thesis
        by (cases r1; cases r2) (auto simp: cmd_add_camera_def append_entry_def Let_def)
    qed (use assms(2) rp Inr in \<open>auto simp: cmd_add_camera_def append_entry_def Let_def\<close>)
  qed (use assms(2) rp in \<open>auto simp: cmd_add_camera_def append_entry_def Let_def\<close>)
qed

definition conf_fs :: fs where
  "conf_fs = demo_fs\<lparr>ents := [([''r.toml''], DFile 0)]\<rparr>"

definition conf_env :: environ where
  "conf_env = \<lparr>REOFTPD_PASSWORD = Some ''pw'', REOFTPD_CONFIG = Some ''/r.toml'', stdin_line = Inr []\<rparr>"

definition added :: outcome where
  "added = cmd_add_camera toy_argon2 ''salt'' conf_env ''cam'' None False conf_fs"

theorem add_camera_appends_witness:
  "ents (snd (snd added)) = ents conf_fs \<and>
   (\<exists>hash. bytes_of (snd (snd added)) 0 = ''abc'' @ render_camera_entry ''cam'' None hash False)"
proof -
  have l: "lookup conf_fs (config_path conf_env) = Inr ([''r.toml''], DFile 0)" by code_simp
  have ok: "fst added = Inr ()" by code_simp
  have "bytes_of conf_fs 0 = ''abc''" by code_simp
  moreover have "cmd_add_camera toy_argon2 ''salt'' conf_env ''cam'' None False conf_fs = (Inr (), fst (snd added), snd (snd added))"
    using ok by (simp add: added_def prod_eq_iff)
  ultimately show ?thesis using add_camera_appends [OF l] by fastforce
qed

end
